(* ===== verification/Prelude.thy ===== *)
theory Prelude
  imports Main "HOL-Library.Word"
begin

unbundle bit_operations_syntax

text \<open>
  Shared vocabulary of the development: the machine types of the C++ sources, the collections of
  facts that the component theories extend, and generic lemmas on words, masks and lists that
  more than one component needs.
\<close>

section \<open>Machine types\<close>

type_synonym u8 = "8 word"
type_synonym u16 = "16 word"
type_synonym u32 = "32 word"
type_synonym u64 = "64 word"

text \<open>A byte of raw memory is a \<^typ>\<open>u8\<close>; the value of an attribute is the bytes it occupies.\<close>

type_synonym bytes = "u8 list"

section \<open>Collections of facts\<close>

named_theorems bitmap_simps \<open>reads of a bitmap after a write of it\<close>
named_theorems access_simps \<open>reads of block memory after a write of it\<close>
named_theorems layout_simps \<open>sizes and offsets as natural numbers\<close>
named_theorems frame_simps \<open>fields that an operation leaves as they are\<close>

section \<open>Words\<close>

text \<open>Subtraction of \<open>uint32_t\<close> counters that are modelled as natural numbers below \<open>2 ^ 32\<close>.\<close>

definition sub32 :: "nat \<Rightarrow> nat \<Rightarrow> nat" where
  "sub32 a b = (if b \<le> a then a - b else 2 ^ 32 + a - b)"

lemma sub32_no_wrap: "b \<le> a \<Longrightarrow> sub32 a b = a - b"
  by (simp add: sub32_def)

lemma sub32_word: "a < 2 ^ 32 \<Longrightarrow> b < 2 ^ 32 \<Longrightarrow> sub32 a b = unat (of_nat a - of_nat b :: u32)"
  by (simp add: sub32_def unat_sub_if' unat_of_nat take_bit_nat_eq_self) linarith

lemma word_and_not_mask_eq:
  fixes x :: "'a::len word"
  shows "x AND NOT (mask n) = push_bit n (drop_bit n x)"
  by (rule bit_word_eqI) (auto simp: bit_simps)

lemma unat_and_mask:
  fixes x :: "'a::len word"
  shows "unat (x AND mask n) = unat x mod 2 ^ n"
  unfolding take_bit_eq_mod [symmetric]
  by (rule bit_eqI) (auto simp: bit_simps dest: bit_imp_le_length)

lemma unat_push_drop:
  fixes x :: "'a::len word"
  shows "unat (push_bit n (drop_bit n x)) = unat x div 2 ^ n * 2 ^ n"
  unfolding push_bit_eq_mult [symmetric] drop_bit_eq_div [symmetric]
  by (rule bit_eqI) (auto simp: bit_simps dest: bit_imp_le_length)

lemma unat_and_not_mask:
  fixes x :: "'a::len word"
  shows "unat (x AND NOT (mask n)) = unat x div 2 ^ n * 2 ^ n"
  by (simp add: word_and_not_mask_eq unat_push_drop)

lemma unat_u8_less: "unat (b :: u8) < 256"
  using unsigned_less [of b] by simp

section \<open>Little-endian encodings\<close>

text \<open>The bytes of an unsigned integer of \<open>k\<close> bytes in memory, least significant byte first.\<close>

fun le_bytes :: "nat \<Rightarrow> nat \<Rightarrow> bytes" where
  "le_bytes 0 n = []"
| "le_bytes (Suc k) n = of_nat (n mod 256) # le_bytes k (n div 256)"

fun le_nat :: "bytes \<Rightarrow> nat" where
  "le_nat [] = 0"
| "le_nat (b # bs) = unat b + 256 * le_nat bs"

lemma length_le_bytes [simp]: "length (le_bytes k n) = k"
  by (induction k arbitrary: n) auto

lemma le_nat_le_bytes: "le_nat (le_bytes k n) = n mod 256 ^ k"
proof (induction k arbitrary: n)
  case (Suc k)
  have "unat (of_nat (n mod 256) :: u8) = n mod 256"
    by (simp add: unat_of_nat take_bit_eq_mod)
  then show ?case
    by (simp add: Suc mod_mult2_eq add.commute)
qed simp

lemma le_nat_bound: "le_nat bs < 256 ^ length bs"
proof (induction bs)
  case (Cons b bs)
  have "unat b < 256" by (rule unat_u8_less)
  with Cons show ?case by simp
qed simp

lemma le_bytes_le_nat: "le_bytes (length bs) (le_nat bs) = bs"
proof (induction bs)
  case (Cons b bs)
  have "unat b < 256" by (rule unat_u8_less)
  then show ?case using Cons by simp
qed simp

section \<open>Comparison of byte strings\<close>

text \<open>The sign of \<open>memcmp\<close> on two regions of the same length: the first differing byte decides.\<close>

fun memcmp :: "bytes \<Rightarrow> bytes \<Rightarrow> int" where
  "memcmp (x # xs) (y # ys) = (if x < y then - 1 else if y < x then 1 else memcmp xs ys)"
| "memcmp _ _ = 0"

definition bytes_less :: "bytes \<Rightarrow> bytes \<Rightarrow> bool" where
  "bytes_less xs ys \<longleftrightarrow> (xs, ys) \<in> lexord {(a, b). a < b}"

lemma bytes_less_simps [simp]:
  "\<not> bytes_less xs []"
  "bytes_less [] (y # ys)"
  "bytes_less (x # xs) (y # ys) \<longleftrightarrow> x < y \<or> x = y \<and> bytes_less xs ys"
  by (auto simp: bytes_less_def)

lemma memcmp_refl [simp]: "memcmp xs xs = 0"
  by (induction xs) auto

lemma memcmp_eq_0_iff: "length xs = length ys \<Longrightarrow> memcmp xs ys = 0 \<longleftrightarrow> xs = ys"
  by (induction xs ys rule: memcmp.induct) (auto simp: not_less intro: order.antisym)

lemma memcmp_less_iff: "length xs = length ys \<Longrightarrow> memcmp xs ys < 0 \<longleftrightarrow> bytes_less xs ys"
  by (induction xs ys rule: memcmp.induct) auto

lemma bytes_less_irrefl [simp]: "\<not> bytes_less xs xs"
  by (induction xs) auto

lemma bytes_less_trans: "bytes_less xs ys \<Longrightarrow> bytes_less ys zs \<Longrightarrow> bytes_less xs zs"
  unfolding bytes_less_def by (rule lexord_trans) (auto intro: transI)

lemma bytes_less_linear: "bytes_less xs ys \<or> xs = ys \<or> bytes_less ys xs"
  unfolding bytes_less_def by (rule lexord_linear) auto

text \<open>Comparing the common prefix and then the lengths is the lexicographic order.\<close>

lemma bytes_less_prefix_length:
  "bytes_less xs ys \<longleftrightarrow>
     (let n = min (length xs) (length ys); r = memcmp (take n xs) (take n ys)
      in if r = 0 then length xs < length ys else r < 0)"
proof (induction xs ys rule: memcmp.induct [case_names both left_empty right_empty])
  case (both x xs y ys)
  then show ?case by (auto simp: Let_def)
next
  case (left_empty ys)
  then show ?case by (cases ys) simp_all
next
  case (right_empty xs)
  then show ?case by simp
qed

section \<open>Results\<close>

text \<open>The continuation of a computation that may end with an error.\<close>

definition and_then :: "'e + 'a \<Rightarrow> ('a \<Rightarrow> 'e + 'b) \<Rightarrow> 'e + 'b" where
  "and_then m f = (case m of Inl e \<Rightarrow> Inl e | Inr x \<Rightarrow> f x)"

lemma and_then_simps [simp]: "and_then (Inl e) f = Inl e" "and_then (Inr x) f = f x"
  by (simp_all add: and_then_def)

end
