(* ===== verification/Bitmap.thy ===== *)
theory Bitmap
  imports Prelude
begin

text \<open>
  \<^verbatim>\<open>common/container/bitmap.h\<close> and \<^verbatim>\<open>common/container/concurrent_bitmap.h\<close>. Both classes
  reinterpret raw memory (\<open>bits_[0]\<close>, no bounds), so a bitmap is a function from byte positions
  to bytes. Bit positions are unsigned and only divided, so they are natural numbers; the one
  counter of \<open>FirstUnsetPos\<close> that is subtracted from keeps its 32-bit wrap-around.
  The sections model \<open>RawBitmap\<close>, then \<open>RawConcurrentBitmap\<close>, then the compare-and-swap loop
  of \<open>RawConcurrentBitmap::Flip\<close> as a step relation on a shared byte.
\<close>

section \<open>RawBitmap\<close>

type_synonym bitmap = "nat \<Rightarrow> u8"

definition LSB_ONE_HOT_MASK :: "nat \<Rightarrow> u8" where
  "LSB_ONE_HOT_MASK n = push_bit n 1"

definition LSB_ONE_COLD_MASK :: "nat \<Rightarrow> u8" where
  "LSB_ONE_COLD_MASK n = 0xFF - LSB_ONE_HOT_MASK n"

definition SizeInBytes :: "nat \<Rightarrow> nat" where
  "SizeInBytes n = (if n mod 8 = 0 then n div 8 else n div 8 + 1)"

definition Clear :: "bitmap \<Rightarrow> nat \<Rightarrow> bitmap" where
  "Clear b num_bits = (\<lambda>i. if i < SizeInBytes num_bits then 0 else b i)"

definition Test :: "bitmap \<Rightarrow> nat \<Rightarrow> bool" where
  "Test b pos = (b (pos div 8) AND LSB_ONE_HOT_MASK (pos mod 8) \<noteq> 0)"

definition Set_bit :: "bitmap \<Rightarrow> nat \<Rightarrow> bool \<Rightarrow> bitmap" where
  "Set_bit b pos val =
     (if val then b(pos div 8 := b (pos div 8) OR LSB_ONE_HOT_MASK (pos mod 8))
      else b(pos div 8 := b (pos div 8) AND LSB_ONE_COLD_MASK (pos mod 8)))"

definition Flip_bit :: "bitmap \<Rightarrow> nat \<Rightarrow> bitmap" where
  "Flip_bit b pos = b(pos div 8 := b (pos div 8) XOR LSB_ONE_HOT_MASK (pos mod 8))"

section \<open>RawConcurrentBitmap\<close>

text \<open>
  The effect of one call that runs without interference: the bit is inverted if it has the
  expected value, and the return value says whether it was.
\<close>

definition Flip :: "bitmap \<Rightarrow> nat \<Rightarrow> bool \<Rightarrow> bool \<times> bitmap" where
  "Flip b pos expected_val =
     (let element = pos div 8; mask = LSB_ONE_HOT_MASK (pos mod 8); old_val = b element
      in if (old_val AND mask \<noteq> 0) = expected_val then (True, b(element := old_val XOR mask))
         else (False, b))"

definition UnsafeClear :: "bitmap \<Rightarrow> nat \<Rightarrow> bitmap" where
  "UnsafeClear b num_bits = (\<lambda>i. if i < SizeInBytes num_bits then 0 else b i)"

definition IsAlignedAndFits :: "nat \<Rightarrow> nat \<Rightarrow> nat \<Rightarrow> bool" where
  "IsAlignedAndFits sizeof_T bits_left byte_pos \<longleftrightarrow>
     bits_left \<ge> sizeof_T * 8 \<and> byte_pos mod sizeof_T = 0"

text \<open>\<open>FindUnsetBit\<close> loads \<open>sizeof(T)\<close> bytes as one signed word and compares it with \<open>-1\<close>.\<close>

definition FindUnsetBit :: "nat \<Rightarrow> bitmap \<Rightarrow> nat \<Rightarrow> nat \<Rightarrow> bool \<times> nat \<times> nat" where
  "FindUnsetBit sizeof_T b byte_pos bits_left =
     (if \<forall>i \<in> set [0..<sizeof_T]. b (byte_pos + i) = 0xFF
      then (False, byte_pos + sizeof_T, sub32 bits_left (sizeof_T * 8))
      else (True, byte_pos, bits_left))"

text \<open>
  The inner loop over the eight bits of one byte. \<open>Some r\<close> is a \<open>return\<close> of \<open>FirstUnsetPos\<close>
  (\<open>r = None\<close> for \<open>return false\<close>), \<open>None\<close> is the loop running to its end.
\<close>

fun scan_byte :: "u8 \<Rightarrow> nat \<Rightarrow> nat \<Rightarrow> nat \<Rightarrow> nat list \<Rightarrow> nat option option" where
  "scan_byte bits bitmap_num_bits start_pos byte_pos [] = None"
| "scan_byte bits bitmap_num_bits start_pos byte_pos (pos # ps) =
     (let current_pos = pos + byte_pos * 8
      in if current_pos \<ge> bitmap_num_bits then Some None
         else if current_pos < start_pos then scan_byte bits bitmap_num_bits start_pos byte_pos ps
         else if bits AND LSB_ONE_HOT_MASK pos = 0 then Some (Some current_pos)
         else scan_byte bits bitmap_num_bits start_pos byte_pos ps)"

function FirstUnsetPos_loop ::
  "bitmap \<Rightarrow> nat \<Rightarrow> nat \<Rightarrow> nat \<Rightarrow> nat \<Rightarrow> bool \<Rightarrow> nat option" where
  "FirstUnsetPos_loop b bitmap_num_bits start_pos byte_pos bits_left found =
     (if byte_pos < SizeInBytes bitmap_num_bits \<and> bits_left > 0 then
        if \<not> found \<and> IsAlignedAndFits 8 bits_left byte_pos then
          (case FindUnsetBit 8 b byte_pos bits_left of (found', byte_pos', bits_left') \<Rightarrow>
             FirstUnsetPos_loop b bitmap_num_bits start_pos byte_pos' bits_left' found')
        else if \<not> found \<and> IsAlignedAndFits 4 bits_left byte_pos then
          (case FindUnsetBit 4 b byte_pos bits_left of (found', byte_pos', bits_left') \<Rightarrow>
             FirstUnsetPos_loop b bitmap_num_bits start_pos byte_pos' bits_left' found')
        else if \<not> found \<and> IsAlignedAndFits 2 bits_left byte_pos then
          (case FindUnsetBit 2 b byte_pos bits_left of (found', byte_pos', bits_left') \<Rightarrow>
             FirstUnsetPos_loop b bitmap_num_bits start_pos byte_pos' bits_left' found')
        else
          (case (if b byte_pos \<noteq> 0xFF
                 then scan_byte (b byte_pos) bitmap_num_bits start_pos byte_pos [0..<8] else None) of
             Some r \<Rightarrow> r
           | None \<Rightarrow>
               FirstUnsetPos_loop b bitmap_num_bits start_pos (byte_pos + 1)
                 (sub32 bits_left (8 - start_pos mod 8)) found)
      else None)"
  by pat_completeness auto
termination
  by (relation "measure (\<lambda>(b, n, s, byte_pos, bits_left, found).
        2 * (SizeInBytes n - byte_pos) + (if found then 0 else 1))")
     (auto simp: FindUnsetBit_def split: if_splits)

declare FirstUnsetPos_loop.simps [simp del]

definition FirstUnsetPos :: "bitmap \<Rightarrow> nat \<Rightarrow> nat \<Rightarrow> nat option" where
  "FirstUnsetPos b bitmap_num_bits start_pos =
     (if start_pos \<ge> bitmap_num_bits then None
      else FirstUnsetPos_loop b bitmap_num_bits start_pos (start_pos div 8)
             (bitmap_num_bits - start_pos) False)"

section \<open>Reads after writes\<close>

lemma bit_LSB_ONE_HOT_MASK: "bit (LSB_ONE_HOT_MASK n) k \<longleftrightarrow> k = n \<and> n < 8"
  by (auto simp: LSB_ONE_HOT_MASK_def bit_simps)

lemma LSB_ONE_COLD_MASK_eq: "LSB_ONE_COLD_MASK n = NOT (LSB_ONE_HOT_MASK n)"
proof -
  have "(0xFF :: u8) = - 1" by simp
  then show ?thesis by (simp only: LSB_ONE_COLD_MASK_def not_eq_complement) simp
qed

lemma and_LSB_ONE_HOT_MASK:
  "n < 8 \<Longrightarrow> x AND LSB_ONE_HOT_MASK n \<noteq> 0 \<longleftrightarrow> bit x n"
proof -
  assume n: "n < 8"
  have "x AND LSB_ONE_HOT_MASK n = (if bit x n then LSB_ONE_HOT_MASK n else 0)"
    by (rule bit_word_eqI) (auto simp: bit_simps bit_LSB_ONE_HOT_MASK)
  moreover have "LSB_ONE_HOT_MASK n \<noteq> 0"
    using n by (metis bit_0_eq bit_LSB_ONE_HOT_MASK bot_apply bot_bool_def)
  ultimately show ?thesis by simp
qed

lemma Test_bit: "Test b pos \<longleftrightarrow> bit (b (pos div 8)) (pos mod 8)"
  by (simp add: Test_def and_LSB_ONE_HOT_MASK)

lemma pos_split: "p div 8 = q div 8 \<Longrightarrow> p mod 8 = q mod 8 \<Longrightarrow> p = (q :: nat)"
  by (metis div_mult_mod_eq)

lemma Test_Set_bit [bitmap_simps]:
  "Test (Set_bit b p v) q = (if q = p then v else Test b q)"
  using pos_split [of q p]
  by (auto simp: Test_bit Set_bit_def bit_simps bit_LSB_ONE_HOT_MASK LSB_ONE_COLD_MASK_eq)

lemma Test_Flip_bit [bitmap_simps]:
  "Test (Flip_bit b p) q = (if q = p then \<not> Test b q else Test b q)"
  using pos_split [of q p]
  by (auto simp: Test_bit Flip_bit_def bit_simps bit_LSB_ONE_HOT_MASK)

lemma SizeInBytes_ceil: "SizeInBytes n = (n + 7) div 8"
proof -
  obtain q r where n: "n = 8 * q + r" and r: "r < 8"
    by (metis mod_less_divisor mult_div_mod_eq zero_less_numeral)
  have "(r + 7) div 8 = (if r = 0 then 0 else 1)"
    using r by (auto simp: div_nat_eqI)
  then show ?thesis using r by (simp add: SizeInBytes_def n add.assoc)
qed

lemma SizeInBytes_covers: "pos < n \<Longrightarrow> pos div 8 < SizeInBytes n"
  by (simp add: SizeInBytes_ceil)

lemma Test_Clear [bitmap_simps]: "pos < n \<Longrightarrow> \<not> Test (Clear b n) pos"
  by (simp add: Test_def Clear_def SizeInBytes_covers)

lemma Test_UnsafeClear [bitmap_simps]: "pos < n \<Longrightarrow> \<not> Test (UnsafeClear b n) pos"
  by (simp add: Test_def UnsafeClear_def SizeInBytes_covers)

lemma Flip_eq: "Flip b p e = (if Test b p = e then (True, Flip_bit b p) else (False, b))"
  by (simp add: Flip_def Test_def Flip_bit_def Let_def)

lemma fst_Flip [bitmap_simps]: "fst (Flip b p e) \<longleftrightarrow> Test b p = e"
  by (simp add: Flip_eq)

lemma Test_snd_Flip [bitmap_simps]:
  "Test (snd (Flip b p e)) q = (if q = p then \<not> e else Test b q)"
  by (auto simp: Flip_eq bitmap_simps)

section \<open>The search of the first unset bit\<close>

definition all_set :: "bitmap \<Rightarrow> nat \<Rightarrow> nat \<Rightarrow> nat \<Rightarrow> bool" where
  "all_set b start lo hi \<longleftrightarrow> (\<forall>q. lo \<le> q \<and> q < hi \<and> start \<le> q \<longrightarrow> Test b q)"

lemma all_set_empty: "hi \<le> lo \<Longrightarrow> all_set b start lo hi"
  by (auto simp: all_set_def)

lemma all_set_step: "Test b lo \<or> lo < start \<Longrightarrow> all_set b start (Suc lo) hi \<Longrightarrow> all_set b start lo hi"
  by (auto simp: all_set_def) (metis Suc_leI le_neq_implies_less not_le)

lemma all_set_join: "all_set b start lo mid \<Longrightarrow> all_set b start mid hi \<Longrightarrow> all_set b start lo hi"
  unfolding all_set_def by (meson not_le)

lemma all_set_mono: "all_set b start lo hi \<Longrightarrow> hi' \<le> hi \<Longrightarrow> all_set b start lo hi'"
  unfolding all_set_def by (meson order.strict_trans2)

lemma all_set_bytes:
  assumes "\<forall>i < m. b (bp + i) = 0xFF"
  shows "all_set b start (bp * 8) ((bp + m) * 8)"
  unfolding all_set_def
proof (intro allI impI)
  fix q assume q: "bp * 8 \<le> q \<and> q < (bp + m) * 8 \<and> start \<le> q"
  then have "q div 8 - bp < m" by (simp add: less_diff_conv2 div_less_iff_less_mult) linarith
  with assms have "b (bp + (q div 8 - bp)) = 0xFF" by blast
  moreover have "bp + (q div 8 - bp) = q div 8" using q by (simp add: less_eq_div_iff_mult_less_eq)
  moreover have "(0xFF :: u8) = - 1" by simp
  ultimately show "Test b q" by (simp only: Test_bit) simp
qed

lemma scan_byte_spec:
  "k \<le> 8 \<Longrightarrow>
    case scan_byte (b bp) n start bp [k..<8] of
      None \<Rightarrow> all_set b start (k + bp * 8) (8 + bp * 8)
    | Some None \<Rightarrow> n < 8 + bp * 8 \<and> all_set b start (k + bp * 8) n
    | Some (Some p) \<Rightarrow> start \<le> p \<and> p < n \<and> \<not> Test b p \<and> all_set b start (k + bp * 8) p"
proof (induction "8 - k" arbitrary: k)
  case 0
  then show ?case by (simp add: all_set_empty)
next
  case (Suc d)
  let ?c = "k + bp * 8"
  from Suc have k: "k < 8" and up: "[k..<8] = k # [Suc k..<8]" by (simp_all add: upt_rec)
  have test: "Test b ?c \<longleftrightarrow> b bp AND LSB_ONE_HOT_MASK k \<noteq> 0"
    using k by (simp add: Test_def)
  have IH: "case scan_byte (b bp) n start bp [Suc k..<8] of
      None \<Rightarrow> all_set b start (Suc k + bp * 8) (8 + bp * 8)
    | Some None \<Rightarrow> n < 8 + bp * 8 \<and> all_set b start (Suc k + bp * 8) n
    | Some (Some p) \<Rightarrow> start \<le> p \<and> p < n \<and> \<not> Test b p \<and> all_set b start (Suc k + bp * 8) p"
    using Suc.hyps(2) k by (intro Suc.hyps(1)) auto
  show ?case
  proof (cases "n \<le> ?c")
    case True
    then show ?thesis using k by (simp add: up all_set_empty)
  next
    case False
    then show ?thesis
      using IH test by (auto simp: up all_set_empty Let_def intro: all_set_step split: option.splits)
  qed
qed

lemma FindUnsetBit_cases:
  "FindUnsetBit m b bp bl = (True, bp, bl) \<or>
   FindUnsetBit m b bp bl = (False, bp + m, sub32 bl (m * 8)) \<and>
     all_set b start (bp * 8) ((bp + m) * 8)"
  using all_set_bytes [of m b bp start] by (auto simp: FindUnsetBit_def)

lemma one_byte_full: "b bp = 0xFF \<Longrightarrow> all_set b start (bp * 8) ((bp + 1) * 8)"
  using all_set_bytes [of 1 b bp start] by simp

text \<open>
  The state of the search that the loop keeps: every position from \<open>start\<close> on that lies before
  the current byte is set, and, when \<open>start\<close> is the first bit of a byte, \<open>bits_left\<close> counts
  the bits from the current byte on.
\<close>

definition search_inv :: "bitmap \<Rightarrow> nat \<Rightarrow> nat \<Rightarrow> nat \<Rightarrow> nat \<Rightarrow> bool" where
  "search_inv b n start bp bl \<longleftrightarrow>
     all_set b start start (bp * 8) \<and>
     (start mod 8 = 0 \<and> n < 2 ^ 32 \<and> bp < SizeInBytes n \<longrightarrow> bl = n - bp * 8)"

definition search_post :: "bitmap \<Rightarrow> nat \<Rightarrow> nat \<Rightarrow> nat option \<Rightarrow> bool" where
  "search_post b n start r \<longleftrightarrow>
     (case r of
        Some p \<Rightarrow> start \<le> p \<and> p < n \<and> \<not> Test b p \<and> all_set b start start p
      | None \<Rightarrow> start mod 8 = 0 \<and> n < 2 ^ 32 \<longrightarrow> all_set b start start n)"

lemma SizeInBytes_less_iff: "bp < SizeInBytes n \<longleftrightarrow> bp * 8 < n"
  by (auto simp: SizeInBytes_ceil less_eq_div_iff_mult_less_eq Suc_le_eq [symmetric])

lemma search_inv_step:
  assumes "search_inv b n start bp bl" and "bp * 8 < n"
    and "all_set b start (bp * 8) ((bp + m) * 8)"
    and "start mod 8 = 0 \<and> n < 2 ^ 32 \<and> (bp + m) * 8 < n \<longrightarrow> bl' = sub32 bl (m * 8)"
  shows "search_inv b n start (bp + m) bl'"
  using assms
  by (auto simp: search_inv_def SizeInBytes_less_iff sub32_no_wrap intro: all_set_join)

lemma search_post_exit:
  assumes "search_inv b n start bp bl" and "\<not> (bp < SizeInBytes n \<and> bl > 0)"
  shows "search_post b n start None"
  using assms
  by (auto simp: search_inv_def search_post_def SizeInBytes_less_iff intro: all_set_mono)

lemma FirstUnsetPos_loop_post:
  "search_inv b n start bp bl \<Longrightarrow> search_post b n start (FirstUnsetPos_loop b n start bp bl found)"
proof (induction b n start bp bl found rule: FirstUnsetPos_loop.induct)
  case (1 b n start bp bl found)
  show ?case
  proof (cases "bp < SizeInBytes n \<and> bl > 0")
    case False
    then show ?thesis
      using search_post_exit [OF "1.prems" False] by (subst FirstUnsetPos_loop.simps) auto
  next
    case True
    then have lt: "bp * 8 < n" by (simp add: SizeInBytes_less_iff)
    have wide: "search_inv b n start bp' bl'"
      if "FindUnsetBit m b bp bl = (f, bp', bl')" for m f bp' bl'
      using that "1.prems" FindUnsetBit_cases [of m b bp bl start]
        search_inv_step [OF "1.prems" lt, where m = m] by auto
    show ?thesis
    proof (cases "\<not> found \<and> (IsAlignedAndFits 8 bl bp \<or> IsAlignedAndFits 4 bl bp \<or> IsAlignedAndFits 2 bl bp)")
      case w: True
      then show ?thesis
        using True "1.IH"(1-3) [OF True] wide
        by (subst FirstUnsetPos_loop.simps) (auto split: prod.splits)
    next
      case byte: False
      let ?scan = "if b bp \<noteq> 0xFF then scan_byte (b bp) n start bp [0..<8] else None"
      from "1.prems" have before: "all_set b start start (bp * 8)" by (simp add: search_inv_def)
      have step: "FirstUnsetPos_loop b n start bp bl found =
          (case ?scan of Some r \<Rightarrow> r
           | None \<Rightarrow> FirstUnsetPos_loop b n start (bp + 1) (sub32 bl (8 - start mod 8)) found)"
        using True byte by (subst FirstUnsetPos_loop.simps) auto
      note spec = scan_byte_spec [where k = 0 and b = b and bp = bp and n = n and start = start, simplified]
      show ?thesis
      proof (cases ?scan)
        case (Some r)
        then show ?thesis
          using spec before
          by (auto simp: step search_post_def split: if_splits option.splits intro: all_set_join)
      next
        case None
        then have "all_set b start (bp * 8) ((bp + 1) * 8)"
          using spec one_byte_full [of b bp start] by (auto split: if_splits option.splits simp: add.commute)
        then have "search_inv b n start (bp + 1) (sub32 bl (8 - start mod 8))"
          by (rule search_inv_step [OF "1.prems" lt]) simp
        then show ?thesis
          using "1.IH"(4) [OF True] byte None by (auto simp: step)
      qed
    qed
  qed
qed

lemma search_inv_start: "search_inv b n start (start div 8) (n - start)"
  by (auto simp: search_inv_def intro!: all_set_empty dest: mod_0_imp_dvd)

lemma FirstUnsetPos_post: "start < n \<Longrightarrow> search_post b n start (FirstUnsetPos b n start)"
  using FirstUnsetPos_loop_post [OF search_inv_start] by (simp add: FirstUnsetPos_def)

lemma FirstUnsetPos_SomeD:
  "FirstUnsetPos b n start = Some p \<Longrightarrow>
     start \<le> p \<and> p < n \<and> \<not> Test b p \<and> (\<forall>q. start \<le> q \<and> q < p \<longrightarrow> Test b q)"
  using FirstUnsetPos_post [of start n b]
  by (cases "start < n") (auto simp: search_post_def all_set_def, auto simp: FirstUnsetPos_def)

text \<open>
  C36. \<open>FirstUnsetPos\<close> is sound from every start position: a position it reports is inside the
  bitmap, not before \<open>start_pos\<close>, unset, and no earlier position from \<open>start_pos\<close> on is unset.
\<close>

theorem FirstUnsetPos_sound:
  assumes "FirstUnsetPos b n start = Some p"
  shows "start \<le> p \<and> p < n \<and> \<not> Test b p \<and> (\<forall>q. start \<le> q \<and> q < p \<longrightarrow> Test b q)"
  using assms by (rule FirstUnsetPos_SomeD)

theorem FirstUnsetPos_sound_witness:
  "FirstUnsetPos (\<lambda>i. if i = 0 then 0xFF else 0x01) 24 3 = Some 9 \<and>
   \<not> Test (\<lambda>i. if i = 0 then 0xFF else 0x01) 9 \<and> Test (\<lambda>i. if i = 0 then 0xFF else 0x01) 8"
proof -
  have h: "FirstUnsetPos (\<lambda>i. if i = 0 then 0xFF else 0x01) 24 3 = Some 9"
    by code_simp
  then show ?thesis using FirstUnsetPos_sound [OF h] by simp
qed

text \<open>
  C37. From a start position that is the first bit of a byte the search is also complete: it
  reports failure only when every bit from there to the end of the bitmap is set.
\<close>

theorem FirstUnsetPos_complete:
  assumes "start mod 8 = 0" and "n < 2 ^ 32" and "start < n"
  shows "FirstUnsetPos b n start = None \<longleftrightarrow> (\<forall>q. start \<le> q \<and> q < n \<longrightarrow> Test b q)"
proof
  assume "FirstUnsetPos b n start = None"
  then show "\<forall>q. start \<le> q \<and> q < n \<longrightarrow> Test b q"
    using assms FirstUnsetPos_post [of start n b] by (simp add: search_post_def all_set_def)
next
  assume "\<forall>q. start \<le> q \<and> q < n \<longrightarrow> Test b q"
  then show "FirstUnsetPos b n start = None"
    using FirstUnsetPos_SomeD [of b n start] by (cases "FirstUnsetPos b n start") auto
qed

theorem FirstUnsetPos_complete_witness:
  "FirstUnsetPos (\<lambda>i. 0xFF) 24 8 = None \<and> Test (\<lambda>i. 0xFF) 23"
proof -
  have "FirstUnsetPos (\<lambda>i. 0xFF) 24 8 = None" by code_simp
  then show ?thesis using FirstUnsetPos_complete [of 8 24 "\<lambda>i. 0xFF"] by simp
qed

text \<open>
  C38. From a start position inside a byte the search can miss unset bits: \<open>bits_left\<close> starts at
  \<open>bitmap_num_bits - start_pos\<close>, but a wide step from the byte of \<open>start_pos\<close> also takes off the
  bits before \<open>start_pos\<close>. Whenever a word of 16, 32 or 64 bits is full, the search starts at bit
  \<open>r\<close> of its first byte, and the bitmap ends \<open>r\<close> bits after the word, the search reports that there is
  no unset bit, whichever of these last \<open>r\<close> bits are unset.
\<close>

theorem FirstUnsetPos_misses_unset:
  assumes "sz \<in> {2, 4, 8}" and "0 < r" and "r < 8" and "\<forall>i < sz. b (sz * a + i) = 0xFF"
    and "k < r" and "\<not> Test b (sz * 8 * (a + 1) + k)"
  defines "start \<equiv> sz * 8 * a + r" and "n \<equiv> sz * 8 * (a + 1) + r"
  shows "FirstUnsetPos b n start = None
    \<and> start \<le> sz * 8 * (a + 1) + k \<and> sz * 8 * (a + 1) + k < n \<and> \<not> Test b (sz * 8 * (a + 1) + k)"
proof -
  have st: "start div 8 = sz * a" using assms(3) by (simp add: start_def)
  have n: "n - start = sz * 8" "start < n" using assms(1) by (auto simp: n_def start_def)
  have lt: "sz * a < SizeInBytes n" using assms(1) by (auto simp: SizeInBytes_def n_def)
  have f: "FindUnsetBit sz b (sz * a) (sz * 8) = (False, sz * a + sz, 0)"
    using assms(4) by (simp add: FindUnsetBit_def sub32_def)
  have "FirstUnsetPos_loop b n start (sz * a + sz) 0 False = None" by (subst FirstUnsetPos_loop.simps) simp
  then have "FirstUnsetPos_loop b n start (sz * a) (sz * 8) False = None"
    using lt f assms(1) by (subst FirstUnsetPos_loop.simps) (auto simp: IsAlignedAndFits_def)
  then have "FirstUnsetPos b n start = None" using n st by (simp add: FirstUnsetPos_def)
  then show ?thesis using assms(1,3,5,6) by (auto simp: start_def n_def)
qed

theorem FirstUnsetPos_misses_unset_witness:
  "FirstUnsetPos (\<lambda>i. if i < 4 then 0xFF else 0) 35 3 = None \<and> \<not> Test (\<lambda>i. if i < 4 then 0xFF else 0) 34"
proof -
  have "\<not> Test (\<lambda>i. if i < 4 then 0xFF else 0) (4 * 8 * (0 + 1) + 2)" by (simp add: Test_def)
  then show ?thesis using FirstUnsetPos_misses_unset [of 4 3 "\<lambda>i. if i < 4 then 0xFF else 0" 0 2] by simp
qed

section \<open>The interface of a bitmap\<close>

text \<open>
  What the storage code relies on: a bit reads as it was last written, and writing one bit leaves
  the others. Both classes provide it, \<open>RawBitmap\<close> with \<open>Set\<close> and \<open>RawConcurrentBitmap\<close> with a
  \<open>Flip\<close> that expects the opposite value.
\<close>

locale bit_store =
  fixes test :: "'b \<Rightarrow> nat \<Rightarrow> bool"
    and put :: "'b \<Rightarrow> nat \<Rightarrow> bool \<Rightarrow> 'b"
  assumes test_put: "test (put b p v) q = (if q = p then v else test b q)"
begin

lemma test_put_same: "test (put b p v) p = v"
  by (simp add: test_put)

lemma test_fold_put:
  "test (fold (\<lambda>p b. put b p v) ps b) q = (if q \<in> set ps then v else test b q)"
  by (induction ps arbitrary: b) (auto simp: test_put)

lemma put_put_observed: "test (put (put b p v) p w) q = test (put b p w) q"
  by (simp add: test_put)

end

interpretation raw_bits: bit_store Test Set_bit
  by unfold_locales (simp add: bitmap_simps)

interpretation atomic_bits: bit_store Test "\<lambda>b p v. snd (Flip b p (\<not> v))"
  by unfold_locales (simp add: bitmap_simps)

section \<open>Flip under contention\<close>

text \<open>
  \<open>RawConcurrentBitmap::Flip\<close> as its atomic actions on the shared byte: the load with the test
  of the loop condition, and the compare-and-swap. Thread \<open>t\<close> wants to invert bit \<open>pos t\<close> and
  expects it to be \<open>ev t\<close>; any number of threads run interleaved.
\<close>

datatype flip_pc = Start | Loaded u8 | Done bool

record flip_state =
  shared :: u8
  pcs :: "nat \<Rightarrow> flip_pc"

definition flip_init :: "u8 \<Rightarrow> flip_state" where
  "flip_init b = \<lparr>shared = b, pcs = (\<lambda>_. Start)\<rparr>"

inductive flip_step :: "(nat \<Rightarrow> nat) \<Rightarrow> (nat \<Rightarrow> bool) \<Rightarrow> flip_state \<Rightarrow> flip_state \<Rightarrow> bool"
  for pos :: "nat \<Rightarrow> nat" and ev :: "nat \<Rightarrow> bool" where
  flip_load: "pcs s t = Start \<Longrightarrow> (shared s AND LSB_ONE_HOT_MASK (pos t) \<noteq> 0) = ev t \<Longrightarrow>
     flip_step pos ev s (s\<lparr>pcs := (pcs s)(t := Loaded (shared s))\<rparr>)"
| flip_mismatch: "pcs s t = Start \<Longrightarrow> (shared s AND LSB_ONE_HOT_MASK (pos t) \<noteq> 0) \<noteq> ev t \<Longrightarrow>
     flip_step pos ev s (s\<lparr>pcs := (pcs s)(t := Done False)\<rparr>)"
| flip_cas: "pcs s t = Loaded old_val \<Longrightarrow> shared s = old_val \<Longrightarrow>
     flip_step pos ev s (s\<lparr>shared := old_val XOR LSB_ONE_HOT_MASK (pos t),
       pcs := (pcs s)(t := Done True)\<rparr>)"
| flip_retry: "pcs s t = Loaded old_val \<Longrightarrow> shared s \<noteq> old_val \<Longrightarrow>
     flip_step pos ev s (s\<lparr>pcs := (pcs s)(t := Start)\<rparr>)"

inductive_cases flip_stepE: "flip_step pos ev s s'"

definition winners :: "(nat \<Rightarrow> nat) \<Rightarrow> nat \<Rightarrow> flip_state \<Rightarrow> nat set" where
  "winners pos i s = {t. pos t = i \<and> pcs s t = Done True}"

definition flip_inv :: "(nat \<Rightarrow> nat) \<Rightarrow> nat \<Rightarrow> bool \<Rightarrow> flip_state \<Rightarrow> bool" where
  "flip_inv pos i e s \<longleftrightarrow>
     (\<forall>t old. pcs s t = Loaded old \<and> pos t = i \<longrightarrow> bit old i = e) \<and>
     (if bit (shared s) i = e then winners pos i s = {} else \<exists>w. winners pos i s = {w}) \<and>
     (\<forall>t. pos t = i \<and> pcs s t = Done False \<longrightarrow> bit (shared s) i \<noteq> e)"

lemma bit_xor_hot: "n < 8 \<Longrightarrow> bit (x XOR LSB_ONE_HOT_MASK n) k = (if k = n then \<not> bit x k else bit x k)"
  by (auto simp: bit_simps bit_LSB_ONE_HOT_MASK)

lemma winners_upd:
  "pcs s t \<noteq> Done True \<Longrightarrow> winners pos i (s\<lparr>pcs := (pcs s)(t := pc)\<rparr>) =
     (if pos t = i \<and> pc = Done True then insert t (winners pos i s) else winners pos i s)"
  by (auto simp: winners_def)

lemma winners_shared [simp]: "winners pos i (s\<lparr>shared := b\<rparr>) = winners pos i s"
  by (simp add: winners_def)

lemma flip_inv_step:
  assumes "flip_step pos ev s s'" and inv: "flip_inv pos i e s"
    and lt: "\<forall>t. pos t < 8" and ev: "\<forall>t. pos t = i \<longrightarrow> ev t = e"
  shows "flip_inv pos i e s'"
  using assms(1)
proof cases
  case (flip_load t)
  then show ?thesis using inv lt ev by (auto simp: flip_inv_def and_LSB_ONE_HOT_MASK winners_upd)
next
  case (flip_mismatch t)
  then show ?thesis using inv lt ev
    by (auto simp: flip_inv_def and_LSB_ONE_HOT_MASK winners_upd split: if_splits)
next
  case (flip_cas t old)
  have "winners pos i s' = (if pos t = i then insert t (winners pos i s) else winners pos i s)"
    using flip_cas by (auto simp: winners_def)
  moreover have "bit (shared s') i = (if pos t = i then \<not> bit (shared s) i else bit (shared s) i)"
    using flip_cas lt by (auto simp: bit_xor_hot)
  moreover have "pos t = i \<longrightarrow> bit (shared s) i = e"
    using flip_cas inv by (auto simp: flip_inv_def)
  ultimately show ?thesis using flip_cas inv by (auto simp: flip_inv_def split: if_splits)
next
  case (flip_retry t old)
  then show ?thesis using inv by (auto simp: flip_inv_def winners_upd)
qed

lemma flip_inv_reachable:
  assumes "(flip_step pos ev)\<^sup>*\<^sup>* (flip_init b) s"
    and "\<forall>t. pos t < 8" and "\<forall>t. pos t = i \<longrightarrow> ev t = bit b i"
  shows "flip_inv pos i (bit b i) s"
  using assms(1)
proof (induction rule: rtranclp_induct)
  case base
  show ?case by (simp add: flip_inv_def flip_init_def winners_def)
next
  case (step y z)
  then show ?case using flip_inv_step assms(2,3) by blast
qed

text \<open>
  C39. When any number of callers race to invert the same bit from the value it has at the start,
  at most one of the calls returns true; once any of them has returned, exactly one has returned
  true, and the bit holds the inverted value.
\<close>

theorem flip_exactly_one_winner:
  assumes "(flip_step pos ev)\<^sup>*\<^sup>* (flip_init b) s"
    and "\<forall>t. pos t < 8" and "\<forall>t. pos t = i \<longrightarrow> ev t = bit b i"
    and "pcs s t = Done r" and "pos t = i"
  shows "card {w. pos w = i \<and> pcs s w = Done True} = 1 \<and> bit (shared s) i = (\<not> bit b i)"
proof -
  have inv: "flip_inv pos i (bit b i) s"
    by (rule flip_inv_reachable [OF assms(1-3)])
  have "bit (shared s) i \<noteq> bit b i"
    using inv assms(4,5) by (cases r) (auto simp: flip_inv_def winners_def split: if_splits)
  with inv obtain w where "winners pos i s = {w}" by (auto simp: flip_inv_def split: if_splits)
  with \<open>bit (shared s) i \<noteq> bit b i\<close> show ?thesis by (auto simp: winners_def)
qed

theorem flip_exactly_one_winner_witness:
  "\<exists>s. (flip_step (\<lambda>_. 3) (\<lambda>_. False))\<^sup>*\<^sup>* (flip_init 0) s \<and> pcs s 7 = Done True \<and>
     card {w. pcs s w = Done True} = 1 \<and> bit (shared s) 3"
proof -
  let ?st = "flip_step (\<lambda>_. 3) (\<lambda>_. False)"
  let ?s1 = "(flip_init 0)\<lparr>pcs := (pcs (flip_init 0))(7 := Loaded (shared (flip_init 0)))\<rparr>"
  let ?s2 = "?s1\<lparr>shared := 0 XOR LSB_ONE_HOT_MASK 3, pcs := (pcs ?s1)(7 := Done True)\<rparr>"
  have "?st (flip_init 0) ?s1" by (rule flip_load) (simp_all add: flip_init_def)
  moreover have "?st ?s1 ?s2" by (rule flip_cas) (simp_all add: flip_init_def)
  ultimately have run: "?st\<^sup>*\<^sup>* (flip_init 0) ?s2" by auto
  moreover have fin: "pcs ?s2 7 = Done True" by simp
  ultimately show ?thesis
    using flip_exactly_one_winner [OF run _ _ fin, of 3]
    by (intro exI [of _ ?s2]) (simp add: flip_init_def)
qed

end
