(* ===== verification/CommitGate.thy ===== *)
theory CommitGate
  imports Prelude
begin

text \<open>
  \<^verbatim>\<open>common/gate.h\<close> and its use in \<^verbatim>\<open>transaction/transaction_manager.cpp\<close>: commits lock the gate while
  they take a commit time and write it into their undo records one by one, and a transaction that
  begins passes the gate after it has taken its start time. Here these calls interleave freely, down
  to the single loads and stores, with aborts, which do not lock the gate. The result is that the
  versions a running transaction sees do not change under it, as the comment of
  \<open>UpdatingCommitCriticalSection\<close> demands.
\<close>

section \<open>The gate\<close>

text \<open>\<open>count_\<close>; \<open>Traverse\<close> leaves its loop when it loads a count that is not positive.\<close>

type_synonym Gate = int

definition Lock :: "Gate \<Rightarrow> Gate" where
  "Lock g = g + 1"

definition Unlock :: "Gate \<Rightarrow> Gate" where
  "Unlock g = g - 1"

definition may_traverse :: "Gate \<Rightarrow> bool" where
  "may_traverse g \<longleftrightarrow> \<not> g > 0"

section \<open>Begins, commits and aborts step by step\<close>

text \<open>
  How far the transaction of a thread is. It has its start time when it is \<open>Entering\<close> the gate and
  returns from \<open>BeginTransaction\<close> as \<open>Running\<close>. Its commit holds the gate from \<open>Locked\<close> on, has the commit
  time when it is \<open>Flipping\<close> the undo records that are left, and is then \<open>Finished\<close>. An abort has its abort
  time when it is \<open>Aborting\<close> with the undo records that are left, and is then \<open>Aborted\<close>.
\<close>

datatype activity =
    Beginning | Entering u64 | Running u64
  | Locked | Flipping u64 "nat list" | Finished u64
  | Aborting u64 "nat list" | Aborted u64

text \<open>
  The clock of the timestamp manager, the gate, the commit time in each undo record (\<open>None\<close> while it
  holds the id of a running transaction), and the threads.
\<close>

record gate_state =
  clock :: u64
  gate :: Gate
  stamp :: "nat \<Rightarrow> u64 option"
  thread :: "nat \<Rightarrow> activity"

definition set_thread :: "nat \<Rightarrow> activity \<Rightarrow> gate_state \<Rightarrow> gate_state" where
  "set_thread i a s = s\<lparr>thread := (thread s)(i := a)\<rparr>"

text \<open>
  \<open>undo i\<close> are the undo records that the transaction of thread \<open>i\<close> has when it finishes; a read-only
  transaction has none and does not lock the gate. Timestamps are checked out below \<open>2\<^sup>6\<^sup>3\<close>, where the
  ids of running transactions begin.
\<close>

definition in_range :: "u64 \<Rightarrow> bool" where
  "in_range now \<longleftrightarrow> now < 2 ^ 63"

inductive gate_step :: "(nat \<Rightarrow> nat list) \<Rightarrow> gate_state \<Rightarrow> gate_state \<Rightarrow> bool" for undo where
  begin_checkout: "thread s i = Beginning \<Longrightarrow> in_range (clock s) \<Longrightarrow>
    gate_step undo s (set_thread i (Entering (clock s)) (s\<lparr>clock := clock s + 1\<rparr>))"
| begin_traverse: "thread s i = Entering t \<Longrightarrow> may_traverse (gate s) \<Longrightarrow>
    gate_step undo s (set_thread i (Running t) s)"
| commit_read_only: "thread s i = Running t \<Longrightarrow> undo i = [] \<Longrightarrow> in_range (clock s) \<Longrightarrow>
    gate_step undo s (set_thread i (Finished (clock s)) (s\<lparr>clock := clock s + 1\<rparr>))"
| commit_lock: "thread s i = Running t \<Longrightarrow>
    gate_step undo s (set_thread i Locked (s\<lparr>gate := Lock (gate s)\<rparr>))"
| commit_checkout: "thread s i = Locked \<Longrightarrow> in_range (clock s) \<Longrightarrow>
    gate_step undo s (set_thread i (Flipping (clock s) (undo i)) (s\<lparr>clock := clock s + 1\<rparr>))"
| commit_flip: "thread s i = Flipping c (r # rs) \<Longrightarrow>
    gate_step undo s (set_thread i (Flipping c rs) (s\<lparr>stamp := (stamp s)(r \<mapsto> c)\<rparr>))"
| commit_unlock: "thread s i = Flipping c [] \<Longrightarrow>
    gate_step undo s (set_thread i (Finished c) (s\<lparr>gate := Unlock (gate s)\<rparr>))"
| abort_checkout: "thread s i = Running t \<Longrightarrow> in_range (clock s) \<Longrightarrow>
    gate_step undo s (set_thread i (Aborting (clock s) (undo i)) (s\<lparr>clock := clock s + 1\<rparr>))"
| abort_flip: "thread s i = Aborting c (r # rs) \<Longrightarrow>
    gate_step undo s (set_thread i (Aborting c rs) (s\<lparr>stamp := (stamp s)(r \<mapsto> c)\<rparr>))"
| abort_return: "thread s i = Aborting c [] \<Longrightarrow>
    gate_step undo s (set_thread i (Aborted c) s)"

definition gate_init :: "u64 \<Rightarrow> gate_state" where
  "gate_init now = \<lparr>clock = now, gate = 0, stamp = (\<lambda>_. None), thread = (\<lambda>_. Beginning)\<rparr>"

section \<open>Invariant\<close>

definition holds_gate :: "activity \<Rightarrow> bool" where
  "holds_gate a \<longleftrightarrow> (case a of Locked \<Rightarrow> True | Flipping _ _ \<Rightarrow> True | _ \<Rightarrow> False)"

lemma holds_gate_simps [simp]:
  "holds_gate Locked" "holds_gate (Flipping c rs)" "\<not> holds_gate Beginning" "\<not> holds_gate (Entering t)"
  "\<not> holds_gate (Running t)" "\<not> holds_gate (Finished c)" "\<not> holds_gate (Aborting c rs)" "\<not> holds_gate (Aborted c)"
  by (simp_all add: holds_gate_def)

text \<open>The records that a thread still has to flip.\<close>

fun to_flip :: "(nat \<Rightarrow> nat list) \<Rightarrow> nat \<Rightarrow> activity \<Rightarrow> nat list" where
  "to_flip undo i (Flipping _ rs) = rs"
| "to_flip undo i (Finished _) = []"
| "to_flip undo i (Aborting _ rs) = rs"
| "to_flip undo i (Aborted _) = []"
| "to_flip undo i _ = undo i"

text \<open>The records with their commit times: those that a commit has flipped, and those that it has not.\<close>

definition flipped :: "(nat \<Rightarrow> nat list) \<Rightarrow> (nat \<Rightarrow> u64 option) \<Rightarrow> nat \<Rightarrow> activity \<Rightarrow> bool" where
  "flipped undo st i a \<longleftrightarrow>
     (\<forall>r \<in> set (to_flip undo i a). st r = None)
     \<and> (\<forall>c rs. a = Flipping c rs \<longrightarrow> (\<exists>ds. undo i = ds @ rs \<and> (\<forall>r \<in> set ds. st r = Some c)))
     \<and> (\<forall>c rs. a = Aborting c rs \<longrightarrow> (\<exists>ds. undo i = ds @ rs))
     \<and> (\<forall>c. a = Finished c \<longrightarrow> (\<forall>r \<in> set (undo i). st r = Some c))"

definition own_records :: "(nat \<Rightarrow> nat list) \<Rightarrow> bool" where
  "own_records undo \<longleftrightarrow> (\<forall>i. distinct (undo i)) \<and> (\<forall>i j. i \<noteq> j \<longrightarrow> set (undo i) \<inter> set (undo j) = {})"

text \<open>The counter of the gate is the number of threads in it.\<close>

definition counted :: "(nat \<Rightarrow> activity) \<Rightarrow> Gate \<Rightarrow> bool" where
  "counted f g \<longleftrightarrow> finite {i. holds_gate (f i)} \<and> g = int (card {i. holds_gate (f i)})"

text \<open>Times that no commit still to come can reach: of the transactions that have passed the gate.\<close>

definition passed :: "u64 \<Rightarrow> gate_state \<Rightarrow> bool" where
  "passed t s \<longleftrightarrow> t < clock s \<and> (\<forall>j c rs. thread s j = Flipping c rs \<longrightarrow> t < c)"

definition gate_inv :: "(nat \<Rightarrow> nat list) \<Rightarrow> gate_state \<Rightarrow> bool" where
  "gate_inv undo s \<longleftrightarrow>
     counted (thread s) (gate s)
     \<and> (\<forall>i t. thread s i = Entering t \<longrightarrow> t < clock s)
     \<and> (\<forall>i t. thread s i = Running t \<longrightarrow> passed t s)
     \<and> (\<forall>i. flipped undo (stamp s) i (thread s i))"

lemma clock_next: "in_range now \<Longrightarrow> t < now + 1 \<longleftrightarrow> t \<le> now"
proof -
  assume "in_range now"
  then have "unat (now + 1) = Suc (unat now)" by (simp add: in_range_def unat_word_ariths word_less_nat_alt)
  then show ?thesis by (simp add: word_less_nat_alt word_le_nat_alt less_Suc_eq_le)
qed

text \<open>A transaction that aborts.\<close>

definition aborts :: "activity \<Rightarrow> bool" where
  "aborts a \<longleftrightarrow> (\<exists>c rs. a = Aborting c rs) \<or> (\<exists>c. a = Aborted c)"

lemma aborts_step: "gate_step undo s s' \<Longrightarrow> aborts (thread s i) \<Longrightarrow> aborts (thread s' i)"
  by (erule gate_step.cases) (auto simp: aborts_def set_thread_def)

lemma passed_step: "gate_step undo s s' \<Longrightarrow> passed t s \<Longrightarrow> passed t s'"
  by (erule gate_step.cases) (auto simp: passed_def set_thread_def clock_next)

lemma gate_inv_flipped: "gate_inv undo s \<Longrightarrow> thread s i = a \<Longrightarrow> flipped undo (stamp s) i a"
  unfolding gate_inv_def by blast

lemma gate_inv_init: "gate_inv undo (gate_init now)"
proof -
  have "{i. holds_gate (thread (gate_init now) i)} = {}" by (simp add: gate_init_def)
  then have "counted (thread (gate_init now)) (gate (gate_init now))" by (simp add: counted_def) (simp add: gate_init_def)
  then show ?thesis by (simp add: gate_inv_def) (simp add: gate_init_def flipped_def)
qed

lemma counted_same:
  assumes "counted f g" and "holds_gate (f i) = holds_gate a"
  shows "counted (f(i := a)) g"
proof -
  have "holds_gate ((f(i := a)) j) = holds_gate (f j)" for j using assms(2) by simp
  then show ?thesis using assms(1) by (simp only: counted_def)
qed

lemma counted_Lock:
  assumes "counted f g" and "\<not> holds_gate (f i)" and "holds_gate a"
  shows "counted (f(i := a)) (Lock g)"
proof -
  have "{j. holds_gate ((f(i := a)) j)} = insert i {j. holds_gate (f j)}" using assms(3) by auto
  then show ?thesis using assms(1,2) by (simp only: counted_def Lock_def) simp
qed

lemma counted_Unlock:
  assumes "counted f g" and "holds_gate (f i)" and "\<not> holds_gate a"
  shows "counted (f(i := a)) (Unlock g)"
proof -
  let ?h = "{j. holds_gate (f j)}"
  have "{j. holds_gate ((f(i := a)) j)} = ?h - {i}" using assms(3) by auto
  moreover have "int (card ?h) = int (card (?h - {i})) + 1"
    using assms(1,2) card_Suc_Diff1 [of ?h i] by (simp add: counted_def)
  ultimately show ?thesis using assms(1) by (simp only: counted_def Unlock_def) simp
qed

lemma counted_zero: "counted f g \<Longrightarrow> g \<le> 0 \<Longrightarrow> \<not> holds_gate (f i)"
  by (auto simp: counted_def)

lemma flipped_other:
  assumes "own_records undo" and "i \<noteq> j" and "r \<in> set (undo i)" and "flipped undo st j a"
  shows "flipped undo (st(r \<mapsto> c)) j a"
proof -
  have r: "r \<notin> set (undo j)" using assms(1-3) by (auto simp: own_records_def)
  have "set (to_flip undo j a) \<subseteq> set (undo j)" using assms(4) by (cases a) (auto simp: flipped_def)
  then show ?thesis using assms(4) r by (fastforce simp: flipped_def)
qed

lemma flipped_own:
  assumes "own_records undo" and "flipped undo st i (Flipping c (r # rs))"
  shows "flipped undo (st(r \<mapsto> c)) i (Flipping c rs)"
proof -
  obtain ds where ds: "undo i = ds @ r # rs" "\<forall>x \<in> set ds. st x = Some c" using assms(2) by (auto simp: flipped_def)
  have "distinct (ds @ r # rs)" using assms(1) ds(1) by (metis own_records_def)
  moreover have "undo i = (ds @ [r]) @ rs" using ds(1) by simp
  ultimately show ?thesis using assms(2) ds(2) by (fastforce simp: flipped_def)
qed

lemma flipped_abort:
  assumes "own_records undo" and "flipped undo st i (Aborting c (r # rs))"
  shows "flipped undo (st(r \<mapsto> c)) i (Aborting c rs)"
proof -
  obtain ds where ds: "undo i = ds @ r # rs" using assms(2) by (auto simp: flipped_def)
  have "distinct (ds @ r # rs)" using assms(1) ds by (metis own_records_def)
  moreover have "undo i = (ds @ [r]) @ rs" using ds by simp
  ultimately show ?thesis using assms(2) by (fastforce simp: flipped_def)
qed

lemma gate_inv_step:
  assumes "gate_step undo s s'" and "gate_inv undo s" and "own_records undo"
  shows "gate_inv undo s'"
proof -
  have count: "counted (thread s) (gate s)"
    and early: "\<And>i t. thread s i = Entering t \<Longrightarrow> t < clock s"
    and run: "\<And>i t. thread s i = Running t \<Longrightarrow> passed t s'"
    and fl: "\<And>i. flipped undo (stamp s) i (thread s i)"
    using assms(2) passed_step [OF assms(1)] by (auto simp: gate_inv_def)
  note own = gate_inv_flipped [OF assms(2)] and le = early [THEN less_imp_le]
  from assms(1) show ?thesis
  proof cases
    case (begin_checkout i)
    have "counted ((thread s)(i := Entering (clock s))) (gate s)" by (rule counted_same [OF count]) (simp add: begin_checkout)
    then show ?thesis
      using begin_checkout le run fl own [OF begin_checkout(2)] by (auto simp: gate_inv_def set_thread_def clock_next flipped_def)
  next
    case (begin_traverse i t)
    have "counted ((thread s)(i := Running t)) (gate s)" by (rule counted_same [OF count]) (simp add: begin_traverse)
    moreover have "thread s j \<noteq> Flipping c rs" for j c rs
      using counted_zero [OF count, of j] begin_traverse(3) by (auto simp: may_traverse_def)
    then have "passed t s'" using early [OF begin_traverse(2)] begin_traverse(1) by (auto simp: passed_def set_thread_def)
    ultimately show ?thesis
      using begin_traverse early run fl own [OF begin_traverse(2)] by (auto simp: gate_inv_def set_thread_def flipped_def)
  next
    case (commit_read_only i t)
    have "counted ((thread s)(i := Finished (clock s))) (gate s)" by (rule counted_same [OF count]) (simp add: commit_read_only)
    then show ?thesis
      using commit_read_only le run fl by (auto simp: gate_inv_def set_thread_def clock_next flipped_def)
  next
    case (commit_lock i t)
    have "counted ((thread s)(i := Locked)) (Lock (gate s))" by (rule counted_Lock [OF count]) (simp_all add: commit_lock)
    then show ?thesis
      using commit_lock early run fl own [OF commit_lock(2)] by (auto simp: gate_inv_def set_thread_def flipped_def)
  next
    case (commit_checkout i)
    have "counted ((thread s)(i := Flipping (clock s) (undo i))) (gate s)"
      by (rule counted_same [OF count]) (simp add: commit_checkout)
    then show ?thesis
      using commit_checkout le run fl own [OF commit_checkout(2)]
      by (auto simp: gate_inv_def set_thread_def clock_next flipped_def)
  next
    case (commit_flip i c r rs)
    have "r \<in> set (undo i)" using own [OF commit_flip(2)] by (auto simp: flipped_def)
    then have "flipped undo ((stamp s)(r \<mapsto> c)) j (((thread s)(i := Flipping c rs)) j)" for j
      using flipped_own [OF assms(3) own [OF commit_flip(2)]] flipped_other [OF assms(3) _ _ fl, of i j r c] by (cases "j = i") auto
    moreover have "counted ((thread s)(i := Flipping c rs)) (gate s)" by (rule counted_same [OF count]) (simp add: commit_flip)
    moreover have "\<forall>j t. thread s' j = Running t \<longrightarrow> passed t s'" "\<forall>j t. thread s' j = Entering t \<longrightarrow> t < clock s'"
      using commit_flip(1) run early by (auto simp: set_thread_def)
    ultimately show ?thesis by (simp add: gate_inv_def commit_flip(1) set_thread_def del: fun_upd_apply)
  next
    case (commit_unlock i c)
    have "flipped undo (stamp s) i (Finished c)" using own [OF commit_unlock(2)] by (auto simp: flipped_def)
    moreover have "counted ((thread s)(i := Finished c)) (Unlock (gate s))"
      by (rule counted_Unlock [OF count]) (simp_all add: commit_unlock)
    ultimately show ?thesis using commit_unlock early run fl by (auto simp: gate_inv_def set_thread_def)
  next
    case (abort_checkout i t)
    have "counted ((thread s)(i := Aborting (clock s) (undo i))) (gate s)" by (rule counted_same [OF count]) (simp add: abort_checkout)
    then show ?thesis
      using abort_checkout le run fl own [OF abort_checkout(2)] by (auto simp: gate_inv_def set_thread_def clock_next flipped_def)
  next
    case (abort_flip i c r rs)
    have r: "r \<in> set (undo i)" using own [OF abort_flip(2)] by (auto simp: flipped_def)
    have "flipped undo ((stamp s)(r \<mapsto> c)) j (((thread s)(i := Aborting c rs)) j)" for j
      using flipped_abort [OF assms(3) own [OF abort_flip(2)]] flipped_other [OF assms(3) _ r fl, of j c] by (cases "j = i") auto
    moreover have "counted ((thread s)(i := Aborting c rs)) (gate s)" by (rule counted_same [OF count]) (simp add: abort_flip)
    moreover have "\<forall>j t. thread s' j = Running t \<longrightarrow> passed t s'" "\<forall>j t. thread s' j = Entering t \<longrightarrow> t < clock s'"
      using abort_flip(1) run early by (auto simp: set_thread_def)
    ultimately show ?thesis by (simp add: gate_inv_def abort_flip(1) set_thread_def del: fun_upd_apply)
  next
    case (abort_return i c)
    have "counted ((thread s)(i := Aborted c)) (gate s)" by (rule counted_same [OF count]) (simp add: abort_return)
    then show ?thesis using abort_return early run fl by (auto simp: gate_inv_def set_thread_def flipped_def)
  qed
qed

lemma gate_inv_run:
  "(gate_step undo)\<^sup>*\<^sup>* s s' \<Longrightarrow> gate_inv undo s \<Longrightarrow> own_records undo \<Longrightarrow> gate_inv undo s'"
  by (induction rule: rtranclp_induct) (auto intro: gate_inv_step)

section \<open>Snapshots do not change\<close>

text \<open>A transaction with start time \<open>t\<close> sees the versions that committed before.\<close>

definition visible :: "u64 \<Rightarrow> nat \<Rightarrow> gate_state \<Rightarrow> bool" where
  "visible t r s \<longleftrightarrow> (case stamp s r of Some c \<Rightarrow> c < t | None \<Rightarrow> False)"

text \<open>The records of transactions that do not abort.\<close>

definition kept :: "(nat \<Rightarrow> nat list) \<Rightarrow> nat \<Rightarrow> gate_state \<Rightarrow> bool" where
  "kept undo r s \<longleftrightarrow> (\<forall>j. aborts (thread s j) \<longrightarrow> r \<notin> set (undo j))"

lemma kept_step: "gate_step undo s s' \<Longrightarrow> kept undo r s' \<Longrightarrow> kept undo r s"
  using aborts_step unfolding kept_def by blast

lemma visible_step:
  assumes "gate_step undo s s'" and "gate_inv undo s" and "passed t s" and "kept undo r s'"
  shows "visible t r s' = visible t r s"
  using assms(1)
proof cases
  case (commit_flip j c r' rs)
  then have "t < c" "stamp s r' = None"
    using assms(3) gate_inv_flipped [OF assms(2) commit_flip(2)] by (auto simp: flipped_def passed_def)
  then show ?thesis using commit_flip by (auto simp: visible_def set_thread_def)
next
  case (abort_flip j c r' rs)
  have "r' \<in> set (undo j)" using gate_inv_flipped [OF assms(2) abort_flip(2)] by (auto simp: flipped_def)
  moreover have "aborts (thread s j)" by (simp add: aborts_def abort_flip)
  ultimately have "r \<noteq> r'" using kept_step [OF assms(1,4)] by (auto simp: kept_def)
  then show ?thesis using abort_flip by (auto simp: visible_def set_thread_def)
qed (auto simp: visible_def set_thread_def)

lemma visible_run:
  "(gate_step undo)\<^sup>*\<^sup>* s s' \<Longrightarrow> gate_inv undo s \<Longrightarrow> own_records undo \<Longrightarrow> passed t s \<Longrightarrow>
     (\<forall>r. kept undo r s' \<longrightarrow> visible t r s' = visible t r s) \<and> passed t s'"
proof (induction rule: rtranclp_induct)
  case (step y z)
  then show ?case
    using visible_step [OF step.hyps(2) gate_inv_run [OF step.hyps(1)]] passed_step [OF step.hyps(2)] kept_step [OF step.hyps(2)]
    by blast
qed simp

text \<open>
  C5. The gate makes commits atomic for new transactions. With begins, commits and aborts of any number
  of threads interleaved down to the stores of single timestamps, from the moment a transaction has
  begun the set of versions that its start time sees does not change, the versions of transactions that
  abort left aside, and it contains all versions of every transaction that ever gets an earlier commit
  time.
\<close>

theorem gate_keeps_snapshot:
  assumes "own_records undo" and "(gate_step undo)\<^sup>*\<^sup>* (gate_init now) s" and "thread s i = Running t"
    and "(gate_step undo)\<^sup>*\<^sup>* s s'"
  shows "(\<forall>r. (\<forall>j. aborts (thread s' j) \<longrightarrow> r \<notin> set (undo j)) \<longrightarrow> visible t r s' = visible t r s)
    \<and> (\<forall>j c. (thread s' j = Finished c \<or> (\<exists>rs. thread s' j = Flipping c rs)) \<longrightarrow> c < t \<longrightarrow> (\<forall>r \<in> set (undo j). visible t r s))"
proof -
  have inv: "gate_inv undo s" using gate_inv_run [OF assms(2) gate_inv_init assms(1)] .
  then have "passed t s" using assms(3) by (auto simp: gate_inv_def)
  note V = visible_run [OF assms(4) inv assms(1) this]
  have inv': "gate_inv undo s'" using gate_inv_run [OF assms(4) inv assms(1)] .
  have "visible t r s" if "thread s' j = Finished c \<or> (\<exists>rs. thread s' j = Flipping c rs)" "c < t" "r \<in> set (undo j)" for j c r
  proof -
    have f: "thread s' j = Finished c" using that(1,2) V unfolding passed_def by (meson less_asym)
    then have "stamp s' r = Some c" using gate_inv_flipped [OF inv'] that(3) by (auto simp: flipped_def)
    then have "visible t r s'" using that(2) by (simp add: visible_def)
    moreover have "r \<notin> set (undo k)" if k: "aborts (thread s' k)" for k
    proof -
      have "k \<noteq> j" using k f by (auto simp: aborts_def)
      then show ?thesis using assms(1) \<open>r \<in> set (undo j)\<close> unfolding own_records_def by blast
    qed
    ultimately show ?thesis using V by (auto simp: kept_def)
  qed
  then show ?thesis using V unfolding kept_def by blast
qed

text \<open>
  Thread 0 begins and commits a transaction with one undo record; thread 1 takes its start time
  while the record is flipped, and passes the gate afterwards.
\<close>

theorem gate_keeps_snapshot_witness:
  "\<exists>s. (gate_step (\<lambda>i. if i = 0 then [7] else []))\<^sup>*\<^sup>* (gate_init 5) s \<and> thread s 1 = Running 7 \<and> visible 7 7 s"
proof -
  let ?u = "\<lambda>i :: nat. if i = 0 then [7 :: nat] else []"
  define s0 where "s0 = gate_init 5"
  define s1 where "s1 = set_thread 0 (Entering (clock s0)) (s0\<lparr>clock := clock s0 + 1\<rparr>)"
  define s2 where "s2 = set_thread 0 (Running 5) s1"
  define s3 where "s3 = set_thread 0 Locked (s2\<lparr>gate := Lock (gate s2)\<rparr>)"
  define s4 where "s4 = set_thread 0 (Flipping (clock s3) (?u 0)) (s3\<lparr>clock := clock s3 + 1\<rparr>)"
  define s5 where "s5 = set_thread 1 (Entering (clock s4)) (s4\<lparr>clock := clock s4 + 1\<rparr>)"
  define s6 where "s6 = set_thread 0 (Flipping 6 []) (s5\<lparr>stamp := (stamp s5)(7 \<mapsto> 6)\<rparr>)"
  define s7 where "s7 = set_thread 0 (Finished 6) (s6\<lparr>gate := Unlock (gate s6)\<rparr>)"
  define s8 where "s8 = set_thread 1 (Running 7) s7"
  note d = s0_def s1_def s2_def s3_def s4_def s5_def s6_def s7_def s8_def gate_init_def set_thread_def Lock_def Unlock_def may_traverse_def in_range_def
  have "gate_step ?u s0 s1" unfolding s1_def by (rule begin_checkout) (simp_all add: d)
  moreover have "gate_step ?u s1 s2" unfolding s2_def by (rule begin_traverse) (simp_all add: d)
  moreover have "gate_step ?u s2 s3" unfolding s3_def by (rule commit_lock) (simp add: d)
  moreover have "gate_step ?u s3 s4" unfolding s4_def by (rule commit_checkout) (simp_all add: d)
  moreover have "gate_step ?u s4 s5" unfolding s5_def by (rule begin_checkout) (simp_all add: d)
  moreover have "gate_step ?u s5 s6" unfolding s6_def by (rule commit_flip) (simp add: d)
  moreover have "gate_step ?u s6 s7" unfolding s7_def by (rule commit_unlock) (simp add: d)
  moreover have "gate_step ?u s7 s8" unfolding s8_def by (rule begin_traverse) (simp_all add: d)
  ultimately have run: "(gate_step ?u)\<^sup>*\<^sup>* s0 s8" by (meson converse_rtranclp_into_rtranclp rtranclp.rtrancl_refl)
  have own: "own_records ?u" by (auto simp: own_records_def)
  have th: "thread s8 1 = Running 7" "thread s8 0 = Finished 6" by (simp_all add: d)
  have "visible 7 7 s8"
    using gate_keeps_snapshot [OF own run [unfolded s0_def] th(1) rtranclp.rtrancl_refl] th(2) by auto
  then show ?thesis using run th(1) unfolding s0_def by blast
qed

end
