(* ===== verification/LogIo.thy ===== *)
theory LogIo
  imports Prelude
begin

text \<open>
  \<^verbatim>\<open>storage/write_ahead_log/log_io.{h,cpp}\<close>: the loops around the system calls, the buffers that the
  log is written through, and the buffered reader of recovery. The results: \<open>WriteFully\<close> and
  \<open>ReadFully\<close> transfer exactly the bytes they should, however the calls split them; the reader hands
  out the bytes of the file in order; and it reports more contents at the end of a file whose length
  is a multiple of the buffer size.
\<close>

unbundle bit_operations_syntax

section \<open>System calls\<close>

text \<open>
  What the calls of \<open>read\<close> and \<open>write\<close> return, one after the other: a number of bytes, of which no
  more are transferred than asked for or left, an interruption (\<open>EINTR\<close>), or another error. A loop
  that has used up the calls is still running (\<open>None\<close>); \<open>Inl\<close> is the exception with its \<open>errno\<close> and
  what has been transferred before it.
\<close>

datatype syscall = Transferred nat | Interrupted | Failed nat

fun WriteFully :: "syscall list \<Rightarrow> bytes \<Rightarrow> nat \<Rightarrow> bytes \<Rightarrow> (nat \<times> bytes + bytes) option" where
  "WriteFully cs buf written out =
     (if length buf \<le> written then Some (Inr out)
      else case cs of
        [] \<Rightarrow> None
      | Interrupted # cs' \<Rightarrow> WriteFully cs' buf written out
      | Failed e # cs' \<Rightarrow> Some (Inl (e, out))
      | Transferred k # cs' \<Rightarrow>
          (let ret = min k (length buf - written)
           in WriteFully cs' buf (written + ret) (out @ take ret (drop written buf))))"

declare WriteFully.simps [simp del]

text \<open>\<open>rest\<close> is what the file holds from the offset of the descriptor on; the result is what was read and the new rest.\<close>

fun ReadFully :: "syscall list \<Rightarrow> nat \<Rightarrow> bytes \<Rightarrow> bytes \<Rightarrow> (nat \<times> bytes + bytes \<times> bytes) option" where
  "ReadFully cs nbyte buf rest =
     (if nbyte \<le> length buf then Some (Inr (buf, rest))
      else case cs of
        [] \<Rightarrow> None
      | Interrupted # cs' \<Rightarrow> ReadFully cs' nbyte buf rest
      | Failed e # cs' \<Rightarrow> Some (Inl (e, buf))
      | Transferred k # cs' \<Rightarrow>
          (let ret = min k (min (nbyte - length buf) (length rest))
           in if ret = 0 then Some (Inr (buf, rest))
              else ReadFully cs' nbyte (buf @ take ret rest) (drop ret rest)))"

declare ReadFully.simps [simp del]

text \<open>The bytes that a sequence of calls can transfer; the calls that loops may retry.\<close>

fun transferred :: "syscall list \<Rightarrow> nat" where
  "transferred [] = 0"
| "transferred (Transferred k # cs) = k + transferred cs"
| "transferred (_ # cs) = transferred cs"

definition no_error :: "syscall list \<Rightarrow> bool" where
  "no_error cs \<longleftrightarrow> (\<forall>e. Failed e \<notin> set cs)"

definition progress :: "syscall list \<Rightarrow> bool" where
  "progress cs \<longleftrightarrow> Transferred 0 \<notin> set cs"

lemma WriteFully_result:
  assumes "WriteFully cs buf written out = Some res" and "written \<le> length buf"
  shows "case res of Inr out1 \<Rightarrow> out1 = out @ drop written buf
                   | Inl (e, out1) \<Rightarrow> Failed e \<in> set cs \<and> (\<exists>n. out1 = out @ take n (drop written buf))"
  using assms
proof (induction cs buf written out rule: WriteFully.induct)
  case (1 cs buf written out)
  show ?case
  proof (cases "length buf \<le> written")
    case True
    then show ?thesis using 1(3) by (auto simp: WriteFully.simps)
  next
    case F: False
    then obtain c cs' where cs: "cs = c # cs'" using 1(3) by (cases cs) (auto simp: WriteFully.simps)
    show ?thesis
    proof (cases c)
      case (Transferred k)
      let ?r = "min k (length buf - written)"
      have step: "drop written buf = take ?r (drop written buf) @ drop (written + ?r) buf"
        by (metis append_take_drop_id drop_drop add.commute)
      have "WriteFully cs' buf (written + ?r) (out @ take ?r (drop written buf)) = Some res"
        using 1(3) F by (subst (asm) WriteFully.simps) (simp add: cs Transferred Let_def)
      from 1(1) [OF F cs Transferred refl this] F
      have IH: "case res of Inr out1 \<Rightarrow> out1 = out @ take ?r (drop written buf) @ drop (written + ?r) buf
         | Inl (e, out1) \<Rightarrow> Failed e \<in> set cs' \<and> (\<exists>n. out1 = out @ take ?r (drop written buf) @ take n (drop (written + ?r) buf))"
        by (auto split: sum.splits)
      have t: "take ?r (drop written buf) @ take n (drop (written + ?r) buf) = take (?r + n) (drop written buf)" for n
        using take_add [of ?r n "drop written buf"] by (simp add: add.commute)
      show ?thesis using IH unfolding t by (auto simp: cs simp flip: step split: sum.splits)
    next
      case Interrupted
      have "WriteFully cs' buf written out = Some res"
        using 1(3) F by (subst (asm) WriteFully.simps) (simp add: cs Interrupted)
      from 1(2) [OF F cs Interrupted this 1(4)] show ?thesis by (auto simp: cs split: sum.splits)
    next
      case (Failed e)
      then have "res = Inl (e, out)" using 1(3) F by (subst (asm) WriteFully.simps) (simp add: cs)
      then show ?thesis using Failed by (auto simp: cs intro: exI [of _ 0])
    qed
  qed
qed


lemma WriteFully_returns:
  assumes "no_error cs" and "length buf \<le> written + transferred cs"
  shows "\<exists>out1. WriteFully cs buf written out = Some (Inr out1)"
  using assms
proof (induction cs arbitrary: written out)
  case (Cons c cs)
  show ?case
  proof (cases "length buf \<le> written")
    case False
    then show ?thesis
      using Cons.prems Cons.IH [of written out]
        Cons.IH [of "written + min k (length buf - written)" "out @ take (min k (length buf - written)) (drop written buf)" for k]
      by (cases c) (auto simp: WriteFully.simps [of "x # y" for x y] no_error_def Let_def min_def)
  qed (simp add: WriteFully.simps)
qed (simp add: WriteFully.simps)

definition transfers :: "syscall list \<Rightarrow> nat" where
  "transfers cs = length (filter (\<lambda>c. \<exists>k. c = Transferred k) cs)"

lemma ReadFully_returns:
  assumes "no_error cs" and "progress cs" and "nbyte \<le> length buf + transfers cs"
  shows "ReadFully cs nbyte buf rest = Some (Inr (buf @ take (nbyte - length buf) rest, drop (nbyte - length buf) rest))"
  using assms
proof (induction cs arbitrary: buf rest)
  case (Cons c cs)
  show ?case
  proof (cases "nbyte \<le> length buf")
    case False
    show ?thesis
    proof (cases c)
      case (Transferred k)
      define r where "r = min k (min (nbyte - length buf) (length rest))"
      have k: "0 < k" using Cons.prems(2) Transferred by (auto simp: progress_def)
      show ?thesis
      proof (cases "rest = []")
        case True
        then show ?thesis using False by (simp add: ReadFully.simps [of "x # y" for x y] Transferred)
      next
        case ne: False
        then have r: "0 < r" "r \<le> nbyte - length buf" "r \<le> length rest" using k False by (auto simp: r_def)
        have "ReadFully cs nbyte (buf @ take r rest) (drop r rest) =
            Some (Inr ((buf @ take r rest) @ take (nbyte - length (buf @ take r rest)) (drop r rest),
              drop (nbyte - length (buf @ take r rest)) (drop r rest)))"
          by (rule Cons.IH) (use Cons.prems r(1,3) Transferred in \<open>auto simp: no_error_def progress_def transfers_def\<close>)
        moreover have "take r rest @ take (nbyte - length buf - r) (drop r rest) = take (nbyte - length buf) rest"
          by (metis take_add le_add_diff_inverse r(2))
        ultimately show ?thesis
          using False r by (simp add: ReadFully.simps [of "x # y" for x y] Transferred Let_def min_absorb2 flip: r_def)
      qed
    next
      case Interrupted
      then show ?thesis
        using Cons.prems Cons.IH [of buf rest] False
        by (simp add: ReadFully.simps [of "x # y" for x y] no_error_def progress_def transfers_def)
    next
      case (Failed e)
      then show ?thesis using Cons.prems by (auto simp: no_error_def)
    qed
  qed (simp add: ReadFully.simps)
qed (simp add: ReadFully.simps transfers_def)


section \<open>BufferedLogWriter\<close>

text \<open>
  \<open>write_buffer\<close> is \<open>buffer_\<close> up to \<open>buffer_size_\<close>. The sizes are those of the values of a log record
  and fit in 32 bits. \<open>FlushBuffer\<close> is its effect when \<open>WriteFully\<close> returns.
\<close>

definition LOG_BUFFER_SIZE :: nat where
  "LOG_BUFFER_SIZE = 4096"

record BufferedLogWriter =
  write_buffer :: bytes

definition CanBuffer :: "BufferedLogWriter \<Rightarrow> nat \<Rightarrow> bool" where
  "CanBuffer w n \<longleftrightarrow> n \<le> LOG_BUFFER_SIZE - length (write_buffer w)"

definition BufferWrite :: "BufferedLogWriter \<Rightarrow> bytes \<Rightarrow> nat \<times> BufferedLogWriter" where
  "BufferWrite w data =
     (let n = (if \<not> CanBuffer w (length data) then LOG_BUFFER_SIZE - length (write_buffer w) else length data)
      in (n, w\<lparr>write_buffer := write_buffer w @ take n data\<rparr>))"

definition IsBufferFull :: "BufferedLogWriter \<Rightarrow> bool" where
  "IsBufferFull w \<longleftrightarrow> length (write_buffer w) = LOG_BUFFER_SIZE"

definition FlushBuffer :: "BufferedLogWriter \<Rightarrow> bytes \<Rightarrow> nat \<times> BufferedLogWriter \<times> bytes" where
  "FlushBuffer w out = (length (write_buffer w), w\<lparr>write_buffer := []\<rparr>, out @ write_buffer w)"

section \<open>BufferedLogReader\<close>

text \<open>
  \<open>log_open\<close> is \<open>in_ != -1\<close>, \<open>log_rest\<close> the file from the offset of the descriptor on, and
  \<open>read_buffer\<close> the filled part of \<open>buffer_\<close>. \<open>None\<close> is a read outside of the filled part, or the
  exception of \<open>RefillBuffer\<close>.
\<close>

record BufferedLogReader =
  log_open :: bool
  log_rest :: bytes
  read_head :: u32
  filled_size :: u32
  read_buffer :: bytes

definition open_reader :: "bytes \<Rightarrow> BufferedLogReader" where
  "open_reader contents =
     \<lparr>log_open = True, log_rest = contents, read_head = 0, filled_size = 0, read_buffer = []\<rparr>"

definition HasMore :: "BufferedLogReader \<Rightarrow> bool" where
  "HasMore r \<longleftrightarrow> filled_size r > read_head r \<or> log_open r"

definition ReadFromBuffer :: "BufferedLogReader \<Rightarrow> u32 \<Rightarrow> (bytes \<times> BufferedLogReader) option" where
  "ReadFromBuffer r n =
     (if unat (read_head r) + unat n \<le> unat (filled_size r)
      then Some (take (unat n) (drop (unat (read_head r)) (read_buffer r)), r\<lparr>read_head := read_head r + n\<rparr>)
      else None)"

text \<open>A refill reads as much as the file has; that the read call itself fails is not represented.\<close>

definition RefillBuffer :: "BufferedLogReader \<Rightarrow> BufferedLogReader option" where
  "RefillBuffer r =
     (if \<not> log_open r then None
      else let got = take LOG_BUFFER_SIZE (log_rest r)
           in Some (r\<lparr>read_head := 0, filled_size := of_nat (length got), read_buffer := got,
                      log_rest := drop LOG_BUFFER_SIZE (log_rest r),
                      log_open := \<not> length got < LOG_BUFFER_SIZE\<rparr>))"

text \<open>What a reader still can get from its file decreases with every refill.\<close>

definition file_left :: "BufferedLogReader \<Rightarrow> nat" where
  "file_left r = (if log_open r then Suc (length (log_rest r)) else 0)"

lemma RefillBuffer_left: "RefillBuffer r = Some r1 \<Longrightarrow> file_left r1 < file_left r"
  by (auto simp: RefillBuffer_def file_left_def LOG_BUFFER_SIZE_def Let_def split: if_splits)

lemma ReadFromBuffer_left: "ReadFromBuffer r n = Some (bs, r1) \<Longrightarrow> file_left r1 = file_left r"
  by (auto simp: ReadFromBuffer_def file_left_def split: if_splits)

lemma bytes_left_less:
  fixes total bytes_read n :: u32
  assumes "bytes_read < total" and "n \<le> total - bytes_read" and "n \<noteq> 0"
  shows "unat total - unat (bytes_read + n) < unat total - unat bytes_read" and "unat (bytes_read + n) = unat bytes_read + unat n"
    and "unat bytes_read + unat n \<le> unat total"
proof -
  have b: "unat bytes_read < unat total" using assms(1) by (simp add: word_less_nat_alt)
  have n: "unat n \<le> unat total - unat bytes_read" "0 < unat n"
    using assms b by (simp_all add: word_le_nat_alt unat_sub_if' unat_gt_0)
  have "unat total < 2 ^ 32" using unsigned_less [of total, where ?'a = nat] by simp
  then show u: "unat (bytes_read + n) = unat bytes_read + unat n" using b n by (simp add: unat_word_ariths)
  show "unat total - unat (bytes_read + n) < unat total - unat bytes_read" "unat bytes_read + unat n \<le> unat total"
    unfolding u using b n by linarith+
qed

function Read_loop :: "BufferedLogReader \<Rightarrow> u32 \<Rightarrow> u32 \<Rightarrow> bytes \<Rightarrow> (bool \<times> bytes \<times> BufferedLogReader) option" where
  "Read_loop r n bytes_read target =
     (if bytes_read < n then
        if \<not> HasMore r then Some (False, target, r)
        else let read_size = min (n - bytes_read) (filled_size r - read_head r)
             in case (if read_size = 0 then RefillBuffer r else Some r) of
                  None \<Rightarrow> None
                | Some r1 \<Rightarrow>
                    (case ReadFromBuffer r1 read_size of
                       None \<Rightarrow> None
                     | Some (bs, r2) \<Rightarrow> Read_loop r2 n (bytes_read + read_size) (target @ bs))
      else Some (True, target, r))"
  by pat_completeness auto
termination
proof (relation "measures [\<lambda>(r, n, bytes_read, target). file_left r, \<lambda>(r, n, bytes_read, target). unat n - unat bytes_read]", simp, goal_cases)
  case (1 r n bytes_read target read_size r1 p bs r2)
  have l: "file_left r2 = file_left r1" using 1(5,6) ReadFromBuffer_left by blast
  show ?case
  proof (cases "read_size = 0")
    case True
    then show ?thesis using RefillBuffer_left [of r r1] 1(4) l by simp
  next
    case False
    then show ?thesis using bytes_left_less(1) [OF 1(1), of read_size] 1(3,4) l by simp
  qed
qed

declare Read_loop.simps [simp del]

definition Read :: "BufferedLogReader \<Rightarrow> u32 \<Rightarrow> (bool \<times> bytes \<times> BufferedLogReader) option" where
  "Read r n =
     (if read_head r + n \<le> filled_size r
      then map_option (\<lambda>(bs, r'). (True, bs, r')) (ReadFromBuffer r n)
      else Read_loop r n 0 [])"


text \<open>The bytes that the reader has not handed out, and its states.\<close>

definition remaining :: "BufferedLogReader \<Rightarrow> bytes" where
  "remaining r = drop (unat (read_head r)) (read_buffer r) @ log_rest r"

definition reader_ok :: "BufferedLogReader \<Rightarrow> bool" where
  "reader_ok r \<longleftrightarrow> length (read_buffer r) = unat (filled_size r) \<and> unat (filled_size r) \<le> LOG_BUFFER_SIZE
     \<and> read_head r \<le> filled_size r \<and> (\<not> log_open r \<longrightarrow> log_rest r = [])"

text \<open>A reader that is at a multiple of the buffer size from the end of its file.\<close>

definition aligned :: "BufferedLogReader \<Rightarrow> bool" where
  "aligned r \<longleftrightarrow> log_open r \<and> LOG_BUFFER_SIZE dvd length (log_rest r)"

lemma reader_ok_open [simp]: "reader_ok (open_reader contents)" "remaining (open_reader contents) = contents"
  by (simp_all add: reader_ok_def open_reader_def remaining_def)

lemma reader_okD:
  assumes "reader_ok r"
  shows "unat (read_head r) \<le> unat (filled_size r)" "unat (filled_size r) \<le> 4096" "length (read_buffer r) = unat (filled_size r)"
    and "unat (filled_size r - read_head r) = length (drop (unat (read_head r)) (read_buffer r))"
    and "\<not> HasMore r \<Longrightarrow> remaining r = []"
  using assms by (auto simp: reader_ok_def HasMore_def remaining_def LOG_BUFFER_SIZE_def word_le_nat_alt unat_sub_if' not_less)

lemma ReadFromBuffer_ok:
  assumes "reader_ok r" and "unat n \<le> unat (filled_size r) - unat (read_head r)"
  shows "\<exists>r1. ReadFromBuffer r n = Some (take (unat n) (remaining r), r1) \<and> reader_ok r1
    \<and> remaining r1 = drop (unat n) (remaining r) \<and> aligned r1 = aligned r"
proof -
  note R = reader_okD [OF assms(1)]
  have h: "unat (read_head r + n) = unat (read_head r) + unat n"
    using R(1,2) assms(2) by (simp add: unat_word_ariths)
  have le: "unat (read_head r) + unat n \<le> unat (filled_size r)" using R(1) assms(2) by simp
  then show ?thesis
    using assms R h by (auto simp: ReadFromBuffer_def reader_ok_def remaining_def aligned_def word_le_nat_alt add.commute)
qed

lemma RefillBuffer_ok:
  assumes "reader_ok r" and "log_open r" and "filled_size r = read_head r"
  shows "\<exists>r1. RefillBuffer r = Some r1 \<and> reader_ok r1 \<and> remaining r1 = remaining r
    \<and> (aligned r \<and> remaining r \<noteq> [] \<longrightarrow> aligned r1)"
proof -
  have "unat (of_nat (length (take LOG_BUFFER_SIZE (log_rest r))) :: u32) = length (take LOG_BUFFER_SIZE (log_rest r))"
    by (simp add: LOG_BUFFER_SIZE_def unat_of_nat take_bit_nat_eq_self)
  then show ?thesis
    using assms by (auto simp: RefillBuffer_def reader_ok_def remaining_def aligned_def Let_def dvd_imp_le)
qed

text \<open>What a read of \<open>n\<close> bytes gives, in terms of the bytes that remain.\<close>

definition read_result :: "bytes \<Rightarrow> BufferedLogReader \<Rightarrow> nat \<Rightarrow> (bool \<times> bytes \<times> BufferedLogReader) option \<Rightarrow> bool" where
  "read_result target r n res \<longleftrightarrow>
     (\<exists>r1. reader_ok r1 \<and> res = Some (n \<le> length (remaining r), target @ take n (remaining r), r1)
       \<and> remaining r1 = drop n (remaining r) \<and> (length (remaining r) < n \<longrightarrow> \<not> HasMore r1)
       \<and> (aligned r \<and> n \<le> length (remaining r) \<longrightarrow> aligned r1))"

lemma read_result_step:
  assumes "read_result (target @ take k (remaining r)) r1 (m - k) res" and "remaining r1 = drop k (remaining r)"
    and "k \<le> m" and "k \<le> length (remaining r)" and "aligned r \<and> m \<le> length (remaining r) \<longrightarrow> aligned r1"
  shows "read_result target r m res"
proof -
  let ?x = "remaining r"
  have t: "take k ?x @ take (m - k) (drop k ?x) = take m ?x" by (metis take_add le_add_diff_inverse assms(3))
  obtain r2 where r2: "reader_ok r2" "res = Some (m - k \<le> length (drop k ?x), (target @ take k ?x) @ take (m - k) (drop k ?x), r2)"
      "remaining r2 = drop (m - k) (drop k ?x)" "length (drop k ?x) < m - k \<longrightarrow> \<not> HasMore r2"
      "aligned r1 \<and> m - k \<le> length (drop k ?x) \<longrightarrow> aligned r2"
    using assms(1,2) by (auto simp: read_result_def)
  have "m - k \<le> length (drop k ?x) \<longleftrightarrow> m \<le> length ?x" "length (drop k ?x) < m - k \<longleftrightarrow> length ?x < m"
    using assms(3,4) by auto
  moreover have "drop (m - k) (drop k ?x) = drop m ?x" using assms(3) by simp
  ultimately show ?thesis
    using r2 t assms(5) unfolding read_result_def by (intro exI [of _ r2]) (simp only: append_assoc, blast)
qed

lemma Read_loop_result:
  assumes "reader_ok r" and "bytes_read \<le> n"
  shows "read_result target r (unat n - unat bytes_read) (Read_loop r n bytes_read target)"
  using assms
proof (induction r n bytes_read target rule: Read_loop.induct)
  case (1 r n bytes_read target)
  note R = reader_okD [OF 1(2)]
  consider "\<not> bytes_read < n" | "bytes_read < n" "\<not> HasMore r" | "bytes_read < n" "HasMore r" by blast
  then show ?case
  proof cases
    case 1
    then show ?thesis using \<open>reader_ok r\<close> by (auto simp: Read_loop.simps read_result_def word_less_nat_alt)
  next
    case c: 2
    then have "0 < unat n - unat bytes_read" by (simp add: word_less_nat_alt)
    then show ?thesis using 1(2) R(5) c by (auto simp: Read_loop.simps [of r] read_result_def)
  next
    case c: 3
    define k where "k = min (n - bytes_read) (filled_size r - read_head r)"
    have nb: "n - bytes_read \<noteq> 0" using c(1) by auto
    have kb: "unat k \<le> unat (filled_size r - read_head r)" by (simp add: k_def word_le_nat_alt min_def)
    obtain r1 where r1: "(if k = 0 then RefillBuffer r else Some r) = Some r1" "reader_ok r1" "remaining r1 = remaining r"
      and k1: "unat k \<le> unat (filled_size r1) - unat (read_head r1)"
      and al: "aligned r \<and> unat n - unat bytes_read \<le> length (remaining r) \<longrightarrow> aligned r1"
    proof (cases "k = 0")
      case True
      then have e: "filled_size r = read_head r" using nb by (auto simp: k_def min_def split: if_splits)
      then have "log_open r" using c(2) by (simp add: HasMore_def)
      have "0 < unat n - unat bytes_read" using c(1) by (simp add: word_less_nat_alt)
      with RefillBuffer_ok [OF 1(2) \<open>log_open r\<close> e] show ?thesis using that True by fastforce
    next
      case False
      then show ?thesis using that [of r] 1(2) kb R(1,3,4) by simp
    qed
    obtain r2 where r2: "ReadFromBuffer r1 k = Some (take (unat k) (remaining r), r2)" "reader_ok r2"
        "remaining r2 = drop (unat k) (remaining r)" "aligned r2 = aligned r1"
      using ReadFromBuffer_ok [OF r1(2) k1] r1(3) by auto
    have step: "Read_loop r n bytes_read target = Read_loop r2 n (bytes_read + k) (target @ take (unat k) (remaining r))"
      using c r1(1) r2(1) by (subst Read_loop.simps) (simp add: Let_def flip: k_def)
    have add: "unat (bytes_read + k) = unat bytes_read + unat k" "unat bytes_read + unat k \<le> unat n"
    proof -
      have "k \<le> n - bytes_read" by (simp add: k_def)
      from bytes_left_less(2,3) [OF c(1) this] c(1)
      show "unat (bytes_read + k) = unat bytes_read + unat k" "unat bytes_read + unat k \<le> unat n"
        by (cases "k = 0"; simp add: word_less_nat_alt)+
    qed
    have "read_result (target @ take (unat k) (remaining r)) r2 (unat n - unat (bytes_read + k)) (Read_loop r2 n (bytes_read + k) (target @ take (unat k) (remaining r)))"
      by (rule 1(1) [OF c(1) _ k_def r1(1) r2(1) refl]) (use c r2 add in \<open>simp_all add: word_le_nat_alt\<close>)
    then have res: "read_result (target @ take (unat k) (remaining r)) r2 (unat n - unat bytes_read - unat k) (Read_loop r n bytes_read target)"
      by (simp add: step add(1))
    have "unat k \<le> length (remaining r1)" using k1 reader_okD(3) [OF r1(2)] by (simp add: remaining_def)
    then show ?thesis using add(2) r1(3) r2(4) al by (intro read_result_step [OF res r2(3)]) simp_all
  qed
qed


lemma Read_result:
  assumes "reader_ok r" and "unat n < 2 ^ 32 - LOG_BUFFER_SIZE"
  shows "read_result [] r (unat n) (Read r n)"
proof -
  note R = reader_okD [OF assms(1)]
  have h: "unat (read_head r + n) = unat (read_head r) + unat n"
    using R(1,2) assms(2) by (simp add: unat_word_ariths LOG_BUFFER_SIZE_def)
  show ?thesis
  proof (cases "read_head r + n \<le> filled_size r")
    case True
    then have le: "unat n \<le> unat (filled_size r) - unat (read_head r)" using h by (simp add: word_le_nat_alt)
    then have "unat n \<le> length (remaining r)" using R(3) by (simp add: remaining_def)
    then show ?thesis using ReadFromBuffer_ok [OF assms(1) le] True by (auto simp: Read_def read_result_def)
  next
    case False
    then show ?thesis using Read_loop_result [OF assms(1), of 0 n "[]"] by (simp add: Read_def)
  qed
qed


section \<open>Properties\<close>

lemma transfers_le_transferred: "progress cs \<Longrightarrow> transfers cs \<le> transferred cs"
proof (induction cs)
  case (Cons c cs)
  then show ?case by (cases c) (auto simp: progress_def transfers_def)
qed (simp add: transfers_def)

text \<open>
  C25. The loops around the system calls transfer everything. Whatever number of bytes each call
  transfers and however often calls are interrupted, once as many calls as there are bytes have gone
  through, \<open>WriteFully\<close> has returned and appended exactly its buffer, and \<open>ReadFully\<close> has returned
  with the first bytes of the file, as many as asked for or as there are.
\<close>

theorem posix_loops_transfer_all:
  assumes "no_error cs" and "progress cs" and "nbyte \<le> transfers cs" and "length buf \<le> nbyte"
  shows "WriteFully cs buf 0 out = Some (Inr (out @ buf))
    \<and> ReadFully cs nbyte [] rest = Some (Inr (take nbyte rest, drop nbyte rest))"
proof -
  have "length buf \<le> 0 + transferred cs" using transfers_le_transferred [OF assms(2)] assms(3,4) by simp
  then obtain out1 where w: "WriteFully cs buf 0 out = Some (Inr out1)" using WriteFully_returns [OF assms(1)] by blast
  then have "out1 = out @ buf" using WriteFully_result [OF w] by simp
  then show ?thesis using w ReadFully_returns [OF assms(1,2), of nbyte "[]" rest] assms(3) by simp
qed

theorem posix_loops_transfer_all_witness:
  "WriteFully [Transferred 1, Interrupted, Transferred 5] [7, 8] 0 [1] = Some (Inr [1, 7, 8])
   \<and> ReadFully [Transferred 1, Interrupted, Transferred 5] 2 [] [3, 4, 5] = Some (Inr ([3, 4], [5]))"
  using posix_loops_transfer_all [of "[Transferred 1, Interrupted, Transferred 5]" 2 "[7, 8]" "[1]" "[3, 4, 5]"]
  by (simp add: no_error_def progress_def transfers_def)

text \<open>Several reads one after the other; a read that fails ends the sequence.\<close>

fun Read_seq :: "BufferedLogReader \<Rightarrow> u32 list \<Rightarrow> (bytes list \<times> BufferedLogReader) option" where
  "Read_seq r [] = Some ([], r)"
| "Read_seq r (n # ns) =
     (case Read r n of
        Some (True, bs, r') \<Rightarrow> map_option (\<lambda>(bss, r''). (bs # bss, r'')) (Read_seq r' ns)
      | _ \<Rightarrow> None)"

lemma Read_seq_result:
  assumes "reader_ok r" and "\<forall>n \<in> set ns. unat n < 2 ^ 32 - LOG_BUFFER_SIZE" and "sum_list (map unat ns) \<le> length (remaining r)"
  shows "\<exists>bss r1. Read_seq r ns = Some (bss, r1) \<and> map length bss = map unat ns
    \<and> remaining r = concat bss @ remaining r1 \<and> reader_ok r1 \<and> (aligned r \<longrightarrow> aligned r1)"
  using assms
proof (induction ns arbitrary: r)
  case (Cons n ns)
  obtain r1 where r1: "reader_ok r1" "Read r n = Some (True, take (unat n) (remaining r), r1)"
      "remaining r1 = drop (unat n) (remaining r)" "aligned r \<longrightarrow> aligned r1"
    using Read_result [OF Cons.prems(1), of n] Cons.prems(2,3) by (auto simp: read_result_def)
  have "sum_list (map unat ns) \<le> length (remaining r1)" using Cons.prems(3) r1(3) by simp
  from Cons.IH [OF r1(1) _ this] Cons.prems(2) obtain bss r2 where r2: "Read_seq r1 ns = Some (bss, r2)"
      "map length bss = map unat ns" "remaining r1 = concat bss @ remaining r2" "reader_ok r2" "aligned r1 \<longrightarrow> aligned r2"
    by auto
  have "remaining r = take (unat n) (remaining r) @ concat bss @ remaining r2"
    using r1(3) r2(3) by (metis append_take_drop_id)
  then show ?case using Cons.prems(3) r1 r2 by (auto simp: min_absorb2)
qed simp

text \<open>
  C24. The reader of the log hands out the bytes of the file. Reads of any sizes (below the point where
  the 32-bit test of \<open>Read\<close> would wrap) that the file can satisfy all succeed, across any number of
  refills, and return consecutive pieces of the file of the requested lengths.
\<close>

theorem reader_returns_file:
  assumes "\<forall>n \<in> set ns. unat n < 2 ^ 32 - LOG_BUFFER_SIZE" and "sum_list (map unat ns) \<le> length contents"
  shows "\<exists>bss r. Read_seq (open_reader contents) ns = Some (bss, r)
    \<and> map length bss = map unat ns \<and> concat bss = take (sum_list (map unat ns)) contents"
proof -
  have "sum_list (map unat ns) \<le> length (remaining (open_reader contents))" using assms(2) by simp
  from Read_seq_result [OF reader_ok_open(1) assms(1) this] obtain bss r where r:
      "Read_seq (open_reader contents) ns = Some (bss, r)" "map length bss = map unat ns" "contents = concat bss @ remaining r"
    by auto
  have "length (concat bss) = sum_list (map unat ns)" using r(2) by (simp add: length_concat)
  then have "concat bss = take (sum_list (map unat ns)) contents" using r(3) by simp
  then show ?thesis using r(1,2) by blast
qed

theorem reader_returns_file_witness:
  "\<exists>bss r. Read_seq (open_reader [1, 2, 3, 4, 5]) [2, 1] = Some (bss, r) \<and> map length bss = [2, 1] \<and> concat bss = [1, 2, 3]"
  using reader_returns_file [of "[2, 1]" "[1, 2, 3, 4, 5]"] by (simp add: LOG_BUFFER_SIZE_def)

text \<open>
  When the length of the file is a multiple of the buffer size and all of it has been read, \<open>HasMore\<close>
  still holds, although every further read fails.
\<close>

lemma HasMore_at_end_of_log:
  assumes "LOG_BUFFER_SIZE dvd length contents" and "\<forall>n \<in> set ns. unat n < 2 ^ 32 - LOG_BUFFER_SIZE"
    and "sum_list (map unat ns) = length contents" and "0 < unat n" and "unat n < 2 ^ 32 - LOG_BUFFER_SIZE"
  shows "\<exists>bss r r'. Read_seq (open_reader contents) ns = Some (bss, r) \<and> HasMore r \<and> Read r n = Some (False, [], r')"
proof -
  have "aligned (open_reader contents)" using assms(1) by (simp add: aligned_def open_reader_def)
  then obtain bss r where r: "Read_seq (open_reader contents) ns = Some (bss, r)" "map length bss = map unat ns"
      "contents = concat bss @ remaining r" "reader_ok r" "aligned r"
    using Read_seq_result [OF reader_ok_open(1) assms(2)] assms(3) by fastforce
  have "length (concat bss) = length contents" using r(2) assms(3) by (simp add: length_concat)
  then have "remaining r = []" using r(3) by (metis append_eq_conv_conj drop_all order_refl)
  then have "\<exists>r'. Read r n = Some (False, [], r')"
    using Read_result [OF r(4) assms(5)] assms(4) by (auto simp: read_result_def)
  then show ?thesis using r(1,5) by (auto simp: aligned_def HasMore_def)
qed

end
