(* ===== verification/StorageDefs.thy ===== *)
theory StorageDefs
  imports Prelude
begin

text \<open>
  \<^verbatim>\<open>storage/storage_defs.h\<close> and the varlen helpers of \<^verbatim>\<open>storage/storage_util.h\<close>:
  the packed \<open>TupleSlot\<close>, and \<open>VarlenEntry\<close> with its construction, comparison and array
  serialisation. A pointer is a \<^typ>\<open>u64\<close>; memory that a varlen buffer points into is a function
  from addresses to bytes.
\<close>

section \<open>TupleSlot\<close>

definition BLOCK_SIZE :: nat where
  "BLOCK_SIZE = 2 ^ 20"

type_synonym TupleSlot = u64

definition make_TupleSlot :: "u64 \<Rightarrow> u32 \<Rightarrow> TupleSlot" where
  "make_TupleSlot block offset = block OR ucast offset"

definition GetBlock :: "TupleSlot \<Rightarrow> u64" where
  "GetBlock slot = slot AND NOT (of_nat BLOCK_SIZE - 1)"

definition GetOffset :: "TupleSlot \<Rightarrow> u32" where
  "GetOffset slot = ucast (slot AND (of_nat BLOCK_SIZE - 1))"

text \<open>The two assertions of the constructor: an aligned block and an offset inside it.\<close>

definition slot_asserts :: "u64 \<Rightarrow> u32 \<Rightarrow> bool" where
  "slot_asserts block offset \<longleftrightarrow>
     (of_nat BLOCK_SIZE - 1) AND block = 0 \<and> unat offset < BLOCK_SIZE"

lemma block_mask: "(of_nat BLOCK_SIZE - 1 :: u64) = mask 20"
  by (simp add: BLOCK_SIZE_def mask_eq_exp_minus_1)

lemma bit_u32_small: "unat (x :: u32) < 2 ^ k \<Longrightarrow> bit x i \<Longrightarrow> i < k"
proof (rule ccontr)
  assume small: "unat x < 2 ^ k" and b: "bit x i" and "\<not> i < k"
  have "take_bit k (unat x) = unat x" using small by (simp add: take_bit_nat_eq_self_iff)
  moreover have "bit (unat x) i" using b by (simp add: bit_unsigned_iff bit_imp_le_length)
  ultimately show False using \<open>\<not> i < k\<close> by (metis bit_take_bit_iff)
qed

lemma slot_assertsD:
  assumes "slot_asserts block offset"
  shows "bit block i \<Longrightarrow> \<not> i < 20" and "bit offset j \<Longrightarrow> j < 20"
proof -
  have a: "mask 20 AND block = 0"
    using assms unfolding slot_asserts_def block_mask by simp
  show "bit block i \<Longrightarrow> \<not> i < 20"
    using arg_cong [OF a, of "\<lambda>w. bit w i"] bit_imp_le_length [of block i]
    by (cases "i < 20") (simp_all add: bit_and_iff bit_mask_iff)
  show "bit offset j \<Longrightarrow> j < 20"
    using assms bit_u32_small [of offset 20 j] by (simp add: slot_asserts_def BLOCK_SIZE_def)
qed

lemma GetBlock_make:
  assumes "slot_asserts block offset"
  shows "GetBlock (make_TupleSlot block offset) = block"
  unfolding GetBlock_def make_TupleSlot_def block_mask
  using slot_assertsD [OF assms]
  by (intro bit_word_eqI) (auto simp: bit_and_iff bit_or_iff bit_not_iff bit_mask_iff bit_unsigned_iff)

lemma GetOffset_make:
  assumes "slot_asserts block offset"
  shows "GetOffset (make_TupleSlot block offset) = offset"
  unfolding GetOffset_def make_TupleSlot_def block_mask
  using slot_assertsD [OF assms]
  by (intro bit_word_eqI) (auto simp: bit_and_iff bit_or_iff bit_not_iff bit_mask_iff bit_unsigned_iff)

lemma TupleSlot_eqI:
  assumes "GetBlock s = GetBlock t" and "GetOffset s = GetOffset t"
  shows "s = t"
proof (rule bit_word_eqI)
  fix i assume "i < LENGTH(64)"
  show "bit s i = bit t i"
  proof (cases "i < 20")
    case True
    then show ?thesis
      using arg_cong [OF assms(2), of "\<lambda>w. bit w i"] by (simp add: GetOffset_def block_mask bit_simps)
  next
    case False
    then show ?thesis
      using \<open>i < LENGTH(64)\<close> arg_cong [OF assms(1), of "\<lambda>w. bit w i"]
      by (simp add: GetBlock_def block_mask bit_simps)
  qed
qed

lemma GetOffset_less: "unat (GetOffset s) < BLOCK_SIZE"
proof -
  have "unat (s AND mask 20) < 2 ^ 20" by (simp add: unat_and_mask)
  then have "take_bit 32 (unat (s AND mask 20)) < 2 ^ 20"
    by (rule order.strict_trans1 [OF take_bit_nat_less_eq_self])
  then show ?thesis
    unfolding GetOffset_def block_mask by (simp add: BLOCK_SIZE_def unsigned_ucast_eq)
qed

section \<open>Raw memory of varlen buffers\<close>

type_synonym memory = "u64 \<Rightarrow> u8"

definition read_bytes :: "memory \<Rightarrow> u64 \<Rightarrow> nat \<Rightarrow> bytes" where
  "read_bytes mem p n = map (\<lambda>i. mem (p + of_nat i)) [0..<n]"

definition write_bytes :: "memory \<Rightarrow> u64 \<Rightarrow> bytes \<Rightarrow> memory" where
  "write_bytes mem p bs = (\<lambda>a. if unat (a - p) < length bs then bs ! unat (a - p) else mem a)"

lemma length_read_bytes [simp]: "length (read_bytes mem p n) = n"
  by (simp add: read_bytes_def)

lemma read_write_bytes:
  assumes "off + n \<le> length bs" and "length bs < 2 ^ 64"
  shows "read_bytes (write_bytes mem p bs) (p + of_nat off) n = take n (drop off bs)"
proof (rule nth_equalityI)
  show "length (read_bytes (write_bytes mem p bs) (p + of_nat off) n) = length (take n (drop off bs))"
    using assms by simp
next
  fix i assume "i < length (read_bytes (write_bytes mem p bs) (p + of_nat off) n)"
  then have i: "i < n" by simp
  have "unat (of_nat off + of_nat i :: u64) = off + i"
    using assms i by (simp flip: of_nat_add add: unat_of_nat take_bit_nat_eq_self)
  then show "read_bytes (write_bytes mem p bs) (p + of_nat off) n ! i = take n (drop off bs) ! i"
    using i assms by (simp add: read_bytes_def write_bytes_def)
qed

section \<open>VarlenEntry\<close>

text \<open>
  The 16 bytes of the class: the size word, whose sign bit marks a buffer that is not reclaimable,
  and 12 bytes that hold either the inlined value or a 4-byte prefix and the content pointer.
\<close>

record VarlenEntry =
  varlen_size :: u32
  varlen_tail :: bytes

definition InlineThreshold :: nat where
  "InlineThreshold = 12"

definition PrefixSize :: nat where
  "PrefixSize = 4"

definition Create :: "memory \<Rightarrow> u64 \<Rightarrow> u32 \<Rightarrow> bool \<Rightarrow> VarlenEntry" where
  "Create mem content sz reclaim =
     \<lparr>varlen_size = (if reclaim then sz else 0x80000000 OR sz),
      varlen_tail = read_bytes mem content PrefixSize @ le_bytes 8 (unat content)\<rparr>"

text \<open>\<open>junk\<close> is the uninitialised contents of the stack object.\<close>

definition CreateInline :: "bytes \<Rightarrow> bytes \<Rightarrow> u32 \<Rightarrow> VarlenEntry" where
  "CreateInline junk content sz =
     \<lparr>varlen_size = sz, varlen_tail = take (unat sz) content @ drop (unat sz) junk\<rparr>"

definition Size :: "VarlenEntry \<Rightarrow> u32" where
  "Size e = 0x7FFFFFFF AND varlen_size e"

definition IsInlined :: "VarlenEntry \<Rightarrow> bool" where
  "IsInlined e \<longleftrightarrow> unat (Size e) \<le> InlineThreshold"

definition NeedReclaim :: "VarlenEntry \<Rightarrow> bool" where
  "NeedReclaim e \<longleftrightarrow> sint (varlen_size e) > int InlineThreshold"

definition Prefix :: "VarlenEntry \<Rightarrow> bytes" where
  "Prefix e = take PrefixSize (varlen_tail e)"

definition varlen_content :: "VarlenEntry \<Rightarrow> u64" where
  "varlen_content e = of_nat (le_nat (drop 4 (varlen_tail e)))"

text \<open>\<open>n\<close> bytes from offset \<open>off\<close> of what \<open>Content()\<close> points to.\<close>

definition Content :: "memory \<Rightarrow> VarlenEntry \<Rightarrow> nat \<Rightarrow> nat \<Rightarrow> bytes" where
  "Content mem e off n =
     (if IsInlined e then take n (drop off (varlen_tail e))
      else read_bytes mem (varlen_content e + of_nat off) n)"

definition StringView :: "memory \<Rightarrow> VarlenEntry \<Rightarrow> bytes" where
  "StringView mem e = Content mem e 0 (unat (Size e))"

definition VarlenContentDeepEqual :: "memory \<Rightarrow> VarlenEntry \<Rightarrow> VarlenEntry \<Rightarrow> bool" where
  "VarlenContentDeepEqual mem lhs rhs =
     (if Size lhs \<noteq> Size rhs then False
      else memcmp (Content mem lhs 0 (unat (Size lhs))) (Content mem rhs 0 (unat (Size lhs))) = 0)"

definition VarlenContentCompare :: "memory \<Rightarrow> VarlenEntry \<Rightarrow> VarlenEntry \<Rightarrow> bool" where
  "VarlenContentCompare mem lhs rhs =
     (let n = min (unat (Size lhs)) (unat (Size rhs));
          res = memcmp (Content mem lhs 0 n) (Content mem rhs 0 n)
      in if res = 0 then Size lhs < Size rhs else res < 0)"

section \<open>Construction from strings and arrays of strings\<close>

text \<open>\<open>p\<close> is the address that \<open>AllocateAligned\<close> returns for the buffer.\<close>

definition CreateVarlen :: "u64 \<Rightarrow> bytes \<Rightarrow> memory \<Rightarrow> bytes \<Rightarrow> memory \<times> VarlenEntry" where
  "CreateVarlen p junk mem str =
     (if length str > InlineThreshold then
        (let mem' = write_bytes mem p str in (mem', Create mem' p (of_nat (length str)) True))
      else (mem, CreateInline junk str (of_nat (length str))))"

definition serialize_strings :: "bytes list \<Rightarrow> bytes" where
  "serialize_strings vec =
     le_bytes 8 (length vec) @ concat (map (\<lambda>elem. le_bytes 8 (length elem) @ elem) vec)"

definition CreateVarlen_strings ::
  "u64 \<Rightarrow> bytes \<Rightarrow> memory \<Rightarrow> bytes list \<Rightarrow> memory \<times> VarlenEntry" where
  "CreateVarlen_strings p junk mem vec =
     (let total_size = 8 + sum_list (map (\<lambda>elem. 8 + length elem) vec);
          mem' = write_bytes mem p (serialize_strings vec)
      in if total_size > InlineThreshold then (mem', Create mem' p (of_nat total_size) True)
         else (mem', CreateInline junk (serialize_strings vec) (of_nat total_size)))"

text \<open>The loop of \<open>DeserializeArrayVarlen\<close>; \<open>payload\<close> is an offset from \<open>Content()\<close>.\<close>

function deserialize_loop ::
  "memory \<Rightarrow> VarlenEntry \<Rightarrow> nat \<Rightarrow> nat \<Rightarrow> nat \<Rightarrow> nat \<Rightarrow> bytes list \<Rightarrow> bytes list" where
  "deserialize_loop mem e to_read num_elements num_read payload vec =
     (if num_read < to_read \<and> length vec < num_elements then
        (let len = le_nat (Content mem e payload 8)
         in deserialize_loop mem e to_read num_elements ((num_read + 8 + len) mod 2 ^ 32)
              (payload + 8 + len) (vec @ [Content mem e (payload + 8) len]))
      else vec)"
  by pat_completeness auto
termination
  by (relation "measure (\<lambda>(mem, e, to_read, num_elements, num_read, payload, vec).
        num_elements - length vec)") auto

declare deserialize_loop.simps [simp del]

definition DeserializeArrayVarlen :: "memory \<Rightarrow> VarlenEntry \<Rightarrow> bytes list" where
  "DeserializeArrayVarlen mem e =
     deserialize_loop mem e (unat (Size e)) (le_nat (Content mem e 0 8)) 0 8 []"

section \<open>Varlen entries: sizes, reclaim flag, contents\<close>

lemma unat_Size: "unat (Size e) = unat (varlen_size e) mod 2 ^ 31"
proof -
  have "(0x7FFFFFFF :: u32) = mask 31" by (simp add: mask_eq_exp_minus_1)
  then have "Size e = varlen_size e AND mask 31" by (simp only: Size_def and.commute)
  then show ?thesis by (simp only: unat_and_mask)
qed

lemma unat_size_no_reclaim:
  assumes "unat (sz :: u32) < 2 ^ 31"
  shows "unat (0x80000000 OR sz) = 2 ^ 31 + unat sz"
proof -
  have top: "(0x80000000 :: u32) = 2 ^ 31" by simp
  have "(2 ^ 31 :: u32) AND sz = 0"
    using bit_u32_small [OF assms] by (intro bit_word_eqI) (auto simp only: bit_and_iff bit_exp_iff bit_0_eq)
  then have "(2 ^ 31 :: u32) OR sz = 2 ^ 31 + sz"
    by (simp add: disjunctive_add_eq_or)
  then show ?thesis unfolding top using assms by (simp add: unat_word_ariths)
qed

lemma sint_u32: "sint (w :: u32) = (if unat w < 2 ^ 31 then int (unat w) else int (unat w) - 2 ^ 32)"
proof -
  have w: "unat w < 2 ^ 32" using unsigned_less [of w, where ?'a = nat] by simp
  have s: "sint w = signed_take_bit 31 (int (unat w))" by (simp add: sint_uint)
  show ?thesis
  proof (cases "unat w < 2 ^ 31")
    case True
    then show ?thesis unfolding s by (simp add: signed_take_bit_int_eq_self del: of_nat_unat)
  next
    case False
    have "(int (unat w) + 2 ^ 31) mod 2 ^ 32 = int (unat w) - 2 ^ 31"
      by (rule int_mod_pos_eq [where q = 1]) (use w False in \<open>simp_all del: of_nat_unat\<close>)
    then show ?thesis
      using False unfolding s signed_take_bit_eq_take_bit_shift by (simp add: take_bit_eq_mod del: of_nat_unat)
  qed
qed

lemma Create_simps:
  assumes "InlineThreshold < unat sz" and "unat sz < 2 ^ 31"
  shows "Size (Create mem p sz r) = sz"
    and "\<not> IsInlined (Create mem p sz r)"
    and "NeedReclaim (Create mem p sz r) = r"
    and "varlen_content (Create mem p sz r) = p"
proof -
  have "unat (Size (Create mem p sz r)) = unat sz"
    using assms by (simp only: unat_Size Create_def) (simp add: unat_size_no_reclaim)
  then show "Size (Create mem p sz r) = sz" by (simp add: word_eq_iff_unsigned [where ?'a = nat])
  then show "\<not> IsInlined (Create mem p sz r)" using assms by (simp add: IsInlined_def)
  show "NeedReclaim (Create mem p sz r) = r"
    using assms unat_size_no_reclaim [OF assms(2)]
    by (cases r) (simp_all add: NeedReclaim_def Create_def sint_u32 InlineThreshold_def del: of_nat_unat)
  show "varlen_content (Create mem p sz r) = p"
    using unsigned_less [of p, where ?'a = nat]
    by (simp add: varlen_content_def Create_def PrefixSize_def le_nat_le_bytes)
qed

lemma CreateInline_simps:
  assumes "unat sz \<le> InlineThreshold" and "unat sz \<le> length str"
  shows "unat (Size (CreateInline junk str sz)) = unat sz"
    and "IsInlined (CreateInline junk str sz)"
    and "\<not> NeedReclaim (CreateInline junk str sz)"
    and "StringView mem (CreateInline junk str sz) = take (unat sz) str"
proof -
  show sz: "unat (Size (CreateInline junk str sz)) = unat sz"
    using assms by (simp only: unat_Size CreateInline_def) (simp add: InlineThreshold_def)
  then show inl: "IsInlined (CreateInline junk str sz)" using assms by (simp add: IsInlined_def)
  show "\<not> NeedReclaim (CreateInline junk str sz)"
    using assms by (simp add: NeedReclaim_def CreateInline_def sint_u32 InlineThreshold_def del: of_nat_unat)
  show "StringView mem (CreateInline junk str sz) = take (unat sz) str"
    using assms inl sz by (simp add: StringView_def Content_def) (simp add: CreateInline_def)
qed

lemma unat_of_nat_u32: "n < 2 ^ 32 \<Longrightarrow> unat (of_nat n :: u32) = n"
  by (simp add: unat_of_nat take_bit_nat_eq_self)

text \<open>
  C33. Turning a string into a varlen entry keeps it: the view of the entry is the string, whether
  it is inlined or stored in a buffer, and exactly the buffered ones must be reclaimed.
\<close>

theorem CreateVarlen_roundtrip:
  assumes "length str < 2 ^ 31" and "CreateVarlen p junk mem str = (mem', e)"
  shows "StringView mem' e = str \<and> NeedReclaim e = (length str > InlineThreshold) \<and>
    IsInlined e = (length str \<le> InlineThreshold)"
proof (cases "length str > InlineThreshold")
  case True
  let ?sz = "of_nat (length str) :: u32"
  have e: "mem' = write_bytes mem p str" "e = Create mem' p ?sz True"
    using True assms(2) by (auto simp: CreateVarlen_def Let_def)
  have sz: "unat ?sz = length str" using assms(1) by (simp add: unat_of_nat_u32)
  note c = Create_simps [of ?sz, unfolded sz, OF True assms(1), where mem = mem' and p = p and r = True]
  have "read_bytes mem' (p + of_nat 0) (length str) = take (length str) (drop 0 str)"
    unfolding e(1) using assms(1) by (intro read_write_bytes) simp_all
  then show ?thesis using True c sz by (simp add: e(2) StringView_def Content_def)
next
  case False
  let ?sz = "of_nat (length str) :: u32"
  have sz: "unat ?sz = length str" using assms(1) by (simp add: unat_of_nat_u32)
  then show ?thesis
    using False assms(2) CreateInline_simps [of ?sz str] by (auto simp: CreateVarlen_def)
qed

theorem CreateVarlen_roundtrip_witness:
  "StringView (fst (CreateVarlen 4096 [] (\<lambda>_. 0) [1, 2, 3])) (snd (CreateVarlen 4096 [] (\<lambda>_. 0) [1, 2, 3]))
     = [1, 2, 3]"
  using CreateVarlen_roundtrip [of "[1, 2, 3]" 4096 "[]" "\<lambda>_. 0"] by (simp add: prod_eq_iff)

lemma length_Content:
  assumes "length (varlen_tail e) = 12" and "n \<le> unat (Size e)"
  shows "length (Content mem e 0 n) = n"
  using assms by (auto simp: Content_def IsInlined_def InlineThreshold_def)

lemma take_Content:
  assumes "n \<le> unat (Size e)"
  shows "Content mem e 0 n = take n (StringView mem e)"
  using assms by (auto simp: StringView_def Content_def read_bytes_def take_map min_def)

text \<open>
  C34. The ordering of varlen entries is the lexicographic order of their contents as byte strings,
  and deep equality is equality of the contents.
\<close>

theorem VarlenContentCompare_lexicographic:
  assumes "length (varlen_tail l) = 12" and "length (varlen_tail r) = 12"
  shows "VarlenContentCompare mem l r = bytes_less (StringView mem l) (StringView mem r) \<and>
    VarlenContentDeepEqual mem l r = (StringView mem l = StringView mem r)"
proof -
  have len: "length (StringView mem l) = unat (Size l)" "length (StringView mem r) = unat (Size r)"
    using assms by (simp_all add: StringView_def length_Content)
  have "VarlenContentCompare mem l r = bytes_less (StringView mem l) (StringView mem r)"
    unfolding bytes_less_prefix_length VarlenContentCompare_def
    by (simp add: len take_Content Let_def word_less_nat_alt)
  moreover have "VarlenContentDeepEqual mem l r = (StringView mem l = StringView mem r)"
  proof (cases "Size l = Size r")
    case True
    then show ?thesis
      using len by (simp add: VarlenContentDeepEqual_def take_Content memcmp_eq_0_iff)
  next
    case False
    then show ?thesis using len by (auto simp: VarlenContentDeepEqual_def word_eq_iff_unsigned [where ?'a = nat])
  qed
  ultimately show ?thesis by simp
qed

theorem VarlenContentCompare_lexicographic_witness:
  "VarlenContentCompare (\<lambda>_. 0) (CreateInline (replicate 12 0) [1] 1) (CreateInline (replicate 12 0) [1, 2] 2)"
  using VarlenContentCompare_lexicographic
    [of "CreateInline (replicate 12 0) [1] 1" "CreateInline (replicate 12 0) [1, 2] 2" "\<lambda>_. 0"]
  by (simp add: CreateInline_simps InlineThreshold_def) (simp add: CreateInline_def)

section \<open>Arrays of strings\<close>

abbreviation string_body :: "bytes list \<Rightarrow> bytes" where
  "string_body xs \<equiv> concat (map (\<lambda>el. le_bytes 8 (length el) @ el) xs)"

lemma length_string_body: "length (string_body xs) = sum_list (map (\<lambda>el. 8 + length el) xs)"
  by (induction xs) auto

lemma length_serialize: "length (serialize_strings vec) = 8 + sum_list (map (\<lambda>el. 8 + length el) vec)"
  by (simp add: serialize_strings_def length_string_body)

lemma deserialize_loop_correct:
  assumes content: "\<And>off n. off + n \<le> length (serialize_strings vec) \<Longrightarrow>
      Content mem e off n = take n (drop off (serialize_strings vec))"
    and total: "length (serialize_strings vec) < 2 ^ 31"
  shows "vec = pre @ rest \<Longrightarrow>
    deserialize_loop mem e (length (serialize_strings vec)) (length vec)
      (length (string_body pre)) (8 + length (string_body pre)) pre = vec"
proof (induction rest arbitrary: pre)
  case Nil
  then show ?case by (subst deserialize_loop.simps) simp
next
  case (Cons el rest)
  let ?b = "length (string_body pre)"
  have ser: "serialize_strings vec =
      (le_bytes 8 (length vec) @ string_body pre) @ le_bytes 8 (length el) @ el @ string_body rest"
    by (simp add: serialize_strings_def Cons.prems)
  have lens: "8 + ?b + 8 + length el \<le> length (serialize_strings vec)"
    by (simp add: ser)
  have len8: "le_nat (Content mem e (8 + ?b) 8) = length el"
    using lens total by (simp add: content ser le_nat_le_bytes)
  have el: "Content mem e (8 + ?b + 8) (length el) = el"
    using lens by (simp add: content ser)
  have "?b < length (serialize_strings vec)" and "length pre < length vec"
    using lens by (simp_all add: Cons.prems)
  moreover have "(?b + 8 + length el) mod 2 ^ 32 = length (string_body (pre @ [el]))"
    using lens total by simp
  ultimately show ?case
    using Cons.IH [of "pre @ [el]"] Cons.prems
    by (subst deserialize_loop.simps) (simp add: len8 el [simplified] Let_def add.assoc add.commute add.left_commute)
qed

text \<open>
  C35. An array of strings survives serialisation into a varlen entry: reading the entry back with
  \<open>DeserializeArrayVarlen\<close> gives the same strings, as long as the buffer size fits the 31-bit
  size field.
\<close>

theorem DeserializeArrayVarlen_roundtrip:
  assumes "length (serialize_strings vec) < 2 ^ 31"
    and "CreateVarlen_strings p junk mem vec = (mem', e)"
  shows "DeserializeArrayVarlen mem' e = vec"
proof -
  let ?n = "length (serialize_strings vec)"
  let ?sz = "of_nat ?n :: u32"
  have sz: "unat ?sz = ?n" using assms(1) by (simp add: unat_of_nat_u32)
  show ?thesis
  proof (cases vec)
    case Nil
    then have "e = CreateInline junk (le_bytes 8 0) 8"
      using assms(2) by (simp add: CreateVarlen_strings_def InlineThreshold_def serialize_strings_def)
    moreover have "IsInlined e"
      using calculation by (simp add: CreateInline_simps InlineThreshold_def)
    ultimately have "Content mem' e 0 8 = le_bytes 8 0"
      by (simp add: Content_def) (simp add: CreateInline_def)
    then show ?thesis
      using Nil by (simp add: DeserializeArrayVarlen_def deserialize_loop.simps le_nat_le_bytes)
  next
    case (Cons a as)
    then have big: "InlineThreshold < ?n" by (simp add: length_serialize InlineThreshold_def)
    then have e: "mem' = write_bytes mem p (serialize_strings vec)" "e = Create mem' p ?sz True"
      using assms(2) by (auto simp: CreateVarlen_strings_def length_serialize Let_def)
    note c = Create_simps [of ?sz, unfolded sz, OF big assms(1), where mem = mem' and p = p and r = True]
    have content: "Content mem' e off k = take k (drop off (serialize_strings vec))"
      if "off + k \<le> ?n" for off k
      using c that assms(1) by (simp add: Content_def e(2)) (simp add: e(1) read_write_bytes)
    have count: "le_nat (Content mem' e 0 8) = length vec"
    proof -
      have "length vec \<le> ?n" by (induction vec) (simp_all add: length_serialize)
      then show ?thesis
        using assms(1) by (simp add: content length_serialize) (simp add: serialize_strings_def le_nat_le_bytes)
    qed
    have "unat (Size e) = ?n" using c sz by (simp add: e(2))
    then show ?thesis
      using deserialize_loop_correct [OF content assms(1), of "[]" vec] count
      by (simp add: DeserializeArrayVarlen_def)
  qed
qed

theorem DeserializeArrayVarlen_roundtrip_witness:
  "DeserializeArrayVarlen (fst (CreateVarlen_strings 64 [] (\<lambda>_. 0) [[7], []]))
     (snd (CreateVarlen_strings 64 [] (\<lambda>_. 0) [[7], []])) = [[7], []]"
  using DeserializeArrayVarlen_roundtrip [of "[[7], []]" 64 "[]" "\<lambda>_. 0"]
  by (simp add: prod_eq_iff length_serialize)

end
