(* ===== verification/Layout.thy ===== *)
theory Layout
  imports Bitmap StorageDefs "HOL-Library.Multiset"
begin

text \<open>
  Physical layout of blocks: the size arithmetic of \<^verbatim>\<open>storage/storage_util.cpp\<close>, the
  \<open>BlockLayout\<close> of \<^verbatim>\<open>storage/block_layout.cpp\<close>, the header size of
  \<^verbatim>\<open>storage/arrow_block_metadata.h\<close> and the column offsets that \<open>TupleAccessStrategy\<close>
  computes from them. All quantities keep their C++ widths; the lemmas in \<open>layout_simps\<close> give their
  values as natural numbers for layouts that a \<open>DataTable\<close> accepts.
\<close>

section \<open>Padding\<close>

definition PadUpToSize :: "u8 \<Rightarrow> u32 \<Rightarrow> u32" where
  "PadUpToSize word_size offset =
     (let mask = ucast word_size - 1 in (offset + mask) AND NOT mask)"

definition AlignedPtr :: "u8 \<Rightarrow> u64 \<Rightarrow> u64" where
  "AlignedPtr sz ptr = (let mask = ucast sz - 1 in (ptr + mask) AND NOT mask)"

section \<open>BlockLayout\<close>

definition VARLEN_COLUMN :: u16 where
  "VARLEN_COLUMN = 0x8010"

definition NUM_RESERVED_COLUMNS :: nat where
  "NUM_RESERVED_COLUMNS = 1"

definition MAX_COL :: nat where
  "MAX_COL = 12500"

definition AttrSizeBytes :: "u16 \<Rightarrow> u16" where
  "AttrSizeBytes sz = sz AND 0x7FFF"

record BlockLayout =
  attr_sizes :: "u16 list"
  varlens :: "u16 list"
  tuple_size :: u32
  static_header_size :: u32
  num_slots :: u32
  header_size :: u32

definition ComputeTupleSize :: "u16 list \<Rightarrow> u32" where
  "ComputeTupleSize sizes = fold (\<lambda>sz result. result + ucast (AttrSizeBytes sz)) sizes 0"

text \<open>\<open>sizeof(ArrowColumnInfo)\<close> is 40: a type tag, two lengths and three pointers, aligned to 8.\<close>

definition ArrowBlockMetadata_Size :: "u16 \<Rightarrow> u32" where
  "ArrowBlockMetadata_Size num_cols =
     PadUpToSize 8 (4 * (ucast num_cols + 1)) + ucast num_cols * 40"

definition ComputeStaticHeaderSize :: "u16 \<Rightarrow> u32" where
  "ComputeStaticHeaderSize num_cols =
     PadUpToSize 8 (8 + 2 + 2 + 4 + 8 + ArrowBlockMetadata_Size num_cols + ucast num_cols * 4)"

definition ComputeNumSlots :: "u16 \<Rightarrow> u32 \<Rightarrow> u32 \<Rightarrow> u32" where
  "ComputeNumSlots num_cols tuple_sz static_header_sz =
     (let bytes_available = of_nat BLOCK_SIZE - static_header_sz - 8 * 2 * ucast num_cols;
          bits_per_tuple = 8 * tuple_sz + ucast num_cols + 1
      in (8 * bytes_available) div bits_per_tuple)"

definition ComputeHeaderSize :: "u32 \<Rightarrow> u32 \<Rightarrow> u32" where
  "ComputeHeaderSize static_header_sz slots =
     PadUpToSize 8 (static_header_sz + of_nat (SizeInBytes (unat slots)))"

definition make_BlockLayout :: "u16 list \<Rightarrow> BlockLayout" where
  "make_BlockLayout sizes =
     (let num_cols = of_nat (length sizes);
          tuple_sz = ComputeTupleSize sizes;
          static_header_sz = ComputeStaticHeaderSize num_cols;
          slots = ComputeNumSlots num_cols tuple_sz static_header_sz;
          sorted_sizes = take NUM_RESERVED_COLUMNS sizes @ rev (sort (drop NUM_RESERVED_COLUMNS sizes))
      in \<lparr>attr_sizes = sorted_sizes,
          varlens = map of_nat (filter (\<lambda>i. sorted_sizes ! i = VARLEN_COLUMN) [0..<length sizes]),
          tuple_size = tuple_sz,
          static_header_size = static_header_sz,
          num_slots = slots,
          header_size = ComputeHeaderSize static_header_sz slots\<rparr>)"

definition NumColumns :: "BlockLayout \<Rightarrow> u16" where
  "NumColumns layout = of_nat (length (attr_sizes layout))"

text \<open>\<open>attr_sizes_.at\<close> throws out of range, which is \<open>None\<close>.\<close>

definition AttrSize :: "BlockLayout \<Rightarrow> u16 \<Rightarrow> u16 option" where
  "AttrSize layout col_id =
     (if unat col_id < length (attr_sizes layout)
      then Some (AttrSizeBytes (attr_sizes layout ! unat col_id)) else None)"

definition IsVarlen :: "BlockLayout \<Rightarrow> u16 \<Rightarrow> bool" where
  "IsVarlen layout col_id \<longleftrightarrow>
     unat col_id < length (attr_sizes layout) \<and> sint (attr_sizes layout ! unat col_id) < 0"

definition AllColumns :: "BlockLayout \<Rightarrow> u16 list" where
  "AllColumns layout = map of_nat [NUM_RESERVED_COLUMNS..<length (attr_sizes layout)]"

section \<open>Column offsets of TupleAccessStrategy\<close>

definition column_bytes :: "u32 \<Rightarrow> u16 \<Rightarrow> u32" where
  "column_bytes slots sz =
     PadUpToSize 8 (ucast (AttrSizeBytes sz) * slots
       + PadUpToSize 8 (of_nat (SizeInBytes (unat slots))))"

text \<open>The loop of the constructor: the offsets in order, and the offset after the last column.\<close>

fun layout_columns :: "u32 \<Rightarrow> u32 \<Rightarrow> u16 list \<Rightarrow> u32 list \<times> u32" where
  "layout_columns slots acc_offset [] = ([], acc_offset)"
| "layout_columns slots acc_offset (sz # szs) =
     (case layout_columns slots (acc_offset + column_bytes slots sz) szs of
        (offsets, end_offset) \<Rightarrow> (acc_offset # offsets, end_offset))"

definition column_offsets :: "BlockLayout \<Rightarrow> u32 list" where
  "column_offsets layout = fst (layout_columns (num_slots layout) (header_size layout) (attr_sizes layout))"

text \<open>
  Where the bitmap and the values of a column lie in a block at address \<open>block\<close>
  (\<open>MiniBlock::ColumnStart\<close>), and the address of the value in a slot.
\<close>

definition ColumnStart :: "BlockLayout \<Rightarrow> u64 \<Rightarrow> nat \<Rightarrow> u64" where
  "ColumnStart layout block i =
     AlignedPtr 8 (block + ucast (column_offsets layout ! i)
       + of_nat (SizeInBytes (unat (num_slots layout))))"

definition attr_address :: "BlockLayout \<Rightarrow> u64 \<Rightarrow> nat \<Rightarrow> u32 \<Rightarrow> u64" where
  "attr_address layout block i offset =
     ColumnStart layout block i + ucast (ucast (AttrSizeBytes (attr_sizes layout ! i)) * offset :: u32)"

section \<open>Values as natural numbers\<close>

definition pad :: "nat \<Rightarrow> nat \<Rightarrow> nat" where
  "pad w n = (n + w - 1) div w * w"

lemma unat_pad_mask:
  fixes x :: "'a::len word"
  assumes "unat x + 2 ^ k \<le> 2 ^ LENGTH('a)"
  shows "unat ((x + mask k) AND NOT (mask k)) = pad (2 ^ k) (unat x)"
proof -
  have "unat (mask k :: 'a word) = 2 ^ k - 1"
  proof -
    have "(2 :: nat) ^ k \<le> 2 ^ LENGTH('a)" using assms by linarith
    then have "k \<le> LENGTH('a)" by simp
    then have "unat (mask k :: 'a word) = mask k" by (intro bit_eqI) (auto simp: bit_simps)
    then show ?thesis by (simp add: mask_eq_exp_minus_1)
  qed
  moreover have "unat x + (2 ^ k - 1) < 2 ^ LENGTH('a)"
    using assms zero_less_power [of "2 :: nat" k] by linarith
  ultimately have "unat (x + mask k) = unat x + 2 ^ k - 1"
    by (simp add: unat_word_ariths)
  then show ?thesis by (simp add: unat_and_not_mask pad_def)
qed

lemma unat_add_exact:
  fixes x y :: "'a::len word"
  shows "unat x + unat y < 2 ^ LENGTH('a) \<Longrightarrow> unat (x + y) = unat x + unat y"
  by (simp add: unat_word_ariths)

lemma unat_mult_exact:
  fixes x y :: "'a::len word"
  shows "unat x * unat y < 2 ^ LENGTH('a) \<Longrightarrow> unat (x * y) = unat x * unat y"
  by (simp add: unat_word_ariths)

lemma unat_PadUpToSize_8:
  assumes "unat x + 8 \<le> 2 ^ 32"
  shows "unat (PadUpToSize 8 x) = pad 8 (unat x)"
proof -
  have "(ucast (8 :: u8) - 1 :: u32) = mask 3" by (simp add: mask_eq_exp_minus_1)
  then show ?thesis using unat_pad_mask [of x 3] assms by (simp add: PadUpToSize_def Let_def)
qed

lemma unat_AlignedPtr_8:
  assumes "unat x + 8 \<le> 2 ^ 64"
  shows "unat (AlignedPtr 8 x) = pad 8 (unat x)"
proof -
  have "(ucast (8 :: u8) - 1 :: u64) = mask 3" by (simp add: mask_eq_exp_minus_1)
  then show ?thesis using unat_pad_mask [of x 3] assms by (simp add: AlignedPtr_def Let_def)
qed

lemma pad8_bounds: "n \<le> pad 8 n" "pad 8 n \<le> n + 7" "8 dvd pad 8 n"
proof -
  have "n + 7 = 8 * ((n + 7) div 8) + (n + 7) mod 8" and "(n + 7) mod 8 < 8" by simp_all
  then show "n \<le> pad 8 n" and "pad 8 n \<le> n + 7" unfolding pad_def by linarith+
  show "8 dvd pad 8 n" by (simp add: pad_def)
qed

lemma pad8_add_dvd: "8 dvd m \<Longrightarrow> pad 8 (m + n) = m + pad 8 n"
proof (elim dvdE)
  fix k assume m: "m = 8 * k"
  have "m + n + 8 - 1 = (n + 7) + 8 * k" by (simp add: m)
  then show "pad 8 (m + n) = m + pad 8 n" by (simp only: pad_def div_mult_self2) (simp add: m)
qed

lemma pad8_dvd: "8 dvd n \<Longrightarrow> pad 8 n = n"
  using pad8_add_dvd [of n 0] by (simp add: pad_def)

lemma SizeInBytes_pad: "8 * pad 8 (SizeInBytes n) \<le> n + 63"
  using pad8_bounds(3) [of "SizeInBytes n"]
proof (elim dvdE)
  fix k assume k: "pad 8 (SizeInBytes n) = 8 * k"
  have "8 * k \<le> (n + 7) div 8 + 7" using pad8_bounds(2) [of "SizeInBytes n"] k by (simp add: SizeInBytes_ceil)
  then show ?thesis unfolding k by linarith
qed

section \<open>Layouts that a DataTable accepts\<close>

text \<open>
  The assertions of the \<open>BlockLayout\<close> and \<open>DataTable\<close> constructors, for the attribute sizes that
  exist in the system: the version pointer column of 8 bytes first, then 1, 2, 4 or 8 bytes or a
  varlen, at most \<open>MAX_COL\<close> columns.
\<close>

definition valid_attr :: "u16 \<Rightarrow> bool" where
  "valid_attr sz \<longleftrightarrow> sz \<in> {VARLEN_COLUMN, 8, 4, 2, 1}"

definition valid_attrs :: "u16 list \<Rightarrow> bool" where
  "valid_attrs sizes \<longleftrightarrow>
     sizes \<noteq> [] \<and> hd sizes = 8 \<and> list_all valid_attr sizes \<and> length sizes \<le> MAX_COL"

definition attr_bytes :: "u16 \<Rightarrow> nat" where
  "attr_bytes sz = unat (AttrSizeBytes sz)"

lemma attr_bytes_valid: "valid_attr sz \<Longrightarrow> attr_bytes sz \<in> {16, 8, 4, 2, 1}"
  by (auto simp: valid_attr_def attr_bytes_def AttrSizeBytes_def VARLEN_COLUMN_def)

lemma attr_bytes_le: "valid_attr sz \<Longrightarrow> attr_bytes sz \<le> 16"
  using attr_bytes_valid [of sz] by auto

text \<open>The same computations without machine words.\<close>

definition static_header_nat :: "nat \<Rightarrow> nat" where
  "static_header_nat n = pad 8 (24 + (pad 8 (4 * (n + 1)) + n * 40) + n * 4)"

definition slots_nat :: "nat \<Rightarrow> nat \<Rightarrow> nat" where
  "slots_nat n t = 8 * (BLOCK_SIZE - static_header_nat n - 16 * n) div (8 * t + n + 1)"

lemma static_header_nat_bounds: "static_header_nat n \<le> 48 * n + 42" "8 dvd static_header_nat n"
proof -
  have "pad 8 (4 * (n + 1)) \<le> 4 * n + 11" using pad8_bounds(2) [of "4 * (n + 1)"] by simp
  then show "static_header_nat n \<le> 48 * n + 42"
    unfolding static_header_nat_def
    by (intro order.trans [OF pad8_bounds(2)]) simp
  show "8 dvd static_header_nat n" by (simp add: static_header_nat_def pad8_bounds)
qed

lemma unat_ucast_16_32: "unat (ucast (w :: u16) :: u32) = unat w"
  using unsigned_less [of w, where ?'a = nat] by (simp add: unsigned_ucast_eq take_bit_nat_eq_self)

lemma unat_num_cols: "n \<le> MAX_COL \<Longrightarrow> unat (ucast (of_nat n :: u16) :: u32) = n"
  by (simp add: MAX_COL_def unsigned_ucast_eq unat_of_nat take_bit_nat_eq_self)

lemma unat_ArrowBlockMetadata_Size:
  assumes "n \<le> MAX_COL"
  shows "unat (ArrowBlockMetadata_Size (of_nat n)) = pad 8 (4 * (n + 1)) + n * 40"
proof -
  note n = assms [unfolded MAX_COL_def]
  have a: "unat (4 * (ucast (of_nat n :: u16) + 1) :: u32) = 4 * (n + 1)"
    using n by (simp add: unat_word_ariths unat_num_cols [OF assms])
  have b: "unat (ucast (of_nat n :: u16) * 40 :: u32) = n * 40"
    using n by (simp add: unat_word_ariths unat_num_cols [OF assms])
  have c: "unat (PadUpToSize 8 (4 * (ucast (of_nat n :: u16) + 1))) = pad 8 (4 * (n + 1))"
    using n by (subst unat_PadUpToSize_8) (simp_all only: a, simp)
  show ?thesis
    using n pad8_bounds(2) [of "4 * (n + 1)"]
    unfolding ArrowBlockMetadata_Size_def by (subst unat_add_exact) (simp_all only: b c, simp)
qed

lemma unat_ComputeStaticHeaderSize:
  assumes "n \<le> MAX_COL"
  shows "unat (ComputeStaticHeaderSize (of_nat n)) = static_header_nat n"
proof -
  note n = assms [unfolded MAX_COL_def]
  have le: "pad 8 (4 * (n + 1)) \<le> 4 * n + 11" using pad8_bounds(2) [of "4 * (n + 1)"] by simp
  have b: "unat (ucast (of_nat n :: u16) * 4 :: u32) = n * 4"
    using n by (simp add: unat_word_ariths unat_num_cols [OF assms])
  have c: "unat (24 + ArrowBlockMetadata_Size (of_nat n)) = 24 + (pad 8 (4 * (n + 1)) + n * 40)"
    using n le by (subst unat_add_exact) (simp_all add: unat_ArrowBlockMetadata_Size [OF assms])
  have d: "unat (24 + ArrowBlockMetadata_Size (of_nat n) + ucast (of_nat n :: u16) * 4)
      = 24 + (pad 8 (4 * (n + 1)) + n * 40) + n * 4"
    using n le by (subst unat_add_exact) (simp_all only: b c, simp_all)
  have e: "(8 + 2 + 2 + 4 + 8 :: u32) = 24" by simp
  show ?thesis
    unfolding ComputeStaticHeaderSize_def static_header_nat_def e
    using n le by (subst unat_PadUpToSize_8) (simp_all only: d, simp_all)
qed

lemma unat_ComputeTupleSize:
  assumes "list_all valid_attr sizes" and "length sizes \<le> MAX_COL"
  shows "unat (ComputeTupleSize sizes) = sum_list (map attr_bytes sizes)"
proof -
  have "unat (fold (\<lambda>sz r. r + ucast (AttrSizeBytes sz)) sizes (r0 :: u32)) = unat r0 + sum_list (map attr_bytes sizes)"
    if "list_all valid_attr sizes" and "unat r0 + 16 * length sizes < 2 ^ 32" for sizes r0
    using that
  proof (induction sizes arbitrary: r0)
    case (Cons sz sizes)
    have u: "unat (ucast (AttrSizeBytes sz) :: u32) = attr_bytes sz"
      by (simp add: attr_bytes_def unat_ucast_16_32)
    have le: "attr_bytes sz \<le> 16" using Cons.prems attr_bytes_le by simp
    then have "unat (r0 + ucast (AttrSizeBytes sz)) = unat r0 + attr_bytes sz"
      using Cons.prems by (subst unat_add_exact) (simp_all add: u)
    with Cons le show ?case by simp
  qed simp
  from this [of sizes 0] show ?thesis
    using assms by (simp add: ComputeTupleSize_def MAX_COL_def)
qed

lemma unat_ComputeNumSlots:
  assumes "n \<le> MAX_COL" and t: "unat t \<le> 16 * n"
  shows "unat (ComputeNumSlots (of_nat n) t (ComputeStaticHeaderSize (of_nat n))) = slots_nat n (unat t)"
proof -
  note n = assms(1) [unfolded MAX_COL_def]
  let ?h = "ComputeStaticHeaderSize (of_nat n)" and ?c = "ucast (of_nat n :: u16) :: u32"
  have h: "unat ?h = static_header_nat n" by (rule unat_ComputeStaticHeaderSize [OF assms(1)])
  have hb: "static_header_nat n + 16 * n \<le> 2 ^ 20" using static_header_nat_bounds(1) [of n] n by simp
  have c: "unat ?c = n" by (rule unat_num_cols [OF assms(1)])
  have b: "unat (of_nat BLOCK_SIZE :: u32) = 2 ^ 20" by (simp add: BLOCK_SIZE_def)
  have c16: "unat (8 * 2 * ?c) = 16 * n" using n c by (simp add: unat_word_ariths)
  have a1: "unat (of_nat BLOCK_SIZE - ?h) = 2 ^ 20 - static_header_nat n"
    using hb by (subst unat_sub) (simp_all add: word_le_nat_alt b h)
  have "8 * 2 * ?c \<le> of_nat BLOCK_SIZE - ?h"
    unfolding word_le_nat_alt a1 c16 using hb by simp
  then have a2: "unat (of_nat BLOCK_SIZE - ?h - 8 * 2 * ?c) = 2 ^ 20 - static_header_nat n - 16 * n"
    by (simp only: unat_sub a1 c16)
  have a3: "unat (8 * (of_nat BLOCK_SIZE - ?h - 8 * 2 * ?c)) = 8 * (2 ^ 20 - static_header_nat n - 16 * n)"
    using hb by (subst unat_mult_exact) (simp_all only: a2, simp_all)
  have d1: "unat (8 * t) = 8 * unat t" using t n by (subst unat_mult_exact) simp_all
  have d2: "unat (8 * t + ?c) = 8 * unat t + n" using t n by (subst unat_add_exact) (simp_all add: d1 c)
  have d3: "unat (8 * t + ?c + 1) = 8 * unat t + n + 1" using t n by (subst unat_add_exact) (simp_all add: d2)
  show ?thesis
    by (simp only: ComputeNumSlots_def Let_def unat_div a3 d3 slots_nat_def) (simp add: BLOCK_SIZE_def)
qed

lemma sum_attr_bytes_le: "list_all valid_attr sizes \<Longrightarrow> sum_list (map attr_bytes sizes) \<le> 16 * length sizes"
  by (induction sizes) (auto dest: attr_bytes_le)

text \<open>With at most \<open>MAX_COL\<close> columns of any size, every block has at least one slot.\<close>

lemma slots_nat_pos:
  assumes "1 \<le> n" "n \<le> MAX_COL" and "t + 8 \<le> 16 * n"
  shows "0 < slots_nat n t"
proof -
  have "static_header_nat n \<le> 48 * n + 42" by (rule static_header_nat_bounds)
  then have "8 * t + n + 1 \<le> 8 * (BLOCK_SIZE - static_header_nat n - 16 * n)"
    using assms by (simp add: BLOCK_SIZE_def MAX_COL_def)
  then show ?thesis by (simp add: slots_nat_def div_greater_zero_iff)
qed

text \<open>The budget of \<open>ComputeNumSlots\<close> in bits.\<close>

lemma slots_nat_budget:
  "slots_nat n t * (8 * t + n + 1) \<le> 8 * (BLOCK_SIZE - static_header_nat n - 16 * n)"
  by (simp add: slots_nat_def div_times_less_eq_dividend del: mult_Suc_right)
definition col_nat :: "nat \<Rightarrow> u16 \<Rightarrow> nat" where
  "col_nat slots sz = pad 8 (attr_bytes sz * slots + pad 8 (SizeInBytes slots))"

lemma unat_attr_bytes_32: "unat (ucast (AttrSizeBytes sz) :: u32) = attr_bytes sz"
  by (simp add: attr_bytes_def unat_ucast_16_32)

lemma SizeInBytes_le: "SizeInBytes n \<le> n"
proof (cases n)
  case (Suc m)
  then have "n + 7 \<le> 8 * n" by simp
  then have "(n + 7) div 8 \<le> (8 * n) div 8" by (rule div_le_mono)
  then show ?thesis by (simp add: SizeInBytes_ceil)
qed (simp add: SizeInBytes_ceil)

lemma unat_column_bytes:
  assumes "valid_attr sz" and "unat slots < 2 ^ 24"
  shows "unat (column_bytes slots sz) = col_nat (unat slots) sz"
proof -
  have le: "attr_bytes sz \<le> 16" by (rule attr_bytes_le [OF assms(1)])
  have sl: "SizeInBytes (unat slots) \<le> unat slots" by (rule SizeInBytes_le)
  define v where "v = attr_bytes sz * unat slots"
  have v: "v \<le> 16 * unat slots" unfolding v_def using le by (rule mult_le_mono1)
  have m: "unat (ucast (AttrSizeBytes sz) * slots) = v"
    using v assms(2) by (subst unat_mult_exact) (simp_all add: unat_attr_bytes_32 v_def [symmetric])
  have s: "unat (of_nat (SizeInBytes (unat slots)) :: u32) = SizeInBytes (unat slots)"
    using sl assms(2) by (intro unat_of_nat_u32) simp
  have p: "unat (PadUpToSize 8 (of_nat (SizeInBytes (unat slots)))) = pad 8 (SizeInBytes (unat slots))"
    using sl assms(2) by (subst unat_PadUpToSize_8) (simp_all add: s)
  have pb: "pad 8 (SizeInBytes (unat slots)) \<le> unat slots + 7"
    using pad8_bounds(2) [of "SizeInBytes (unat slots)"] sl by linarith
  have a: "unat (ucast (AttrSizeBytes sz) * slots + PadUpToSize 8 (of_nat (SizeInBytes (unat slots))))
      = v + pad 8 (SizeInBytes (unat slots))"
    using v pb assms(2)
    by (subst unat_add_exact) (simp_all add: m p)
  show ?thesis
    unfolding column_bytes_def col_nat_def v_def [symmetric]
    using v pb assms(2)
    by (subst unat_PadUpToSize_8) (simp_all add: a)
qed

lemma layout_columns_nat:
  assumes "list_all valid_attr szs" and "unat slots < 2 ^ 24"
    and "unat acc + sum_list (map (col_nat (unat slots)) szs) < 2 ^ 32"
  shows "length (fst (layout_columns slots acc szs)) = length szs \<and>
    unat (snd (layout_columns slots acc szs)) = unat acc + sum_list (map (col_nat (unat slots)) szs) \<and>
    (\<forall>i < length szs. unat (fst (layout_columns slots acc szs) ! i)
        = unat acc + sum_list (map (col_nat (unat slots)) (take i szs)))"
  using assms
proof (induction szs arbitrary: acc)
  case (Cons sz szs)
  have u: "unat (column_bytes slots sz) = col_nat (unat slots) sz"
    using Cons.prems by (simp add: unat_column_bytes)
  have a: "unat (acc + column_bytes slots sz) = unat acc + col_nat (unat slots) sz"
    using Cons.prems(3) by (subst unat_add_exact) (simp_all add: u)
  note IH = Cons.IH [of "acc + column_bytes slots sz"]
  show ?case
    using IH Cons.prems by (auto simp: a nth_Cons take_Cons add.assoc split: prod.splits nat.splits)
qed simp

lemma col_nat_le: "col_nat slots sz \<le> attr_bytes sz * slots + pad 8 (SizeInBytes slots) + 7"
  unfolding col_nat_def by (rule pad8_bounds)

lemma col_nat_8: "col_nat slots 8 = 8 * slots + pad 8 (SizeInBytes slots)"
  by (simp add: col_nat_def attr_bytes_def AttrSizeBytes_def pad8_dvd pad8_bounds)

lemma sum_col_nat_le:
  "sum_list (map (col_nat slots) szs) \<le>
     slots * sum_list (map attr_bytes szs) + length szs * (pad 8 (SizeInBytes slots) + 7)"
proof (induction szs)
  case (Cons sz szs)
  then show ?case using col_nat_le [of slots sz] by (simp add: algebra_simps)
qed simp
text \<open>The layout of a table with valid attribute sizes, in natural numbers.\<close>

definition total_bytes :: "u16 list \<Rightarrow> nat" where
  "total_bytes sizes = sum_list (map attr_bytes sizes)"

definition layout_slots :: "u16 list \<Rightarrow> nat" where
  "layout_slots sizes = slots_nat (length sizes) (total_bytes sizes)"

lemma total_bytes_le:
  assumes "valid_attrs sizes"
  shows "total_bytes sizes + 8 \<le> 16 * length sizes"
proof (cases sizes)
  case (Cons a r)
  then have "attr_bytes a = 8" using assms by (simp add: valid_attrs_def attr_bytes_def AttrSizeBytes_def)
  then show ?thesis
    using assms sum_attr_bytes_le [of r] Cons by (simp add: total_bytes_def valid_attrs_def)
qed (use assms in \<open>simp add: valid_attrs_def\<close>)

lemma layout_slots_bounds:
  assumes "valid_attrs sizes"
  shows "0 < layout_slots sizes" and "layout_slots sizes \<le> 2 ^ 23"
proof -
  show "0 < layout_slots sizes"
    unfolding layout_slots_def using assms total_bytes_le [OF assms]
    by (intro slots_nat_pos) (auto simp: valid_attrs_def Suc_le_eq)
  have "layout_slots sizes \<le> 8 * (BLOCK_SIZE - static_header_nat (length sizes) - 16 * length sizes)"
    by (simp add: layout_slots_def slots_nat_def)
  then show "layout_slots sizes \<le> 2 ^ 23" by (simp add: BLOCK_SIZE_def)
qed

lemma unat_num_slots:
  assumes "valid_attrs sizes"
  shows "unat (num_slots (make_BlockLayout sizes)) = layout_slots sizes"
proof -
  have t: "unat (ComputeTupleSize sizes) = total_bytes sizes"
    using assms by (simp add: unat_ComputeTupleSize valid_attrs_def total_bytes_def)
  have "unat (ComputeNumSlots (of_nat (length sizes)) (ComputeTupleSize sizes)
      (ComputeStaticHeaderSize (of_nat (length sizes)))) = slots_nat (length sizes) (unat (ComputeTupleSize sizes))"
    using assms total_bytes_le [OF assms] by (intro unat_ComputeNumSlots) (simp_all add: valid_attrs_def t)
  then show ?thesis by (simp add: make_BlockLayout_def Let_def layout_slots_def t)
qed

lemma unat_header_size:
  assumes "valid_attrs sizes"
  shows "unat (header_size (make_BlockLayout sizes)) =
    static_header_nat (length sizes) + pad 8 (SizeInBytes (layout_slots sizes))"
proof -
  let ?n = "length sizes"
  have n: "?n \<le> MAX_COL" using assms by (simp add: valid_attrs_def)
  have sl: "SizeInBytes (layout_slots sizes) \<le> 2 ^ 23"
    using SizeInBytes_le layout_slots_bounds(2) [OF assms] by (rule order.trans)
  have sh: "static_header_nat ?n \<le> 2 ^ 20"
    using static_header_nat_bounds(1) [of ?n] n by (simp add: MAX_COL_def)
  have s: "unat (of_nat (SizeInBytes (layout_slots sizes)) :: u32) = SizeInBytes (layout_slots sizes)"
    using sl by (intro unat_of_nat_u32) simp
  have a: "unat (ComputeStaticHeaderSize (of_nat ?n) + of_nat (SizeInBytes (layout_slots sizes)))
      = static_header_nat ?n + SizeInBytes (layout_slots sizes)"
    using sl sh by (subst unat_add_exact) (simp_all add: s unat_ComputeStaticHeaderSize [OF n])
  have "header_size (make_BlockLayout sizes)
      = PadUpToSize 8 (ComputeStaticHeaderSize (of_nat ?n) + of_nat (SizeInBytes (layout_slots sizes)))"
    using unat_num_slots [OF assms] by (simp add: make_BlockLayout_def Let_def ComputeHeaderSize_def)
  then show ?thesis
    using sl sh
    by (subst (asm) unat_PadUpToSize_8 [symmetric] | simp add: unat_PadUpToSize_8 a pad8_add_dvd static_header_nat_bounds)+
qed

lemma attr_sizes_make:
  assumes "valid_attrs sizes"
  obtains r where "attr_sizes (make_BlockLayout sizes) = 8 # r"
    and "list_all valid_attr (8 # r)" and "length sizes = Suc (length r)"
    and "total_bytes sizes = 8 + total_bytes r"
proof -
  obtain r where r: "sizes = 8 # r" using assms by (cases sizes) (auto simp: valid_attrs_def)
  have "mset (rev (sort r)) = mset r" by simp
  then have "mset (map attr_bytes (rev (sort r))) = mset (map attr_bytes r)" by (simp add: mset_map)
  then have "sum_list (map attr_bytes (rev (sort r))) = sum_list (map attr_bytes r)"
    by (metis sum_mset_sum_list)
  then show ?thesis
    using that [of "rev (sort r)"] assms
    by (simp add: r make_BlockLayout_def Let_def NUM_RESERVED_COLUMNS_def total_bytes_def valid_attrs_def
        attr_bytes_def AttrSizeBytes_def list_all_iff valid_attr_def)
qed

text \<open>The end offset is inside the block: \<open>ComputeNumSlots\<close> keeps enough bytes for the padding.\<close>

lemma layout_end_le:
  assumes "valid_attrs sizes"
  shows "static_header_nat (length sizes) + pad 8 (SizeInBytes (layout_slots sizes))
    + sum_list (map (col_nat (layout_slots sizes)) (attr_sizes (make_BlockLayout sizes))) \<le> BLOCK_SIZE"
proof -
  obtain r where r: "attr_sizes (make_BlockLayout sizes) = 8 # r" and n: "length sizes = Suc (length r)"
    and t: "total_bytes sizes = 8 + total_bytes r"
    using attr_sizes_make [OF assms] by metis
  define N P k h where "N = layout_slots sizes" and "P = pad 8 (SizeInBytes N)" and "k = length r"
    and "h = static_header_nat (Suc k)"
  have P: "8 * P \<le> N + 63" unfolding P_def by (rule SizeInBytes_pad)
  have "Suc k \<le> MAX_COL" using assms n by (simp add: valid_attrs_def k_def)
  then have h: "h + 16 * Suc k \<le> BLOCK_SIZE"
    using static_header_nat_bounds(1) [of "Suc k"] by (simp add: MAX_COL_def BLOCK_SIZE_def h_def)
  have b: "N * (8 * (8 + total_bytes r) + Suc k + 1) \<le> 8 * (BLOCK_SIZE - h - 16 * Suc k)"
    using slots_nat_budget [of "Suc k" "8 + total_bytes r"] by (simp add: N_def layout_slots_def n t k_def h_def)
  have s: "sum_list (map (col_nat N) r) \<le> N * total_bytes r + k * (P + 7)"
    unfolding P_def k_def total_bytes_def by (rule sum_col_nat_le)
  have kP: "8 * (k * P) \<le> k * N + 63 * k"
    using mult_le_mono2 [OF P, of k] by (simp add: algebra_simps)
  have "8 * (h + P + (8 * N + P + sum_list (map (col_nat N) r))) \<le> 8 * BLOCK_SIZE"
    using s kP P b h by (simp add: algebra_simps)
  then show ?thesis by (simp add: r n col_nat_8 N_def [symmetric] P_def [symmetric] k_def [symmetric] h_def [symmetric])
qed
definition col_off :: "u16 list \<Rightarrow> nat \<Rightarrow> nat" where
  "col_off sizes i = static_header_nat (length sizes) + pad 8 (SizeInBytes (layout_slots sizes))
     + sum_list (map (col_nat (layout_slots sizes)) (take i (attr_sizes (make_BlockLayout sizes))))"

lemma layout_valid:
  assumes "valid_attrs sizes"
  shows "list_all valid_attr (attr_sizes (make_BlockLayout sizes))"
    and "length (attr_sizes (make_BlockLayout sizes)) = length sizes"
  using attr_sizes_make [OF assms] by (metis, metis length_Cons)

lemma unat_column_offsets:
  assumes "valid_attrs sizes"
  defines "layout \<equiv> make_BlockLayout sizes"
  shows "i < length sizes \<Longrightarrow> unat (column_offsets layout ! i) = col_off sizes i"
    and "unat (snd (layout_columns (num_slots layout) (header_size layout) (attr_sizes layout)))
           = col_off sizes (length sizes)"
    and "length (column_offsets layout) = length sizes"
proof -
  note v = layout_valid [OF assms(1)]
  have e: "col_off sizes (length sizes) \<le> BLOCK_SIZE"
    using layout_end_le [OF assms(1)] v by (simp add: col_off_def)
  have sm: "unat (num_slots layout) < 2 ^ 24"
    using layout_slots_bounds(2) [OF assms(1)] by (simp add: unat_num_slots assms)
  have "unat (header_size layout) + sum_list (map (col_nat (unat (num_slots layout))) (attr_sizes layout)) < 2 ^ 32"
    using e v by (simp add: unat_header_size unat_num_slots assms col_off_def BLOCK_SIZE_def)
  from layout_columns_nat [OF _ sm this] v
  show "i < length sizes \<Longrightarrow> unat (column_offsets layout ! i) = col_off sizes i"
    and "unat (snd (layout_columns (num_slots layout) (header_size layout) (attr_sizes layout)))
           = col_off sizes (length sizes)"
    and "length (column_offsets layout) = length sizes"
    by (simp_all add: assms(2) column_offsets_def col_off_def unat_num_slots unat_header_size assms(1))
qed

lemma col_off_Suc:
  assumes "valid_attrs sizes" and "i < length sizes"
  shows "col_off sizes (Suc i) = col_off sizes i + col_nat (layout_slots sizes) (attr_sizes (make_BlockLayout sizes) ! i)"
  using assms layout_valid [OF assms(1)] by (simp add: col_off_def take_Suc_conv_app_nth)

lemma col_off_mono: "i \<le> j \<Longrightarrow> col_off sizes i \<le> col_off sizes j"
proof -
  assume "i \<le> j"
  then obtain d where "j = i + d" by (auto simp: le_iff_add)
  then show ?thesis by (simp add: col_off_def take_add)
qed

lemma col_off_le: "valid_attrs sizes \<Longrightarrow> i \<le> length sizes \<Longrightarrow> col_off sizes i \<le> BLOCK_SIZE"
  using layout_end_le [of sizes] col_off_mono [of i "length sizes" sizes] layout_valid [of sizes]
  by (simp add: col_off_def)

lemma sum_col_nat_dvd: "8 dvd sum_list (map (col_nat slots) szs)"
  by (induction szs) (simp_all add: col_nat_def pad8_bounds)

lemma col_off_dvd: "8 dvd col_off sizes i"
  unfolding col_off_def by (intro dvd_add static_header_nat_bounds pad8_bounds sum_col_nat_dvd)

lemma dvd8_less_add: "8 dvd m \<Longrightarrow> 8 dvd n \<Longrightarrow> m < n \<Longrightarrow> m + 8 \<le> (n :: nat)"
  by (elim dvdE) simp

text \<open>The address arithmetic of \<open>AccessForceNotNull\<close> never leaves the block.\<close>

lemma unat_attr_address:
  assumes v: "valid_attrs sizes" and i: "i < length sizes" and off: "unat offset < layout_slots sizes"
    and al: "8 dvd unat block" and room: "unat block + BLOCK_SIZE \<le> 2 ^ 64"
  defines "layout \<equiv> make_BlockLayout sizes"
  defines "b \<equiv> attr_bytes (attr_sizes layout ! i)" and "P \<equiv> pad 8 (SizeInBytes (layout_slots sizes))"
  shows "unat (attr_address layout block i offset) = unat block + col_off sizes i + P + b * unat offset"
    and "col_off sizes i + P + b * unat offset + b \<le> col_off sizes (Suc i)"
proof -
  have "b * (unat offset + 1) \<le> b * layout_slots sizes" using off by (intro mult_le_mono2) simp
  then have "P + b * unat offset + b \<le> col_nat (layout_slots sizes) (attr_sizes layout ! i)"
    using pad8_bounds(1) [of "b * layout_slots sizes + P"]
    by (simp add: col_nat_def b_def [symmetric] P_def [symmetric] algebra_simps)
  then show le: "col_off sizes i + P + b * unat offset + b \<le> col_off sizes (Suc i)"
    using col_off_Suc [OF v i] by (simp add: layout_def)
  have e: "col_off sizes (Suc i) \<le> BLOCK_SIZE" using col_off_le [OF v] i by simp
  have SP: "SizeInBytes (layout_slots sizes) \<le> P" "8 dvd P" by (simp_all add: P_def pad8_bounds)
  have u1: "unat (ucast (column_offsets layout ! i) :: u64) = col_off sizes i"
    using unat_column_offsets(1) [OF v i] e le
    by (simp add: layout_def unsigned_ucast_eq take_bit_nat_eq_self BLOCK_SIZE_def)
  have b0: "0 < b" unfolding b_def using attr_bytes_valid layout_valid [OF v] i
    by (fastforce simp: list_all_length layout_def)
  have a1: "unat (block + ucast (column_offsets layout ! i) :: u64) = unat block + col_off sizes i"
    using e le room b0 by (subst unat_add_exact) (simp_all add: u1)
  have u2: "unat (of_nat (SizeInBytes (layout_slots sizes)) :: u64) = SizeInBytes (layout_slots sizes)"
    using SP e le by (simp add: unat_of_nat take_bit_nat_eq_self BLOCK_SIZE_def)
  have a2: "unat (block + ucast (column_offsets layout ! i) + of_nat (SizeInBytes (layout_slots sizes)) :: u64)
      = unat block + col_off sizes i + SizeInBytes (layout_slots sizes)"
    using SP e le room b0 by (subst unat_add_exact) (simp_all add: a1 u2)
  have "pad 8 (unat block + col_off sizes i + SizeInBytes (layout_slots sizes)) = unat block + col_off sizes i + P"
    unfolding P_def using al col_off_dvd by (intro pad8_add_dvd dvd_add)
  moreover have "col_off sizes i + P + 8 \<le> col_off sizes (Suc i)"
    using SP le b0 col_off_dvd by (intro dvd8_less_add dvd_add) simp_all
  ultimately have a3: "unat (ColumnStart layout block i) = unat block + col_off sizes i + P"
    unfolding ColumnStart_def layout_def unat_num_slots [OF v]
    using SP e room a2 by (subst unat_AlignedPtr_8) (simp_all add: layout_def)
  have ub: "unat (ucast (AttrSizeBytes (attr_sizes layout ! i)) :: u32) = b"
    unfolding b_def attr_bytes_def using unsigned_less [of "AttrSizeBytes (attr_sizes layout ! i)", where ?'a = nat]
    by (simp add: unsigned_ucast_eq take_bit_nat_eq_self)
  have m: "unat (ucast (AttrSizeBytes (attr_sizes layout ! i)) * offset :: u32) = b * unat offset"
    using e le by (subst unat_mult_exact) (simp_all add: ub BLOCK_SIZE_def)
  have "b * unat offset < 2 ^ 32" using m unsigned_less [of "ucast (AttrSizeBytes (attr_sizes layout ! i)) * offset :: u32", where ?'a = nat] by simp
  then have a4: "unat (ucast (ucast (AttrSizeBytes (attr_sizes layout ! i)) * offset :: u32) :: u64) = b * unat offset"
    by (simp add: unsigned_ucast_eq m take_bit_nat_eq_self)
  show "unat (attr_address layout block i offset) = unat block + col_off sizes i + P + b * unat offset"
    unfolding attr_address_def using e le room b0 by (subst unat_add_exact) (simp_all add: a3 a4)
qed
section \<open>Properties of block layouts\<close>

text \<open>
  C31. For every list of attribute sizes that a table may have, \<open>BlockLayout\<close> gives at least one slot,
  and the end of the last column that the \<open>TupleAccessStrategy\<close> constructor computes, with all
  bitmaps and all padding, is inside the block of \<open>BLOCK_SIZE\<close> bytes; no 32-bit step wraps.
\<close>

theorem block_layout_fits:
  assumes "valid_attrs sizes"
  defines "layout \<equiv> make_BlockLayout sizes"
  shows "0 < unat (num_slots layout) \<and>
    unat (header_size layout) \<le> unat (snd (layout_columns (num_slots layout) (header_size layout) (attr_sizes layout))) \<and>
    unat (snd (layout_columns (num_slots layout) (header_size layout) (attr_sizes layout))) \<le> BLOCK_SIZE"
  using layout_slots_bounds(1) [OF assms(1)] unat_column_offsets(2) [OF assms(1)]
    col_off_le [OF assms(1) order.refl] unat_header_size [OF assms(1)] unat_num_slots [OF assms(1)]
    col_off_mono [of 0 "length sizes" sizes]
  by (simp add: layout_def col_off_def)

lemma valid_attrs_example: "valid_attrs [8, 4, VARLEN_COLUMN]"
  by (simp add: valid_attrs_def valid_attr_def VARLEN_COLUMN_def MAX_COL_def)

theorem block_layout_fits_witness:
  "valid_attrs [8, 4, VARLEN_COLUMN] \<and> 0 < unat (num_slots (make_BlockLayout [8, 4, VARLEN_COLUMN]))"
  using block_layout_fits [OF valid_attrs_example] valid_attrs_example by simp

lemma aligned_block_room:
  assumes "BLOCK_SIZE dvd unat (block :: u64)"
  shows "8 dvd unat block" and "unat block + BLOCK_SIZE \<le> 2 ^ 64"
proof -
  obtain k where k: "unat block = 2 ^ 20 * k" using assms by (auto simp: BLOCK_SIZE_def elim!: dvdE)
  show "8 dvd unat block" unfolding k by simp
  show "unat block + BLOCK_SIZE \<le> 2 ^ 64"
    using unsigned_less [of block, where ?'a = nat] unfolding k by (simp add: BLOCK_SIZE_def)
qed

text \<open>
  C32. In a block aligned to its size, the values of different attributes or of different slots occupy
  disjoint byte ranges: writing one value never touches another. Each range lies after the block
  header and inside the block.
\<close>

theorem attr_ranges_disjoint:
  assumes v: "valid_attrs sizes" and al: "BLOCK_SIZE dvd unat block"
  defines "layout \<equiv> make_BlockLayout sizes"
  assumes i: "i < length sizes" "offset < num_slots layout"
    and j: "j < length sizes" "offset' < num_slots layout"
    and ne: "(i, offset) \<noteq> (j, offset')"
  shows "let a = unat (attr_address layout block i offset); a' = unat (attr_address layout block j offset');
             n = unat (AttrSizeBytes (attr_sizes layout ! i)); n' = unat (AttrSizeBytes (attr_sizes layout ! j))
         in unat block + unat (header_size layout) \<le> a \<and> a + n \<le> unat block + BLOCK_SIZE
            \<and> (a + n \<le> a' \<or> a' + n' \<le> a)"
proof -
  note al = aligned_block_room [OF al]
  have o: "unat offset < layout_slots sizes" "unat offset' < layout_slots sizes"
    using i(2) j(2) unat_num_slots [OF v] by (simp_all add: layout_def word_less_nat_alt)
  note A = unat_attr_address [OF v i(1) o(1) al, folded layout_def attr_bytes_def]
  note B = unat_attr_address [OF v j(1) o(2) al, folded layout_def attr_bytes_def]
  have h: "unat (header_size layout) \<le> col_off sizes i"
    using col_off_mono [of 0 i sizes] by (simp add: layout_def unat_header_size [OF v] col_off_def)
  have e: "col_off sizes (Suc i) \<le> BLOCK_SIZE" using i(1) by (intro col_off_le [OF v]) simp
  let ?b = "\<lambda>k. attr_bytes (attr_sizes layout ! k)"
  consider "i < j" | "j < i" | "i = j" "unat offset < unat offset'" | "i = j" "unat offset' < unat offset"
    using ne by (metis linorder_cases unsigned_word_eqI)
  then have "unat (attr_address layout block i offset) + ?b i \<le> unat (attr_address layout block j offset')
      \<or> unat (attr_address layout block j offset') + ?b j \<le> unat (attr_address layout block i offset)"
  proof cases
    case 1 then show ?thesis using A B col_off_mono [of "Suc i" j sizes] by simp
  next
    case 2 then show ?thesis using A B col_off_mono [of "Suc j" i sizes] by simp
  next
    case 3 then show ?thesis using A B mult_le_mono2 [of "Suc (unat offset)" "unat offset'" "?b i"] by simp
  next
    case 4 then show ?thesis using A B mult_le_mono2 [of "Suc (unat offset')" "unat offset" "?b i"] by simp
  qed
  then show ?thesis using A h e by (simp add: Let_def attr_bytes_def)
qed

theorem attr_ranges_disjoint_witness:
  "let layout = make_BlockLayout [8, 4, VARLEN_COLUMN];
       a = unat (attr_address layout 0x100000 0 0); a' = unat (attr_address layout 0x100000 2 0)
   in a + 8 \<le> 0x100000 + BLOCK_SIZE
      \<and> (a + 8 \<le> a' \<or> a' + unat (AttrSizeBytes (attr_sizes layout ! 2)) \<le> a)"
proof -
  have al: "BLOCK_SIZE dvd unat (0x100000 :: u64)" by (simp add: BLOCK_SIZE_def)
  have "attr_sizes (make_BlockLayout [8, 4, VARLEN_COLUMN]) ! 0 = 8"
    by (rule attr_sizes_make [OF valid_attrs_example]) simp
  moreover have "0 < num_slots (make_BlockLayout [8, 4, VARLEN_COLUMN])"
    using layout_slots_bounds(1) [OF valid_attrs_example] unat_num_slots [OF valid_attrs_example]
    by (simp add: word_less_nat_alt)
  ultimately show ?thesis
    using attr_ranges_disjoint [OF valid_attrs_example al, of 0 0 2 0]
    by (simp add: Let_def AttrSizeBytes_def)
qed

end
