(* ===== verification/TupleAccess.thy ===== *)
theory TupleAccess
  imports Layout
begin

text \<open>
  \<^verbatim>\<open>storage/tuple_access_strategy.{h,cpp}\<close>, the block header of \<^verbatim>\<open>storage/storage_defs.h\<close> and
  the controller of \<^verbatim>\<open>storage/block_access_controller.h\<close>. A block is a record of its header
  fields, its bitmaps, and one cell per attribute and slot; a cell holds the \<open>AttrSize\<close> bytes of the
  attribute, so a \<open>memcpy\<close> of \<open>AttrSize\<close> bytes into it is an assignment (the theory \<open>Layout\<close> shows
  that the cells are disjoint byte ranges of the block). The cells of the version pointer column
  hold pointers to undo records. Memory is a function from block addresses to blocks.
\<close>

section \<open>BlockAccessController\<close>

datatype BlockState = HOT | COOLING | FREEZING | FROZEN

record BlockAccessController =
  block_state :: BlockState
  reader_count :: u32

definition Initialize_controller :: BlockAccessController where
  "Initialize_controller = \<lparr>block_state = HOT, reader_count = 0\<rparr>"

definition TryAcquireInPlaceRead :: "BlockAccessController \<Rightarrow> bool \<times> BlockAccessController" where
  "TryAcquireInPlaceRead ctl =
     (if block_state ctl \<noteq> FROZEN then (False, ctl)
      else (True, ctl\<lparr>reader_count := reader_count ctl + 1\<rparr>))"

definition ReleaseInPlaceRead :: "BlockAccessController \<Rightarrow> BlockAccessController" where
  "ReleaseInPlaceRead ctl = ctl\<lparr>reader_count := reader_count ctl - 1\<rparr>"

text \<open>
  \<open>WaitUntilHot\<close> without interference: \<open>None\<close> when it waits for another thread, which is the
  compactor while the block is freezing and the in-place readers afterwards.
\<close>

definition WaitUntilHot :: "BlockAccessController \<Rightarrow> BlockAccessController option" where
  "WaitUntilHot ctl =
     (case block_state ctl of
        FREEZING \<Rightarrow> None
      | _ \<Rightarrow> (if reader_count ctl = 0 then Some (ctl\<lparr>block_state := HOT\<rparr>) else None))"

section \<open>RawBlock\<close>

type_synonym col_id = u16

type_synonym undo_ptr = "nat option"

record RawBlock =
  data_table :: "nat option"
  layout_version :: u16
  insert_head :: u32
  controller :: BlockAccessController
  slot_bitmap :: bitmap
  null_bitmap :: "col_id \<Rightarrow> bitmap"
  version_column :: "nat \<Rightarrow> undo_ptr"
  columns :: "col_id \<Rightarrow> nat \<Rightarrow> bytes"

type_synonym block_memory = "u64 \<Rightarrow> RawBlock"

definition VERSION_POINTER_COLUMN_ID :: col_id where
  "VERSION_POINTER_COLUMN_ID = 0"

definition GetInsertHead :: "RawBlock \<Rightarrow> u32" where
  "GetInsertHead block = 0x7FFFFFFF AND insert_head block"

section \<open>TupleAccessStrategy\<close>

definition InitializeRawBlock :: "BlockLayout \<Rightarrow> nat \<Rightarrow> RawBlock \<Rightarrow> u16 \<Rightarrow> RawBlock" where
  "InitializeRawBlock layout table raw version =
     raw\<lparr>data_table := Some table,
         layout_version := version,
         insert_head := 0,
         controller := Initialize_controller,
         slot_bitmap := UnsafeClear (slot_bitmap raw) (unat (num_slots layout)),
         null_bitmap := (null_bitmap raw)(VERSION_POINTER_COLUMN_ID :=
           UnsafeClear (null_bitmap raw VERSION_POINTER_COLUMN_ID) (unat (num_slots layout))),
         version_column := (\<lambda>i. if i < unat (num_slots layout) then None else version_column raw i)\<rparr>"

definition slot_index :: "TupleSlot \<Rightarrow> nat" where
  "slot_index slot = unat (GetOffset slot)"

definition Allocated :: "block_memory \<Rightarrow> TupleSlot \<Rightarrow> bool" where
  "Allocated mem slot = Test (slot_bitmap (mem (GetBlock slot))) (slot_index slot)"

definition IsNull :: "block_memory \<Rightarrow> TupleSlot \<Rightarrow> col_id \<Rightarrow> bool" where
  "IsNull mem slot col \<longleftrightarrow> \<not> Test (null_bitmap (mem (GetBlock slot)) col) (slot_index slot)"

definition AccessWithNullCheck :: "block_memory \<Rightarrow> TupleSlot \<Rightarrow> col_id \<Rightarrow> bytes option" where
  "AccessWithNullCheck mem slot col =
     (if \<not> Test (null_bitmap (mem (GetBlock slot)) col) (slot_index slot) then None
      else Some (columns (mem (GetBlock slot)) col (slot_index slot)))"

definition AccessWithoutNullCheck :: "block_memory \<Rightarrow> TupleSlot \<Rightarrow> col_id \<Rightarrow> bytes" where
  "AccessWithoutNullCheck mem slot col = columns (mem (GetBlock slot)) col (slot_index slot)"

definition update_block :: "block_memory \<Rightarrow> u64 \<Rightarrow> (RawBlock \<Rightarrow> RawBlock) \<Rightarrow> block_memory" where
  "update_block mem b f = mem(b := f (mem b))"

definition flip_null :: "block_memory \<Rightarrow> TupleSlot \<Rightarrow> col_id \<Rightarrow> bool \<Rightarrow> block_memory" where
  "flip_null mem slot col expected =
     update_block mem (GetBlock slot) (\<lambda>b. b\<lparr>null_bitmap := (null_bitmap b)
       (col := snd (Flip (null_bitmap b col) (slot_index slot) expected))\<rparr>)"

text \<open>The returned pointer is the cell itself, so only the effect on the null bitmap is left.\<close>

definition AccessForceNotNull :: "block_memory \<Rightarrow> TupleSlot \<Rightarrow> col_id \<Rightarrow> block_memory" where
  "AccessForceNotNull mem slot col =
     (if \<not> Test (null_bitmap (mem (GetBlock slot)) col) (slot_index slot)
      then flip_null mem slot col False else mem)"

definition store_attr :: "block_memory \<Rightarrow> TupleSlot \<Rightarrow> col_id \<Rightarrow> bytes \<Rightarrow> block_memory" where
  "store_attr mem slot col bs =
     update_block mem (GetBlock slot)
       (\<lambda>b. b\<lparr>columns := (columns b)(col := (columns b col)(slot_index slot := bs))\<rparr>)"

definition SetNull :: "block_memory \<Rightarrow> TupleSlot \<Rightarrow> col_id \<Rightarrow> block_memory" where
  "SetNull mem slot col = flip_null mem slot col True"

definition SetNotNull :: "block_memory \<Rightarrow> TupleSlot \<Rightarrow> col_id \<Rightarrow> block_memory" where
  "SetNotNull mem slot col = flip_null mem slot col False"

definition Reallocate :: "block_memory \<Rightarrow> TupleSlot \<Rightarrow> block_memory" where
  "Reallocate mem slot =
     update_block mem (GetBlock slot)
       (\<lambda>b. b\<lparr>slot_bitmap := snd (Flip (slot_bitmap b) (slot_index slot) False)\<rparr>)"

definition Deallocate :: "block_memory \<Rightarrow> TupleSlot \<Rightarrow> block_memory" where
  "Deallocate mem slot =
     update_block mem (GetBlock slot)
       (\<lambda>b. b\<lparr>slot_bitmap := snd (Flip (slot_bitmap b) (slot_index slot) True)\<rparr>)"

definition Allocate :: "BlockLayout \<Rightarrow> block_memory \<Rightarrow> u64 \<Rightarrow> (TupleSlot \<times> block_memory) option" where
  "Allocate layout mem block =
     (let start = GetInsertHead (mem block)
      in if start = num_slots layout then None
         else Some (make_TupleSlot block start,
           update_block mem block
             (\<lambda>b. b\<lparr>slot_bitmap := snd (Flip (slot_bitmap b) (unat start) False),
                    insert_head := insert_head b + 1\<rparr>)))"

definition ClearBit :: "u32 \<Rightarrow> u32" where
  "ClearBit val = val AND 0x7FFFFFFF"

definition SetBit :: "u32 \<Rightarrow> u32" where
  "SetBit val = val OR 0x80000000"

definition SetBlockBusyStatus :: "block_memory \<Rightarrow> u64 \<Rightarrow> bool \<times> block_memory" where
  "SetBlockBusyStatus mem block =
     (let old_val = ClearBit (insert_head (mem block))
      in if insert_head (mem block) = old_val
         then (True, update_block mem block (\<lambda>b. b\<lparr>insert_head := SetBit old_val\<rparr>))
         else (False, mem))"

definition ClearBlockBusyStatus :: "block_memory \<Rightarrow> u64 \<Rightarrow> block_memory" where
  "ClearBlockBusyStatus mem block =
     update_block mem block (\<lambda>b. b\<lparr>insert_head := ClearBit (insert_head b)\<rparr>)"

text \<open>The version pointer column, as \<open>DataTable\<close> reads and writes it.\<close>

definition AtomicallyReadVersionPtr :: "block_memory \<Rightarrow> TupleSlot \<Rightarrow> undo_ptr" where
  "AtomicallyReadVersionPtr mem slot = version_column (mem (GetBlock slot)) (slot_index slot)"

definition AtomicallyWriteVersionPtr :: "block_memory \<Rightarrow> TupleSlot \<Rightarrow> undo_ptr \<Rightarrow> block_memory" where
  "AtomicallyWriteVersionPtr mem slot desired =
     update_block mem (GetBlock slot)
       (\<lambda>b. b\<lparr>version_column := (version_column b)(slot_index slot := desired)\<rparr>)"

definition CompareAndSwapVersionPtr ::
  "block_memory \<Rightarrow> TupleSlot \<Rightarrow> undo_ptr \<Rightarrow> undo_ptr \<Rightarrow> bool \<times> block_memory" where
  "CompareAndSwapVersionPtr mem slot expected desired =
     (if AtomicallyReadVersionPtr mem slot = expected
      then (True, AtomicallyWriteVersionPtr mem slot desired) else (False, mem))"

text \<open>\<open>StorageUtil::CopyWithNullCheck\<close> into a tuple slot.\<close>

definition CopyWithNullCheck :: "bytes option \<Rightarrow> block_memory \<Rightarrow> TupleSlot \<Rightarrow> col_id \<Rightarrow> block_memory" where
  "CopyWithNullCheck from mem slot col =
     (case from of
        None \<Rightarrow> SetNull mem slot col
      | Some bs \<Rightarrow> store_attr (AccessForceNotNull mem slot col) slot col bs)"

section \<open>Reads after writes\<close>

lemma slot_eq_iff: "GetBlock s = GetBlock t \<and> slot_index s = slot_index t \<longleftrightarrow> s = t"
  by (metis TupleSlot_eqI slot_index_def unsigned_word_eqI)

lemma slot_neqD: "s \<noteq> t \<Longrightarrow> GetBlock s = GetBlock t \<Longrightarrow> slot_index s \<noteq> slot_index t"
  using slot_eq_iff by blast

lemmas observe_defs = Allocated_def IsNull_def AccessWithNullCheck_def AtomicallyReadVersionPtr_def

lemma IsNull_flip_null [access_simps]:
  "IsNull (flip_null mem slot col e) s c =
     (if s = slot \<and> c = col then (if IsNull mem slot col = (\<not> e) then e else IsNull mem slot col)
      else IsNull mem s c)"
  using slot_neqD [of s slot]
  by (auto simp: IsNull_def flip_null_def update_block_def bitmap_simps)

lemma flip_null_other [access_simps]:
  "Allocated (flip_null mem slot col e) s = Allocated mem s"
  "AtomicallyReadVersionPtr (flip_null mem slot col e) s = AtomicallyReadVersionPtr mem s"
  "AccessWithoutNullCheck (flip_null mem slot col e) s c = AccessWithoutNullCheck mem s c"
  by (simp_all add: observe_defs AccessWithoutNullCheck_def flip_null_def update_block_def)

lemma AccessWithNullCheck_eq:
  "AccessWithNullCheck mem s c = (if IsNull mem s c then None else Some (AccessWithoutNullCheck mem s c))"
  by (simp add: AccessWithNullCheck_def IsNull_def AccessWithoutNullCheck_def)

lemma SetNull_simps [access_simps]:
  "IsNull (SetNull mem slot col) s c = (if s = slot \<and> c = col then True else IsNull mem s c)"
  "AccessWithNullCheck (SetNull mem slot col) s c = (if s = slot \<and> c = col then None else AccessWithNullCheck mem s c)"
  "Allocated (SetNull mem slot col) s = Allocated mem s"
  "AtomicallyReadVersionPtr (SetNull mem slot col) s = AtomicallyReadVersionPtr mem s"
  by (auto simp: SetNull_def AccessWithNullCheck_eq access_simps)

lemma SetNotNull_simps [access_simps]:
  "IsNull (SetNotNull mem slot col) s c = (if s = slot \<and> c = col then False else IsNull mem s c)"
  "c \<noteq> col \<or> s \<noteq> slot \<Longrightarrow> AccessWithNullCheck (SetNotNull mem slot col) s c = AccessWithNullCheck mem s c"
  "Allocated (SetNotNull mem slot col) s = Allocated mem s"
  "AtomicallyReadVersionPtr (SetNotNull mem slot col) s = AtomicallyReadVersionPtr mem s"
  by (auto simp: SetNotNull_def AccessWithNullCheck_eq access_simps)

lemma AccessForceNotNull_eq: "AccessForceNotNull mem slot col = SetNotNull mem slot col"
  by (auto simp: AccessForceNotNull_def SetNotNull_def flip_null_def update_block_def Flip_eq)

lemma store_attr_simps [access_simps]:
  "IsNull (store_attr mem slot col bs) s c = IsNull mem s c"
  "Allocated (store_attr mem slot col bs) s = Allocated mem s"
  "AtomicallyReadVersionPtr (store_attr mem slot col bs) s = AtomicallyReadVersionPtr mem s"
  "AccessWithoutNullCheck (store_attr mem slot col bs) s c =
     (if s = slot \<and> c = col then bs else AccessWithoutNullCheck mem s c)"
  using slot_neqD [of s slot]
  by (auto simp: observe_defs AccessWithoutNullCheck_def store_attr_def update_block_def)

lemma CopyWithNullCheck_simps [access_simps]:
  "AccessWithNullCheck (CopyWithNullCheck v mem slot col) s c =
     (if s = slot \<and> c = col then v else AccessWithNullCheck mem s c)"
  "c \<noteq> col \<Longrightarrow> IsNull (CopyWithNullCheck v mem slot col) s c = IsNull mem s c"
  "Allocated (CopyWithNullCheck v mem slot col) s = Allocated mem s"
  "AtomicallyReadVersionPtr (CopyWithNullCheck v mem slot col) s = AtomicallyReadVersionPtr mem s"
  by (auto simp: CopyWithNullCheck_def AccessForceNotNull_eq AccessWithNullCheck_eq access_simps
      SetNotNull_def SetNull_def split: option.splits)

lemma Deallocate_simps [access_simps]:
  "Allocated (Deallocate mem slot) s = (if s = slot then False else Allocated mem s)"
  "IsNull (Deallocate mem slot) s c = IsNull mem s c"
  "AccessWithNullCheck (Deallocate mem slot) s c = AccessWithNullCheck mem s c"
  "AtomicallyReadVersionPtr (Deallocate mem slot) s = AtomicallyReadVersionPtr mem s"
  using slot_neqD [of s slot]
  by (auto simp: observe_defs Deallocate_def update_block_def bitmap_simps)

lemma Reallocate_simps [access_simps]:
  "Allocated (Reallocate mem slot) s = (if s = slot then True else Allocated mem s)"
  "IsNull (Reallocate mem slot) s c = IsNull mem s c"
  "AccessWithNullCheck (Reallocate mem slot) s c = AccessWithNullCheck mem s c"
  "AtomicallyReadVersionPtr (Reallocate mem slot) s = AtomicallyReadVersionPtr mem s"
  using slot_neqD [of s slot]
  by (auto simp: observe_defs Reallocate_def update_block_def bitmap_simps)

lemma AtomicallyWriteVersionPtr_simps [access_simps]:
  "AtomicallyReadVersionPtr (AtomicallyWriteVersionPtr mem slot p) s =
     (if s = slot then p else AtomicallyReadVersionPtr mem s)"
  "Allocated (AtomicallyWriteVersionPtr mem slot p) s = Allocated mem s"
  "IsNull (AtomicallyWriteVersionPtr mem slot p) s c = IsNull mem s c"
  "AccessWithNullCheck (AtomicallyWriteVersionPtr mem slot p) s c = AccessWithNullCheck mem s c"
  using slot_neqD [of s slot]
  by (auto simp: observe_defs AtomicallyWriteVersionPtr_def update_block_def)

text \<open>The header fields, which only \<open>Allocate\<close>, the busy bit and the controller change.\<close>

definition block_header :: "block_memory \<Rightarrow> u64 \<Rightarrow> nat option \<times> u16 \<times> u32 \<times> BlockAccessController" where
  "block_header mem b = (data_table (mem b), layout_version (mem b), insert_head (mem b), controller (mem b))"

lemma block_header_frame [frame_simps]:
  "block_header (flip_null mem slot col e) b = block_header mem b"
  "block_header (store_attr mem slot col bs) b = block_header mem b"
  "block_header (Deallocate mem slot) b = block_header mem b"
  "block_header (Reallocate mem slot) b = block_header mem b"
  "block_header (AtomicallyWriteVersionPtr mem slot p) b = block_header mem b"
  by (simp_all add: block_header_def update_block_def flip_null_def store_attr_def Deallocate_def
      Reallocate_def AtomicallyWriteVersionPtr_def)

lemma block_header_frame2 [frame_simps]:
  "block_header (SetNull mem slot col) b = block_header mem b"
  "block_header (SetNotNull mem slot col) b = block_header mem b"
  "block_header (AccessForceNotNull mem slot col) b = block_header mem b"
  "block_header (CopyWithNullCheck v mem slot col) b = block_header mem b"
  by (simp_all add: SetNull_def SetNotNull_def AccessForceNotNull_eq CopyWithNullCheck_def frame_simps
      split: option.splits)

end
