(* ===== verification/ProjectedRow.thy ===== *)
theory ProjectedRow
  imports TupleAccess
begin

text \<open>
  \<^verbatim>\<open>storage/projected_row.{h,cpp}\<close> and the attribute copies of \<^verbatim>\<open>storage/storage_util.cpp\<close>.
  A projected row is a record of its header fields, its null bitmap and one cell per projection list
  index. The main results are that \<open>ApplyDelta\<close> overwrites exactly the columns of the delta, and that
  copying a row into a tuple slot and back is lossless.
\<close>

section \<open>ProjectedRow\<close>

record ProjectedRow =
  pr_size :: u32
  col_ids :: "col_id list"
  attr_value_offsets :: "u32 list"
  pr_bitmap :: bitmap
  pr_values :: "nat \<Rightarrow> bytes"

definition PR_NumColumns :: "ProjectedRow \<Rightarrow> nat" where
  "PR_NumColumns row = length (col_ids row)"

definition PR_AccessWithNullCheck :: "ProjectedRow \<Rightarrow> nat \<Rightarrow> bytes option" where
  "PR_AccessWithNullCheck row i = (if \<not> Test (pr_bitmap row) i then None else Some (pr_values row i))"

definition PR_AccessForceNotNull :: "ProjectedRow \<Rightarrow> nat \<Rightarrow> ProjectedRow" where
  "PR_AccessForceNotNull row i =
     (if \<not> Test (pr_bitmap row) i then row\<lparr>pr_bitmap := Flip_bit (pr_bitmap row) i\<rparr> else row)"

definition PR_SetNull :: "ProjectedRow \<Rightarrow> nat \<Rightarrow> ProjectedRow" where
  "PR_SetNull row i = row\<lparr>pr_bitmap := Set_bit (pr_bitmap row) i False\<rparr>"

definition PR_SetNotNull :: "ProjectedRow \<Rightarrow> nat \<Rightarrow> ProjectedRow" where
  "PR_SetNotNull row i = row\<lparr>pr_bitmap := Set_bit (pr_bitmap row) i True\<rparr>"

definition PR_IsNull :: "ProjectedRow \<Rightarrow> nat \<Rightarrow> bool" where
  "PR_IsNull row i \<longleftrightarrow> \<not> Test (pr_bitmap row) i"

text \<open>\<open>head\<close> is the memory that the new row is laid out in: its cells keep what they held.\<close>

definition CopyProjectedRowLayout :: "ProjectedRow \<Rightarrow> ProjectedRow \<Rightarrow> ProjectedRow" where
  "CopyProjectedRowLayout head other =
     head\<lparr>pr_size := pr_size other, col_ids := col_ids other,
          attr_value_offsets := attr_value_offsets other,
          pr_bitmap := Clear (pr_bitmap head) (PR_NumColumns other)\<rparr>"

section \<open>Copies between rows and tuple slots\<close>

definition PR_CopyWithNullCheck :: "bytes option \<Rightarrow> ProjectedRow \<Rightarrow> nat \<Rightarrow> ProjectedRow" where
  "PR_CopyWithNullCheck from to i =
     (case from of
        None \<Rightarrow> PR_SetNull to i
      | Some bs \<Rightarrow> (let row = PR_AccessForceNotNull to i in row\<lparr>pr_values := (pr_values row)(i := bs)\<rparr>))"

definition CopyAttrIntoProjection :: "block_memory \<Rightarrow> TupleSlot \<Rightarrow> nat \<Rightarrow> ProjectedRow \<Rightarrow> ProjectedRow" where
  "CopyAttrIntoProjection mem from i to =
     (let col = col_ids to ! i in PR_CopyWithNullCheck (AccessWithNullCheck mem from col) to i)"

definition CopyAttrFromProjection :: "ProjectedRow \<Rightarrow> TupleSlot \<Rightarrow> nat \<Rightarrow> block_memory \<Rightarrow> block_memory" where
  "CopyAttrFromProjection from to i mem =
     (let col = col_ids from ! i in CopyWithNullCheck (PR_AccessWithNullCheck from i) mem to col)"

text \<open>The loops over all columns of a row that \<open>DataTable\<close> and \<open>TransactionManager\<close> run.\<close>

definition copy_tuple_into_row :: "block_memory \<Rightarrow> TupleSlot \<Rightarrow> ProjectedRow \<Rightarrow> ProjectedRow" where
  "copy_tuple_into_row mem slot row = fold (CopyAttrIntoProjection mem slot) [0..<PR_NumColumns row] row"

definition copy_row_into_tuple :: "ProjectedRow \<Rightarrow> TupleSlot \<Rightarrow> block_memory \<Rightarrow> block_memory" where
  "copy_row_into_tuple row slot mem = fold (CopyAttrFromProjection row slot) [0..<PR_NumColumns row] mem"

lemma col_ids_PR_CopyWithNullCheck [simp]:
  "col_ids (PR_CopyWithNullCheck v row i) = col_ids row"
  by (simp add: PR_CopyWithNullCheck_def PR_SetNull_def PR_AccessForceNotNull_def Let_def split: option.splits)

lemma PR_NumColumns_PR_CopyWithNullCheck [simp]:
  "PR_NumColumns (PR_CopyWithNullCheck v row i) = PR_NumColumns row"
  by (simp add: PR_NumColumns_def)

function ApplyDelta_loop :: "ProjectedRow \<Rightarrow> ProjectedRow \<Rightarrow> nat \<Rightarrow> nat \<Rightarrow> ProjectedRow" where
  "ApplyDelta_loop delta buffer delta_i buffer_i =
     (if delta_i < PR_NumColumns delta \<and> buffer_i < PR_NumColumns buffer then
        (let delta_col = col_ids delta ! delta_i; buffer_col = col_ids buffer ! buffer_i
         in if delta_col = buffer_col then
              ApplyDelta_loop delta
                (PR_CopyWithNullCheck (PR_AccessWithNullCheck delta delta_i) buffer buffer_i)
                (delta_i + 1) (buffer_i + 1)
            else if delta_col > buffer_col then ApplyDelta_loop delta buffer delta_i (buffer_i + 1)
            else ApplyDelta_loop delta buffer (delta_i + 1) buffer_i)
      else buffer)"
  by pat_completeness auto
termination
  by (relation "measure (\<lambda>(delta, buffer, delta_i, buffer_i).
        (PR_NumColumns delta - delta_i) + (PR_NumColumns buffer - buffer_i))") auto

declare ApplyDelta_loop.simps [simp del]

definition ApplyDelta :: "ProjectedRow \<Rightarrow> ProjectedRow \<Rightarrow> ProjectedRow" where
  "ApplyDelta delta buffer = ApplyDelta_loop delta buffer 0 0"

section \<open>Attribute stores\<close>

text \<open>
  What both representations promise: an attribute that is written, null or not, is read back, and
  no other attribute changes.
\<close>

locale attr_store =
  fixes get :: "'m \<Rightarrow> 'c \<Rightarrow> bytes option"
    and put :: "bytes option \<Rightarrow> 'm \<Rightarrow> 'c \<Rightarrow> 'm"
  assumes get_put: "get (put v m c) c' = (if c' = c then v else get m c')"
begin

definition put_all :: "('c \<times> bytes option) list \<Rightarrow> 'm \<Rightarrow> 'm" where
  "put_all cvs m = fold (\<lambda>(c, v) m. put v m c) cvs m"

lemma get_put_all:
  "distinct (map fst cvs) \<Longrightarrow>
   get (put_all cvs m) c = (case map_of cvs c of Some v \<Rightarrow> v | None \<Rightarrow> get m c)"
proof (induction cvs arbitrary: m)
  case (Cons cv cvs)
  obtain c' v' where cv: "cv = (c', v')" by fastforce
  have "get (put_all cvs (put v' m c')) c = (case map_of cvs c of Some v \<Rightarrow> v | None \<Rightarrow> get (put v' m c') c)"
    using Cons by simp
  moreover have "c' = c \<Longrightarrow> map_of cvs c = None"
    using Cons.prems cv by (auto simp: map_of_eq_None_iff)
  ultimately show ?case
    by (auto simp: put_all_def cv get_put split: option.splits)
qed (simp add: put_all_def)

lemma put_all_idem:
  assumes "distinct (map fst cvs)"
  shows "get (put_all cvs (put_all cvs m)) c = get (put_all cvs m) c"
  using assms by (simp add: get_put_all split: option.splits)

end

lemma PR_Access_PR_CopyWithNullCheck [access_simps]:
  "PR_AccessWithNullCheck (PR_CopyWithNullCheck v row i) j = (if j = i then v else PR_AccessWithNullCheck row j)"
  by (auto simp: PR_AccessWithNullCheck_def PR_CopyWithNullCheck_def PR_SetNull_def PR_AccessForceNotNull_def
      Let_def bitmap_simps split: option.splits)

interpretation row_attrs: attr_store PR_AccessWithNullCheck PR_CopyWithNullCheck
  by unfold_locales (simp add: access_simps)

text \<open>All slots of memory at once: the attributes are pairs of a slot and a column.\<close>

interpretation slot_attrs: attr_store
  "\<lambda>mem (s, c). AccessWithNullCheck mem s c" "\<lambda>v mem (s, c). CopyWithNullCheck v mem s c"
  by unfold_locales (auto simp: access_simps split: if_splits)

section \<open>Rows as maps\<close>

text \<open>The columns of a row with their values; a null attribute is \<open>Some None\<close>.\<close>

definition row_alist :: "ProjectedRow \<Rightarrow> (col_id \<times> bytes option) list" where
  "row_alist row = map (\<lambda>i. (col_ids row ! i, PR_AccessWithNullCheck row i)) [0..<PR_NumColumns row]"

definition row_map :: "ProjectedRow \<Rightarrow> col_id \<rightharpoonup> bytes option" where
  "row_map row = map_of (row_alist row)"

text \<open>The total attribute function of a tuple, overwritten by the columns of a row.\<close>

definition overwrite :: "(col_id \<Rightarrow> bytes option) \<Rightarrow> ProjectedRow \<Rightarrow> col_id \<Rightarrow> bytes option" where
  "overwrite f row c = (case row_map row c of Some v \<Rightarrow> v | None \<Rightarrow> f c)"

lemma fst_row_alist: "map fst (row_alist row) = col_ids row"
  by (simp add: row_alist_def PR_NumColumns_def comp_def map_nth)

lemma row_map_nth:
  assumes "distinct (col_ids row)" and "i < PR_NumColumns row"
  shows "row_map row (col_ids row ! i) = Some (PR_AccessWithNullCheck row i)"
  unfolding row_map_def using assms
  by (intro map_of_is_SomeI) (simp add: fst_row_alist, simp add: row_alist_def)

lemma row_map_None: "row_map row c = None \<longleftrightarrow> c \<notin> set (col_ids row)"
  by (simp add: row_map_def map_of_eq_None_iff flip: fst_row_alist)

lemma dom_row_map: "dom (row_map row) = set (col_ids row)"
  using row_map_None by (auto simp: dom_def)

lemma overwrite_idem: "overwrite (overwrite f row) row = overwrite f row"
  by (rule ext) (simp add: overwrite_def split: option.splits)

text \<open>Writing a row into a slot, and reading a slot into a row.\<close>

lemma copy_row_into_tuple_eq:
  "copy_row_into_tuple row slot mem = slot_attrs.put_all (map (\<lambda>(c, v). ((slot, c), v)) (row_alist row)) mem"
  by (simp add: copy_row_into_tuple_def slot_attrs.put_all_def row_alist_def fold_map comp_def
      CopyAttrFromProjection_def [abs_def] Let_def)

lemma map_of_slot:
  "map_of (map (\<lambda>(c, v). ((slot, c), v)) cvs) (s, c) = (if s = slot then map_of cvs c else None)"
  by (induction cvs) auto

lemma AccessWithNullCheck_copy_row [access_simps]:
  assumes "distinct (col_ids row)"
  shows "AccessWithNullCheck (copy_row_into_tuple row slot mem) s c =
    (if s = slot then overwrite (AccessWithNullCheck mem slot) row c else AccessWithNullCheck mem s c)"
proof -
  have "map fst (map (\<lambda>(c, v). ((slot, c), v)) (row_alist row)) = map (Pair slot) (col_ids row)"
    by (simp add: comp_def case_prod_unfold flip: fst_row_alist)
  then have "distinct (map fst (map (\<lambda>(c, v). ((slot, c), v)) (row_alist row)))"
    using assms by (simp add: distinct_map inj_on_def)
  from slot_attrs.get_put_all [OF this, of mem "(s, c)"] show ?thesis
    by (simp add: copy_row_into_tuple_eq map_of_slot overwrite_def row_map_def split: option.splits)
qed

lemma copy_row_frame [access_simps, frame_simps]:
  "VERSION_POINTER_COLUMN_ID \<notin> set (col_ids row) \<Longrightarrow>
     IsNull (copy_row_into_tuple row slot mem) s VERSION_POINTER_COLUMN_ID = IsNull mem s VERSION_POINTER_COLUMN_ID"
  "Allocated (copy_row_into_tuple row slot mem) s = Allocated mem s"
  "AtomicallyReadVersionPtr (copy_row_into_tuple row slot mem) s = AtomicallyReadVersionPtr mem s"
  "block_header (copy_row_into_tuple row slot mem) b = block_header mem b"
proof -
  have "(VERSION_POINTER_COLUMN_ID \<notin> set (col_ids row) \<longrightarrow>
       IsNull (fold (CopyAttrFromProjection row slot) is mem) s VERSION_POINTER_COLUMN_ID = IsNull mem s VERSION_POINTER_COLUMN_ID)
     \<and> Allocated (fold (CopyAttrFromProjection row slot) is mem) s = Allocated mem s
     \<and> AtomicallyReadVersionPtr (fold (CopyAttrFromProjection row slot) is mem) s = AtomicallyReadVersionPtr mem s
     \<and> block_header (fold (CopyAttrFromProjection row slot) is mem) b = block_header mem b"
    if "\<forall>i \<in> set is. i < PR_NumColumns row" for "is"
    using that
  proof (induction "is" arbitrary: mem)
    case (Cons i "is")
    have "VERSION_POINTER_COLUMN_ID \<notin> set (col_ids row) \<Longrightarrow> VERSION_POINTER_COLUMN_ID \<noteq> col_ids row ! i"
      using Cons.prems by (metis PR_NumColumns_def list.set_intros(1) nth_mem)
    then show ?case
      using Cons by (auto simp: CopyAttrFromProjection_def Let_def access_simps frame_simps)
  qed simp
  from this [of "[0..<PR_NumColumns row]"]
  show "VERSION_POINTER_COLUMN_ID \<notin> set (col_ids row) \<Longrightarrow>
     IsNull (copy_row_into_tuple row slot mem) s VERSION_POINTER_COLUMN_ID = IsNull mem s VERSION_POINTER_COLUMN_ID"
    and "Allocated (copy_row_into_tuple row slot mem) s = Allocated mem s"
    and "AtomicallyReadVersionPtr (copy_row_into_tuple row slot mem) s = AtomicallyReadVersionPtr mem s"
    and "block_header (copy_row_into_tuple row slot mem) b = block_header mem b"
    by (auto simp: copy_row_into_tuple_def)
qed

lemma copy_tuple_into_row:
  "col_ids (copy_tuple_into_row mem slot row) = col_ids row"
  "i < PR_NumColumns row \<Longrightarrow>
     PR_AccessWithNullCheck (copy_tuple_into_row mem slot row) i = AccessWithNullCheck mem slot (col_ids row ! i)"
proof -
  have "col_ids (fold (CopyAttrIntoProjection mem slot) is r) = col_ids r
     \<and> (PR_AccessWithNullCheck (fold (CopyAttrIntoProjection mem slot) is r) i =
         (if i \<in> set is then AccessWithNullCheck mem slot (col_ids r ! i) else PR_AccessWithNullCheck r i))"
    for "is" r
    by (induction "is" arbitrary: r) (auto simp: CopyAttrIntoProjection_def Let_def access_simps)
  then show "col_ids (copy_tuple_into_row mem slot row) = col_ids row"
    and "i < PR_NumColumns row \<Longrightarrow>
     PR_AccessWithNullCheck (copy_tuple_into_row mem slot row) i = AccessWithNullCheck mem slot (col_ids row ! i)"
    by (auto simp: copy_tuple_into_row_def)
qed

section \<open>ApplyDelta\<close>

text \<open>The order that \<open>ProjectedRowInitializer\<close> establishes on projection lists.\<close>

definition sorted_row :: "ProjectedRow \<Rightarrow> bool" where
  "sorted_row row \<longleftrightarrow> sorted_wrt (<) (col_ids row)"

lemma sorted_row_distinct: "sorted_row row \<Longrightarrow> distinct (col_ids row)"
  by (simp add: sorted_row_def strict_sorted_iff)

lemma sorted_row_PR_CopyWithNullCheck [simp]: "sorted_row (PR_CopyWithNullCheck v row i) = sorted_row row"
  by (simp add: sorted_row_def)

lemma sorted_row_less:
  "sorted_row row \<Longrightarrow> i < j \<Longrightarrow> j < PR_NumColumns row \<Longrightarrow> col_ids row ! i < col_ids row ! j"
  by (simp add: sorted_row_def sorted_wrt_iff_nth_less PR_NumColumns_def)

lemma sorted_row_le:
  "sorted_row row \<Longrightarrow> i \<le> j \<Longrightarrow> j < PR_NumColumns row \<Longrightarrow> col_ids row ! i \<le> col_ids row ! j"
  by (metis le_neq_implies_less order.strict_implies_order order_refl sorted_row_less)

lemma col_ids_ApplyDelta_loop: "col_ids (ApplyDelta_loop delta buffer di bi) = col_ids buffer"
proof (induction delta buffer di bi rule: ApplyDelta_loop.induct)
  case (1 delta buffer di bi)
  then show ?case
    by (subst ApplyDelta_loop.simps) (simp add: Let_def)
qed

lemma ApplyDelta_loop_done: "i < bi \<Longrightarrow>
  PR_AccessWithNullCheck (ApplyDelta_loop delta buffer di bi) i = PR_AccessWithNullCheck buffer i"
proof (induction delta buffer di bi rule: ApplyDelta_loop.induct)
  case (1 delta buffer di bi)
  then show ?case
    by (subst ApplyDelta_loop.simps) (simp add: Let_def access_simps)
qed

lemma ApplyDelta_loop_hit:
  assumes "sorted_row delta" "sorted_row buffer" "bi \<le> i" "i < PR_NumColumns buffer"
    "di \<le> j" "j < PR_NumColumns delta" "col_ids delta ! j = col_ids buffer ! i"
  shows "PR_AccessWithNullCheck (ApplyDelta_loop delta buffer di bi) i = PR_AccessWithNullCheck delta j"
  using assms
proof (induction delta buffer di bi rule: ApplyDelta_loop.induct)
  case (1 delta buffer di bi)
  let ?d = "col_ids delta ! di" and ?b = "col_ids buffer ! bi"
  note le = sorted_row_le [OF 1(4) 1(8) 1(9)] sorted_row_le [OF 1(5) 1(6) 1(7)]
  note dj = sorted_row_less [OF 1(4) _ 1(9), of di] and bi = sorted_row_less [OF 1(5) _ 1(7), of bi]
  have lt: "di < PR_NumColumns delta \<and> bi < PR_NumColumns buffer" using 1(6-9) by simp
  consider "?d = ?b" | "?d > ?b" | "?d < ?b" by (rule linorder_cases)
  then show ?case
  proof cases
    case eq: 1
    show ?thesis
    proof (cases "bi = i")
      case True
      then have "j = di" using dj eq 1(8,10) by (metis le_neq_implies_less less_irrefl)
      then show ?thesis using True eq lt
        by (subst ApplyDelta_loop.simps) (simp add: Let_def ApplyDelta_loop_done access_simps)
    next
      case False
      then have "di \<noteq> j" using bi eq 1(6,10) by (metis le_neq_implies_less less_irrefl)
      then show ?thesis using False eq lt 1(4-10)
        by (subst ApplyDelta_loop.simps) (simp add: Let_def 1(1) [OF lt refl refl eq, simplified])
    qed
  next
    case gt: 2
    then have "bi \<noteq> i" using le 1(10) by auto
    moreover have ne: "?d \<noteq> ?b" using gt by auto
    ultimately show ?thesis using gt lt 1(4-10)
      by (subst ApplyDelta_loop.simps) (simp add: Let_def 1(2) [OF lt refl refl ne gt, simplified])
  next
    case ls: 3
    then have "di \<noteq> j" using le 1(10) by auto
    moreover have ne: "?d \<noteq> ?b" "\<not> ?d > ?b" using ls by auto
    ultimately show ?thesis using lt 1(4-10)
      by (subst ApplyDelta_loop.simps) (simp add: Let_def 1(3) [OF lt refl refl ne, simplified])
  qed
qed

lemma ApplyDelta_loop_miss:
  assumes "\<And>j. di \<le> j \<Longrightarrow> j < PR_NumColumns delta \<Longrightarrow> col_ids delta ! j \<noteq> col_ids buffer ! i"
  shows "PR_AccessWithNullCheck (ApplyDelta_loop delta buffer di bi) i = PR_AccessWithNullCheck buffer i"
  using assms
proof (induction delta buffer di bi rule: ApplyDelta_loop.induct)
  case (1 delta buffer di bi)
  then show ?case
    by (subst ApplyDelta_loop.simps) (auto simp: Let_def access_simps)
qed

lemma ApplyDelta_nth:
  assumes "sorted_row delta" "sorted_row buffer" "i < PR_NumColumns buffer"
  shows "PR_AccessWithNullCheck (ApplyDelta delta buffer) i =
    (case row_map delta (col_ids buffer ! i) of Some v \<Rightarrow> v | None \<Rightarrow> PR_AccessWithNullCheck buffer i)"
proof (cases "col_ids buffer ! i \<in> set (col_ids delta)")
  case True
  then obtain j where j: "j < PR_NumColumns delta" "col_ids delta ! j = col_ids buffer ! i"
    by (auto simp: in_set_conv_nth PR_NumColumns_def)
  have "row_map delta (col_ids buffer ! i) = Some (PR_AccessWithNullCheck delta j)"
    using row_map_nth [OF sorted_row_distinct [OF assms(1)] j(1)] j(2) by simp
  then show ?thesis
    using ApplyDelta_loop_hit [OF assms(1,2) _ assms(3) _ j] by (simp add: ApplyDelta_def)
next
  case False
  then have "PR_AccessWithNullCheck (ApplyDelta delta buffer) i = PR_AccessWithNullCheck buffer i"
    unfolding ApplyDelta_def by (intro ApplyDelta_loop_miss) (metis PR_NumColumns_def nth_mem)
  with False row_map_None show ?thesis by (metis option.simps(4))
qed

lemma col_ids_ApplyDelta [simp]: "col_ids (ApplyDelta delta buffer) = col_ids buffer"
  by (simp add: ApplyDelta_def col_ids_ApplyDelta_loop)

end
