(* ===== verification/Timestamps.thy ===== *)
theory Timestamps
  imports Prelude
begin

text \<open>
  \<^verbatim>\<open>transaction/timestamp_manager.{h,cpp}\<close> and \<^verbatim>\<open>transaction/transaction_util.h\<close>: the global
  clock, the set of running transactions, and the two predicates on timestamps that the storage
  layer branches on. Timestamps are 64-bit words; the identifier of a running transaction is its
  start time plus \<open>INT64_MIN\<close>, so the sign bit separates uncommitted from committed versions.
\<close>

section \<open>TransactionUtil\<close>

type_synonym timestamp = u64

definition INT64_MIN :: u64 where
  "INT64_MIN = 2 ^ 63"

definition INVALID_TXN_TIMESTAMP :: timestamp where
  "INVALID_TXN_TIMESTAMP = INT64_MIN"

definition INITIAL_TXN_TIMESTAMP :: timestamp where
  "INITIAL_TXN_TIMESTAMP = 0"

definition NewerThan :: "timestamp \<Rightarrow> timestamp \<Rightarrow> bool" where
  "NewerThan a b \<longleftrightarrow> a > b"

definition Committed :: "timestamp \<Rightarrow> bool" where
  "Committed ts \<longleftrightarrow> sint ts \<ge> 0"

section \<open>TimestampManager\<close>

text \<open>
  \<open>curr_running_txns\<close> is the \<open>unordered_set\<close>, as a list without duplicates.
\<close>

record TimestampManager =
  time :: timestamp
  cached_oldest_txn_start_time :: timestamp
  curr_running_txns :: "timestamp list"

definition init_TimestampManager :: TimestampManager where
  "init_TimestampManager =
     \<lparr>time = INITIAL_TXN_TIMESTAMP, cached_oldest_txn_start_time = INITIAL_TXN_TIMESTAMP,
      curr_running_txns = []\<rparr>"

definition CheckOutTimestamp :: "TimestampManager \<Rightarrow> timestamp \<times> TimestampManager" where
  "CheckOutTimestamp tm = (time tm, tm\<lparr>time := time tm + 1\<rparr>)"

definition CurrentTime :: "TimestampManager \<Rightarrow> timestamp" where
  "CurrentTime tm = time tm"

definition TimestampManager_BeginTransaction :: "TimestampManager \<Rightarrow> timestamp \<times> TimestampManager" where
  "TimestampManager_BeginTransaction tm =
     (time tm,
      tm\<lparr>time := time tm + 1, curr_running_txns := List.insert (time tm) (curr_running_txns tm)\<rparr>)"

definition min_element :: "timestamp list \<Rightarrow> timestamp option" where
  "min_element xs = (case xs of [] \<Rightarrow> None | y # ys \<Rightarrow> Some (fold min ys y))"

definition OldestTransactionStartTime :: "TimestampManager \<Rightarrow> timestamp \<times> TimestampManager" where
  "OldestTransactionStartTime tm =
     (let result = (case min_element (curr_running_txns tm) of Some oldest \<Rightarrow> oldest | None \<Rightarrow> time tm)
      in (result, tm\<lparr>cached_oldest_txn_start_time := result\<rparr>))"

definition CachedOldestTransactionStartTime :: "TimestampManager \<Rightarrow> timestamp" where
  "CachedOldestTransactionStartTime tm = cached_oldest_txn_start_time tm"

definition RemoveTransaction :: "timestamp \<Rightarrow> TimestampManager \<Rightarrow> TimestampManager" where
  "RemoveTransaction ts tm = tm\<lparr>curr_running_txns := remove1 ts (curr_running_txns tm)\<rparr>"

definition RemoveTransactions :: "timestamp list \<Rightarrow> TimestampManager \<Rightarrow> TimestampManager" where
  "RemoveTransactions tss tm = fold RemoveTransaction tss tm"

lemma RemoveTransactions_running:
  "time (RemoveTransactions tss tm) = time tm"
  "set (curr_running_txns (RemoveTransactions tss tm)) \<subseteq> set (curr_running_txns tm)"
  "u \<in> set (curr_running_txns tm) \<Longrightarrow> u \<notin> set tss \<Longrightarrow> u \<in> set (curr_running_txns (RemoveTransactions tss tm))"
proof -
  have "time (RemoveTransactions tss tm) = time tm
    \<and> set (curr_running_txns (RemoveTransactions tss tm)) \<subseteq> set (curr_running_txns tm)
    \<and> (u \<in> set (curr_running_txns tm) \<longrightarrow> u \<notin> set tss \<longrightarrow> u \<in> set (curr_running_txns (RemoveTransactions tss tm)))"
  proof (induction tss arbitrary: tm)
    case (Cons x tss)
    note IH = Cons.IH [of "RemoveTransaction x tm"]
    have "set (curr_running_txns (RemoveTransaction x tm)) \<subseteq> set (curr_running_txns tm)"
      by (simp add: RemoveTransaction_def set_remove1_subset)
    then show ?case using IH by (auto simp: RemoveTransactions_def RemoveTransaction_def)
  qed (simp add: RemoveTransactions_def)
  then show "time (RemoveTransactions tss tm) = time tm"
    "set (curr_running_txns (RemoveTransactions tss tm)) \<subseteq> set (curr_running_txns tm)"
    "u \<in> set (curr_running_txns tm) \<Longrightarrow> u \<notin> set tss \<Longrightarrow> u \<in> set (curr_running_txns (RemoveTransactions tss tm))"
    by blast+
qed

section \<open>Ordering of timestamps\<close>

lemma Committed_iff: "Committed ts \<longleftrightarrow> unat ts < 2 ^ 63"
proof -
  have "sint ts \<ge> 0 \<longleftrightarrow> \<not> bit ts 63"
    by (simp add: sint_uint signed_take_bit_nonnegative_iff bit_uint_iff)
  also have "\<dots> \<longleftrightarrow> unat ts < 2 ^ 63"
  proof
    assume "\<not> bit ts 63"
    have "ts = take_bit 63 ts"
    proof (rule bit_word_eqI)
      fix i assume "i < LENGTH(64)"
      then have "i < 63 \<or> i = 63" by (simp, linarith)
      with \<open>\<not> bit ts 63\<close> show "bit ts i = bit (take_bit 63 ts) i" by (auto simp: bit_take_bit_iff)
    qed
    then have "unat ts = take_bit 63 (unat ts)" by (metis unsigned_take_bit_eq)
    then show "unat ts < 2 ^ 63" by (metis take_bit_nat_less_exp)
  next
    assume "unat ts < 2 ^ 63"
    then have "take_bit 63 (unat ts) = unat ts" by (simp add: take_bit_nat_eq_self_iff)
    then have "\<not> bit (unat ts) 63" by (metis bit_take_bit_iff less_irrefl)
    then show "\<not> bit ts 63" by (simp add: bit_unsigned_iff)
  qed
  finally show ?thesis by (simp add: Committed_def)
qed

definition txn_id :: "timestamp \<Rightarrow> timestamp" where
  "txn_id start = start + INT64_MIN"

lemma unat_txn_id: "Committed start \<Longrightarrow> unat (txn_id start) = unat start + 2 ^ 63"
  by (simp add: txn_id_def INT64_MIN_def Committed_iff unat_word_ariths)

lemma txn_id_uncommitted: "Committed start \<Longrightarrow> \<not> Committed (txn_id start)"
  by (simp add: Committed_iff unat_txn_id)

lemma txn_id_inj: "txn_id s = txn_id t \<longleftrightarrow> s = t"
  by (simp add: txn_id_def)

lemma uncommitted_newer: "\<not> Committed a \<Longrightarrow> Committed b \<Longrightarrow> NewerThan a b"
  by (simp add: Committed_iff NewerThan_def word_less_nat_alt)

lemma uncommitted_ge: "\<not> Committed a \<Longrightarrow> Committed b \<Longrightarrow> b \<le> a"
  by (simp add: Committed_iff word_le_nat_alt)

lemma min_element_le: "x \<in> set xs \<Longrightarrow> \<exists>m. min_element xs = Some m \<and> m \<le> x \<and> m \<in> set xs"
proof -
  have le: "fold min ys (y :: u64) \<le> z \<and> fold min ys y \<in> insert y (set ys)" if "z \<in> insert y (set ys)" for ys y z
    using that
  proof (induction ys arbitrary: y z)
    case (Cons a ys)
    have "fold min ys (min a y) \<le> min a y \<and> fold min ys (min a y) \<in> insert (min a y) (set ys)"
      by (rule Cons.IH) simp
    moreover have "z \<in> set ys \<Longrightarrow> fold min ys (min a y) \<le> z" by (rule conjunct1 [OF Cons.IH]) simp
    ultimately show ?case using Cons.prems
      by (cases "a \<le> y") (auto simp: min_absorb1 min_absorb2 not_le dest!: less_imp_le)
  qed simp
  assume "x \<in> set xs"
  then show ?thesis
    using le [of x "hd xs" "tl xs"] by (cases xs) (auto simp: min_element_def)
qed

lemma OldestTransactionStartTime_le:
  "x \<in> set (curr_running_txns tm) \<Longrightarrow> fst (OldestTransactionStartTime tm) \<le> x"
  using min_element_le [of x "curr_running_txns tm"] by (auto simp: OldestTransactionStartTime_def Let_def)

lemma OldestTransactionStartTime_mem:
  "fst (OldestTransactionStartTime tm) \<in> set (curr_running_txns tm)
   \<or> (curr_running_txns tm = [] \<and> fst (OldestTransactionStartTime tm) = time tm)"
proof (cases "curr_running_txns tm")
  case (Cons x xs)
  then show ?thesis
    using min_element_le [of x "curr_running_txns tm"] by (auto simp: OldestTransactionStartTime_def Let_def)
qed (simp add: OldestTransactionStartTime_def Let_def min_element_def)

end
