(* ===== verification/VersionChain.thy ===== *)
theory VersionChain
  imports ProjectedRow Timestamps
begin

text \<open>
  \<^verbatim>\<open>storage/undo_record.h\<close>: undo records, their heap, and the version chains that \<open>Next\<close>
  pointers form. The chain of a tuple is related to the list of its pointers; undoing a list of
  records is a fold on the value of the tuple, and undoing a list twice is undoing it once, which is
  what makes an aborted record harmless while it is still linked.
\<close>

section \<open>UndoRecord\<close>

datatype DeltaRecordType = UPDATE | INSERT | DELETE

record UndoRecord =
  rec_type :: DeltaRecordType
  rec_next :: undo_ptr
  rec_timestamp :: timestamp
  rec_table :: "nat option"
  rec_slot :: TupleSlot
  rec_delta :: ProjectedRow

type_synonym undo_heap = "nat \<Rightarrow> UndoRecord"

text \<open>\<open>head\<close> is what the reserved memory held before.\<close>

definition InitializeInsert :: "UndoRecord \<Rightarrow> timestamp \<Rightarrow> TupleSlot \<Rightarrow> nat \<Rightarrow> UndoRecord" where
  "InitializeInsert head ts slot table =
     head\<lparr>rec_type := INSERT, rec_next := None, rec_timestamp := ts, rec_table := Some table, rec_slot := slot\<rparr>"

definition InitializeDelete :: "UndoRecord \<Rightarrow> timestamp \<Rightarrow> TupleSlot \<Rightarrow> nat \<Rightarrow> UndoRecord" where
  "InitializeDelete head ts slot table =
     head\<lparr>rec_type := DELETE, rec_next := None, rec_timestamp := ts, rec_table := Some table, rec_slot := slot\<rparr>"

definition InitializeUpdate :: "UndoRecord \<Rightarrow> timestamp \<Rightarrow> TupleSlot \<Rightarrow> nat \<Rightarrow> ProjectedRow \<Rightarrow> UndoRecord" where
  "InitializeUpdate head ts slot table redo =
     head\<lparr>rec_type := UPDATE, rec_next := None, rec_timestamp := ts, rec_table := Some table, rec_slot := slot,
          rec_delta := CopyProjectedRowLayout (rec_delta head) redo\<rparr>"

section \<open>Version chains\<close>

fun chain :: "undo_heap \<Rightarrow> undo_ptr \<Rightarrow> nat list \<Rightarrow> bool" where
  "chain h p [] \<longleftrightarrow> p = None"
| "chain h p (q # qs) \<longleftrightarrow> p = Some q \<and> chain h (rec_next (h q)) qs"

lemma chain_unique: "chain h p ps \<Longrightarrow> chain h p qs \<Longrightarrow> ps = qs"
proof (induction ps arbitrary: p qs)
  case Nil then show ?case by (cases qs) auto
next
  case (Cons q ps) then show ?case by (cases qs) auto
qed

lemma chain_cong:
  "(\<And>q. q \<in> set ps \<Longrightarrow> rec_next (h' q) = rec_next (h q)) \<Longrightarrow> chain h' p ps = chain h p ps"
  by (induction ps arbitrary: p) auto

lemma chain_append: "chain h p (ps @ q # qs) \<Longrightarrow> chain h (Some q) (q # qs)"
  by (induction ps arbitrary: p) auto

lemma chain_distinct: "chain h p ps \<Longrightarrow> distinct ps"
proof (induction ps arbitrary: p)
  case (Cons q ps)
  have "q \<notin> set ps"
  proof
    assume "q \<in> set ps"
    then obtain xs ys where ps: "ps = xs @ q # ys" by (auto dest: split_list)
    then have "chain h (Some q) (q # ys)" using Cons.prems chain_append [of h _ xs q ys] by auto
    then have "q # ys = q # ps" using Cons.prems chain_unique by fastforce
    then show False using ps by simp
  qed
  then show ?case using Cons by auto
qed simp

text \<open>Cutting a chain after one of its records.\<close>

lemma chain_cut:
  assumes "chain h p (ps @ q # qs)"
  shows "chain (h(q := (h q)\<lparr>rec_next := None\<rparr>)) p (ps @ [q])"
proof -
  have "distinct (ps @ q # qs)" by (rule chain_distinct [OF assms])
  then have "q \<notin> set ps" by simp
  then show ?thesis using assms by (induction ps arbitrary: p) auto
qed

section \<open>Values of a tuple\<close>

text \<open>Whether a tuple is visible, and its attributes.\<close>

type_synonym tuple_value = "bool \<times> (col_id \<Rightarrow> bytes option)"

definition undo_value :: "UndoRecord \<Rightarrow> tuple_value \<Rightarrow> tuple_value" where
  "undo_value r v =
     (case rec_type r of
        UPDATE \<Rightarrow> (fst v, overwrite (snd v) (rec_delta r))
      | INSERT \<Rightarrow> (False, snd v)
      | DELETE \<Rightarrow> (True, snd v))"

definition undo_values :: "UndoRecord list \<Rightarrow> tuple_value \<Rightarrow> tuple_value" where
  "undo_values rs v = fold undo_value rs v"

lemma undo_values_simps [simp]:
  "undo_values [] v = v"
  "undo_values (r # rs) v = undo_values rs (undo_value r v)"
  "undo_values (rs @ ss) v = undo_values ss (undo_values rs v)"
  by (simp_all add: undo_values_def)

text \<open>Each component of the result is a constant or what it was, so undoing is idempotent.\<close>

lemma undo_value_fst: "(\<forall>v. fst (undo_value r v) = fst v) \<or> (\<exists>b. \<forall>v. fst (undo_value r v) = b)"
  by (cases "rec_type r") (auto simp: undo_value_def)

lemma undo_value_snd: "(\<forall>v. snd (undo_value r v) c = snd v c) \<or> (\<exists>x. \<forall>v. snd (undo_value r v) c = x)"
  by (cases "rec_type r"; cases "row_map (rec_delta r) c") (simp_all add: undo_value_def overwrite_def)

lemma undo_values_fst:
  "(\<forall>v. fst (undo_values rs v) = fst v) \<or> (\<exists>b. \<forall>v. fst (undo_values rs v) = b)"
proof (induction rs)
  case (Cons r rs) then show ?case using undo_value_fst [of r]
    by (auto simp del: split_paired_All split_paired_Ex)
qed simp

lemma undo_values_snd:
  "(\<forall>v. snd (undo_values rs v) c = snd v c) \<or> (\<exists>x. \<forall>v. snd (undo_values rs v) c = x)"
proof (induction rs)
  case (Cons r rs) then show ?case using undo_value_snd [of r c]
    by (auto simp del: split_paired_All split_paired_Ex)
qed simp

lemma undo_values_idem: "undo_values rs (undo_values rs v) = undo_values rs v"
proof (rule prod_eqI)
  show "fst (undo_values rs (undo_values rs v)) = fst (undo_values rs v)"
    using undo_values_fst [of rs] by (auto simp del: split_paired_All split_paired_Ex)
  show "snd (undo_values rs (undo_values rs v)) = snd (undo_values rs v)"
  proof
    fix c
    show "snd (undo_values rs (undo_values rs v)) c = snd (undo_values rs v) c"
      using undo_values_snd [of rs c] by (auto simp del: split_paired_All split_paired_Ex)
  qed
qed

text \<open>What a reader that started at \<open>start\<close> undoes, and the value it sees.\<close>

definition newer :: "timestamp \<Rightarrow> UndoRecord list \<Rightarrow> UndoRecord list" where
  "newer start rs = takeWhile (\<lambda>r. NewerThan (rec_timestamp r) start) rs"

definition read_value :: "timestamp \<Rightarrow> timestamp \<Rightarrow> UndoRecord list \<Rightarrow> tuple_value \<Rightarrow> tuple_value" where
  "read_value tid start rs v =
     (if rs = [] \<or> rec_timestamp (hd rs) = tid then v else undo_values (newer start rs) v)"

text \<open>The committed value: the records of the transaction that holds the write lock undone.\<close>

definition committed_value :: "UndoRecord list \<Rightarrow> tuple_value \<Rightarrow> tuple_value" where
  "committed_value rs v = undo_values (takeWhile (\<lambda>r. \<not> Committed (rec_timestamp r)) rs) v"

lemma takeWhile_cong_map:
  "(\<And>x. x \<in> set xs \<Longrightarrow> P (f x) = Q (g x)) \<Longrightarrow>
   map g (takeWhile (Q \<circ> g) xs) = map g (takeWhile (P \<circ> f) xs)"
  by (induction xs) auto

section \<open>Reads and the changes of a chain\<close>

text \<open>
  An insert is the oldest record of its tuple, and uncommitted records belong to the transaction at
  the head of the chain.
\<close>

definition chain_ok :: "UndoRecord list \<Rightarrow> bool" where
  "chain_ok rs \<longleftrightarrow> sorted_wrt (\<lambda>r r'. rec_type r \<noteq> INSERT \<and> rec_timestamp r' \<le> rec_timestamp r
     \<and> (\<not> Committed (rec_timestamp r') \<longrightarrow> rec_timestamp r' = rec_timestamp r)) rs"

lemma chain_ok_simps [simp]:
  "chain_ok []"
  "chain_ok (r # rs) \<longleftrightarrow> chain_ok rs \<and> (\<forall>r' \<in> set rs. rec_type r \<noteq> INSERT \<and> rec_timestamp r' \<le> rec_timestamp r
     \<and> (\<not> Committed (rec_timestamp r') \<longrightarrow> rec_timestamp r' = rec_timestamp r))"
  by (auto simp: chain_ok_def)

lemma chain_ok_takeWhile: "chain_ok rs \<Longrightarrow> chain_ok (takeWhile P rs)"
proof (induction rs)
  case (Cons r rs) then show ?case by (auto dest: set_takeWhileD)
qed simp

lemma chain_ok_uncommitted:
  "chain_ok rs \<Longrightarrow> rs \<noteq> [] \<Longrightarrow> r \<in> set rs \<Longrightarrow> \<not> Committed (rec_timestamp r) \<Longrightarrow> rec_timestamp (hd rs) = rec_timestamp r"
  by (cases rs) auto

lemma chain_ok_hd: "chain_ok rs \<Longrightarrow> r \<in> set rs \<Longrightarrow> rec_timestamp r \<le> rec_timestamp (hd rs)"
  by (cases rs) auto

lemma chain_ok_dropped:
  assumes "chain_ok rs" and "r \<in> set rs" and "r \<notin> set (takeWhile (\<lambda>r. \<not> NewerThan oldest (rec_timestamp r)) rs)"
  shows "NewerThan oldest (rec_timestamp r)"
  using assms
proof (induction rs)
  case (Cons r0 rs)
  then show ?case by (auto simp: NewerThan_def split: if_splits)
qed simp

lemma chain_ok_insert_last: "chain_ok rs \<Longrightarrow> r \<in> set rs \<Longrightarrow> rec_type r = INSERT \<Longrightarrow> last rs = r"
proof (induction rs)
  case (Cons r0 rs) then show ?case by (cases rs) auto
qed simp

lemma read_push:
  assumes "rec_timestamp r \<noteq> tid" and "NewerThan (rec_timestamp r) start" and "rs = [] \<or> rec_timestamp (hd rs) \<noteq> tid"
  shows "read_value tid start (r # rs) v = read_value tid start rs (undo_value r v)"
  using assms by (auto simp: read_value_def newer_def)

lemma read_retime:
  assumes "\<And>p. p \<in> set ps \<Longrightarrow> undo_value (h' p) = undo_value (h p)"
    and "\<And>p. p \<in> set ps \<Longrightarrow> NewerThan (rec_timestamp (h' p)) start = NewerThan (rec_timestamp (h p)) start"
    and "\<And>p. p \<in> set ps \<Longrightarrow> rec_timestamp (h' p) = tid \<longleftrightarrow> rec_timestamp (h p) = tid"
  shows "read_value tid start (map h' ps) v = read_value tid start (map h ps) v"
proof -
  have "undo_values (newer start (map h' ps)) v = undo_values (newer start (map h ps)) v"
    using assms(1,2) by (induction ps arbitrary: v) (auto simp: newer_def)
  then show ?thesis using assms(3) by (cases ps) (auto simp: read_value_def)
qed

lemma takeWhile_newer_append:
  assumes "\<And>r. r \<in> set rs \<Longrightarrow> P r \<Longrightarrow> Q r"
  shows "takeWhile Q rs = takeWhile P rs @ takeWhile Q (dropWhile P rs)"
  using assms by (induction rs) auto

text \<open>Undoing the records of the writer once more does not change what others read.\<close>

lemma read_rollback:
  assumes "NewerThan u start" and "u \<noteq> tid" and "rs \<noteq> []" and "rec_timestamp (hd rs) = u"
  shows "read_value tid start rs (undo_values (takeWhile (\<lambda>r. rec_timestamp r = u) rs) v) = read_value tid start rs v"
proof -
  have "newer start rs = takeWhile (\<lambda>r. rec_timestamp r = u) rs @ newer start (dropWhile (\<lambda>r. rec_timestamp r = u) rs)"
    unfolding newer_def using assms(1) by (intro takeWhile_newer_append) auto
  then show ?thesis using assms by (simp add: read_value_def undo_values_idem)
qed

lemma read_truncate:
  assumes "oldest \<le> start" and "\<not> Committed tid" and "Committed oldest"
  shows "read_value tid start (takeWhile (\<lambda>r. \<not> NewerThan oldest (rec_timestamp r)) rs) v = read_value tid start rs v"
proof -
  let ?Q = "\<lambda>r. \<not> NewerThan oldest (rec_timestamp r)"
  have "newer start (takeWhile ?Q rs) = newer start rs"
    using assms(1) by (induction rs) (auto simp: newer_def NewerThan_def)
  moreover have "?Q r" if "rec_timestamp r = tid" for r
    using that assms(2,3) uncommitted_newer [of tid oldest] by (auto simp: NewerThan_def)
  moreover have "newer start rs = []" if "rs \<noteq> []" "\<not> ?Q (hd rs)"
    using that assms(1) by (cases rs) (auto simp: newer_def NewerThan_def)
  ultimately show ?thesis by (cases rs) (auto simp: read_value_def)
qed

lemma committed_push:
  "\<not> Committed (rec_timestamp r) \<Longrightarrow> committed_value (r # rs) v = committed_value rs (undo_value r v)"
  by (simp add: committed_value_def)

lemma committed_all: "(\<forall>r \<in> set rs. Committed (rec_timestamp r)) \<Longrightarrow> committed_value rs v = v"
  by (cases rs) (auto simp: committed_value_def)

lemma committed_own:
  assumes "chain_ok rs" and "rs \<noteq> []" and "rec_timestamp (hd rs) = u" and "\<not> Committed u"
  shows "committed_value rs v = undo_values (takeWhile (\<lambda>r. rec_timestamp r = u) rs) v"
proof -
  have "takeWhile (\<lambda>r. \<not> Committed (rec_timestamp r)) rs = takeWhile (\<lambda>r. rec_timestamp r = u) rs"
  proof (rule takeWhile_cong)
    fix r assume "r \<in> set rs"
    then show "(\<not> Committed (rec_timestamp r)) = (rec_timestamp r = u)"
      using assms(3,4) chain_ok_uncommitted [OF assms(1,2), of r] by metis
  qed simp
  then show ?thesis by (simp add: committed_value_def)
qed

lemma committed_retime:
  assumes "\<And>p. p \<in> set ps \<Longrightarrow> undo_value (h' p) = undo_value (h p)"
    and "\<And>p. p \<in> set ps \<Longrightarrow> Committed (rec_timestamp (h' p)) = Committed (rec_timestamp (h p))"
  shows "committed_value (map h' ps) v = committed_value (map h ps) v"
  unfolding committed_value_def using assms by (induction ps arbitrary: v) auto

lemma committed_truncate:
  assumes "Committed oldest"
  shows "committed_value (takeWhile (\<lambda>r. \<not> NewerThan oldest (rec_timestamp r)) rs) v = committed_value rs v"
proof -
  have "Committed ts" if "NewerThan oldest ts" for ts
    using that assms uncommitted_newer [of ts oldest] less_asym [of ts oldest] by (auto simp: NewerThan_def)
  then have "takeWhile (\<lambda>r. \<not> Committed (rec_timestamp r)) (takeWhile (\<lambda>r. \<not> NewerThan oldest (rec_timestamp r)) rs)
      = takeWhile (\<lambda>r. \<not> Committed (rec_timestamp r)) rs"
    by (induction rs) auto
  then show ?thesis by (simp add: committed_value_def)
qed

lemma undo_value_retime [simp]: "undo_value (r\<lparr>rec_timestamp := ts\<rparr>) = undo_value r"
  by (simp add: fun_eq_iff undo_value_def split: DeltaRecordType.splits)

end
