(* ===== verification/DeferredActions.thy ===== *)
theory DeferredActions
  imports Timestamps "HOL-Library.Sublist"
begin

text \<open>
  \<^verbatim>\<open>transaction/deferred_action_manager.h\<close>: the two queues of deferred actions and the processing
  that the garbage collector triggers. A deferred action is an identifier; running it may register
  further actions, which the parameter \<open>exec\<close> gives. The manager also carries the list of actions it
  has run, with the epoch they ran in, which the code does not store and the results are about.
\<close>

section \<open>DeferredActionManager\<close>

type_synonym deferred_action = nat

record DeferredActionManager =
  new_deferred_actions :: "(timestamp \<times> deferred_action) list"
  back_log :: "(timestamp \<times> deferred_action) list"
  executed :: "((timestamp \<times> deferred_action) \<times> timestamp) list"

definition init_DeferredActionManager :: DeferredActionManager where
  "init_DeferredActionManager = \<lparr>new_deferred_actions = [], back_log = [], executed = []\<rparr>"

text \<open>\<open>now\<close> is \<open>timestamp_manager_->CurrentTime()\<close>.\<close>

definition RegisterDeferredAction ::
  "timestamp \<Rightarrow> deferred_action \<Rightarrow> DeferredActionManager \<Rightarrow> timestamp \<times> DeferredActionManager" where
  "RegisterDeferredAction now a dam =
     (let result = now in (result, dam\<lparr>new_deferred_actions := new_deferred_actions dam @ [(result, a)]\<rparr>))"

definition run_action ::
  "(deferred_action \<Rightarrow> timestamp \<Rightarrow> deferred_action list) \<Rightarrow> timestamp \<Rightarrow> timestamp
     \<Rightarrow> timestamp \<times> deferred_action \<Rightarrow> DeferredActionManager \<Rightarrow> DeferredActionManager" where
  "run_action exec now oldest_txn ta dam =
     fold (\<lambda>a dam. snd (RegisterDeferredAction now a dam)) (exec (snd ta) oldest_txn)
       (dam\<lparr>executed := executed dam @ [(ta, oldest_txn)]\<rparr>)"

text \<open>
  The loop that both \<open>ClearBacklog\<close> and \<open>ProcessNewActions\<close> run over a queue: how many actions ran,
  and what is left of the queue.
\<close>

fun process_queue ::
  "(deferred_action \<Rightarrow> timestamp \<Rightarrow> deferred_action list) \<Rightarrow> timestamp \<Rightarrow> timestamp
     \<Rightarrow> (timestamp \<times> deferred_action) list \<Rightarrow> DeferredActionManager
     \<Rightarrow> u32 \<times> (timestamp \<times> deferred_action) list \<times> DeferredActionManager" where
  "process_queue exec now oldest_txn [] dam = (0, [], dam)"
| "process_queue exec now oldest_txn (ta # queue) dam =
     (if oldest_txn \<ge> fst ta then
        (case process_queue exec now oldest_txn queue (run_action exec now oldest_txn ta dam) of
           (processed, rest, dam') \<Rightarrow> (processed + 1, rest, dam'))
      else (0, ta # queue, dam))"

definition ClearBacklog ::
  "(deferred_action \<Rightarrow> timestamp \<Rightarrow> deferred_action list) \<Rightarrow> timestamp \<Rightarrow> timestamp
     \<Rightarrow> DeferredActionManager \<Rightarrow> u32 \<times> DeferredActionManager" where
  "ClearBacklog exec now oldest_txn dam =
     (case process_queue exec now oldest_txn (back_log dam) dam of
        (processed, rest, dam') \<Rightarrow> (processed, dam'\<lparr>back_log := rest\<rparr>))"

definition ProcessNewActions ::
  "(deferred_action \<Rightarrow> timestamp \<Rightarrow> deferred_action list) \<Rightarrow> timestamp \<Rightarrow> timestamp
     \<Rightarrow> DeferredActionManager \<Rightarrow> u32 \<times> DeferredActionManager" where
  "ProcessNewActions exec now oldest_txn dam =
     (let new_actions_local = new_deferred_actions dam
      in case process_queue exec now oldest_txn new_actions_local (dam\<lparr>new_deferred_actions := []\<rparr>) of
           (processed, rest, dam') \<Rightarrow> (processed, dam'\<lparr>back_log := back_log dam' @ rest\<rparr>))"

definition Process ::
  "(deferred_action \<Rightarrow> timestamp \<Rightarrow> deferred_action list) \<Rightarrow> timestamp \<Rightarrow> timestamp
     \<Rightarrow> DeferredActionManager \<Rightarrow> u32 \<times> DeferredActionManager" where
  "Process exec now oldest_txn dam =
     (let backlog_size = of_nat (length (back_log dam))
      in case ClearBacklog exec now oldest_txn dam of
           (processed, dam') \<Rightarrow>
             if backlog_size \<noteq> processed then (processed, dam')
             else
               case ProcessNewActions exec now oldest_txn dam' of
                 (processed', dam'') \<Rightarrow> (processed + processed', dam''))"

section \<open>Order of execution\<close>

lemma run_action_simps:
  "back_log (run_action exec now oldest ta dam) = back_log dam"
  "executed (run_action exec now oldest ta dam) = executed dam @ [(ta, oldest)]"
  "new_deferred_actions (run_action exec now oldest ta dam) =
     new_deferred_actions dam @ map (Pair now) (exec (snd ta) oldest)"
proof -
  have "back_log (fold (\<lambda>a dam. snd (RegisterDeferredAction now a dam)) as d) = back_log d
    \<and> executed (fold (\<lambda>a dam. snd (RegisterDeferredAction now a dam)) as d) = executed d
    \<and> new_deferred_actions (fold (\<lambda>a dam. snd (RegisterDeferredAction now a dam)) as d)
        = new_deferred_actions d @ map (Pair now) as" for as d
    by (induction as arbitrary: d) (simp_all add: RegisterDeferredAction_def Let_def)
  then show "back_log (run_action exec now oldest ta dam) = back_log dam"
    and "executed (run_action exec now oldest ta dam) = executed dam @ [(ta, oldest)]"
    and "new_deferred_actions (run_action exec now oldest ta dam) =
       new_deferred_actions dam @ map (Pair now) (exec (snd ta) oldest)"
    by (simp_all add: run_action_def)
qed

text \<open>The loop runs the longest prefix of the queue that is due, in order.\<close>

lemma process_queue_eq:
  assumes "process_queue exec now oldest q dam = (processed, rest, dam')"
  defines "due \<equiv> takeWhile (\<lambda>ta. fst ta \<le> oldest) q"
  shows "processed = of_nat (length due)" and "q = due @ rest" and "rest = dropWhile (\<lambda>ta. fst ta \<le> oldest) q"
    and "back_log dam' = back_log dam"
    and "executed dam' = executed dam @ map (\<lambda>ta. (ta, oldest)) due"
    and "new_deferred_actions dam' =
           new_deferred_actions dam @ map (Pair now) (concat (map (\<lambda>ta. exec (snd ta) oldest) due))"
proof -
  have "processed = of_nat (length due) \<and> rest = dropWhile (\<lambda>ta. fst ta \<le> oldest) q
    \<and> back_log dam' = back_log dam \<and> executed dam' = executed dam @ map (\<lambda>ta. (ta, oldest)) due
    \<and> new_deferred_actions dam' =
        new_deferred_actions dam @ map (Pair now) (concat (map (\<lambda>ta. exec (snd ta) oldest) due))"
    using assms(1) unfolding due_def
  proof (induction q arbitrary: dam processed)
    case (Cons ta q)
    then show ?case
      by (fastforce simp: run_action_simps split: if_splits prod.splits)
  qed simp
  then show "processed = of_nat (length due)" and "rest = dropWhile (\<lambda>ta. fst ta \<le> oldest) q"
    and "back_log dam' = back_log dam" and "executed dam' = executed dam @ map (\<lambda>ta. (ta, oldest)) due"
    and "new_deferred_actions dam' =
        new_deferred_actions dam @ map (Pair now) (concat (map (\<lambda>ta. exec (snd ta) oldest) due))"
    by blast+
  then show "q = due @ rest" by (simp add: due_def)
qed

text \<open>All actions that were ever registered, in the order they run in.\<close>

definition schedule :: "DeferredActionManager \<Rightarrow> (timestamp \<times> deferred_action) list" where
  "schedule dam = map fst (executed dam) @ back_log dam @ new_deferred_actions dam"

lemma process_queueE:
  assumes "process_queue exec now oldest q dam = (processed, rest, dam')"
  obtains due as where "processed = of_nat (length due)" and "q = due @ rest" and "\<forall>ta \<in> set due. fst ta \<le> oldest"
    and "back_log dam' = back_log dam" and "executed dam' = executed dam @ map (\<lambda>ta. (ta, oldest)) due"
    and "new_deferred_actions dam' = new_deferred_actions dam @ map (Pair now) as"
proof -
  note e = process_queue_eq [OF assms]
  have "\<forall>ta \<in> set (takeWhile (\<lambda>ta. fst ta \<le> oldest) q). fst ta \<le> oldest" by (auto dest: set_takeWhileD)
  then show ?thesis by (rule that [OF e(1,2) _ e(4,5,6)])
qed

lemma Process_extends:
  assumes "length (back_log dam) < 2 ^ 32"
  shows "\<exists>as ran. schedule (snd (Process exec now oldest dam)) = schedule dam @ map (Pair now) as
    \<and> executed (snd (Process exec now oldest dam)) = executed dam @ map (\<lambda>ta. (ta, oldest)) ran
    \<and> (\<forall>ta \<in> set ran. fst ta \<le> oldest)"
proof -
  obtain n rest d where p: "process_queue exec now oldest (back_log dam) dam = (n, rest, d)" by (metis prod_cases3)
  obtain due as where e: "n = of_nat (length due)" "back_log dam = due @ rest" "\<forall>ta \<in> set due. fst ta \<le> oldest"
      "back_log d = back_log dam" "executed d = executed dam @ map (\<lambda>ta. (ta, oldest)) due"
      "new_deferred_actions d = new_deferred_actions dam @ map (Pair now) as"
    by (rule process_queueE [OF p])
  have c: "ClearBacklog exec now oldest dam = (n, d\<lparr>back_log := rest\<rparr>)" using p by (simp add: ClearBacklog_def)
  show ?thesis
  proof (cases "of_nat (length (back_log dam)) = n")
    case False
    then have "snd (Process exec now oldest dam) = d\<lparr>back_log := rest\<rparr>" using c by (simp add: Process_def)
    then show ?thesis
      using e by (intro exI [of _ as] exI [of _ due]) (simp add: schedule_def comp_def)
  next
    case True
    have "length due \<le> length (back_log dam)" using e(2) by simp
    then have "unat (of_nat (length due) :: u32) = length due"
        "unat (of_nat (length (back_log dam)) :: u32) = length (back_log dam)"
      using assms by (simp_all add: unat_of_nat take_bit_nat_eq_self)
    then have "length due = length (back_log dam)" using True e(1) by metis
    then have clear: "rest = []" using e(2) by simp
    let ?d = "d\<lparr>back_log := []\<rparr>"
    obtain m rest2 d2 where p2: "process_queue exec now oldest (new_deferred_actions ?d) (?d\<lparr>new_deferred_actions := []\<rparr>) = (m, rest2, d2)"
      by (metis prod_cases3)
    obtain due2 as2 where "m = of_nat (length due2)" "new_deferred_actions ?d = due2 @ rest2"
        "\<forall>ta \<in> set due2. fst ta \<le> oldest" "back_log d2 = back_log (?d\<lparr>new_deferred_actions := []\<rparr>)"
        "executed d2 = executed (?d\<lparr>new_deferred_actions := []\<rparr>) @ map (\<lambda>ta. (ta, oldest)) due2"
        "new_deferred_actions d2 = new_deferred_actions (?d\<lparr>new_deferred_actions := []\<rparr>) @ map (Pair now) as2"
      by (rule process_queueE [OF p2])
    then have e2: "new_deferred_actions d = due2 @ rest2" "\<forall>ta \<in> set due2. fst ta \<le> oldest"
        "back_log d2 = []" "executed d2 = executed d @ map (\<lambda>ta. (ta, oldest)) due2"
        "new_deferred_actions d2 = map (Pair now) as2"
      by simp_all
    have r: "snd (Process exec now oldest dam) = d2\<lparr>back_log := rest2\<rparr>"
      using True c p2 clear e2(3) by (simp add: Process_def ProcessNewActions_def Let_def)
    have "due2 @ rest2 = new_deferred_actions dam @ map (Pair now) as" using e(6) e2(1) by simp
    then show ?thesis
      using e(2,3,5) clear e2(2,4,5)
      by (intro exI [of _ "as @ as2"] exI [of _ "due @ due2"]) (auto simp: r schedule_def comp_def)
  qed
qed

section \<open>Histories\<close>

text \<open>
  Registration and processing under a clock that never goes back; \<open>oldest\<close> is the start time of the
  oldest running transaction, at most the current time.
\<close>

inductive dam_step ::
  "(deferred_action \<Rightarrow> timestamp \<Rightarrow> deferred_action list) \<Rightarrow>
     timestamp \<times> DeferredActionManager \<Rightarrow> timestamp \<times> DeferredActionManager \<Rightarrow> bool" for exec where
  step_register: "dam_step exec (now, dam) (now, snd (RegisterDeferredAction now a dam))"
| step_tick: "now \<le> now' \<Longrightarrow> dam_step exec (now, dam) (now', dam)"
| step_process: "\<lbrakk>oldest \<le> now; length (back_log dam) < 2 ^ 32\<rbrakk>
    \<Longrightarrow> dam_step exec (now, dam) (now, snd (Process exec now oldest dam))"

definition dam_inv :: "timestamp \<times> DeferredActionManager \<Rightarrow> bool" where
  "dam_inv s \<longleftrightarrow>
     (case s of (now, dam) \<Rightarrow>
        sorted (map fst (schedule dam)) \<and> (\<forall>ta \<in> set (schedule dam). fst ta \<le> now)
        \<and> (\<forall>(ta, oldest) \<in> set (executed dam). fst ta \<le> oldest))"

lemma dam_inv_step: "dam_step exec s t \<Longrightarrow> dam_inv s \<Longrightarrow> dam_inv t"
proof (induction rule: dam_step.induct)
  case (step_register now dam a)
  then show ?case
    by (auto simp: dam_inv_def RegisterDeferredAction_def Let_def schedule_def sorted_append)
next
  case (step_tick now now' dam)
  then show ?case by (fastforce simp: dam_inv_def)
next
  case (step_process oldest now dam)
  obtain as ran where
    "schedule (snd (Process exec now oldest dam)) = schedule dam @ map (Pair now) as"
    "executed (snd (Process exec now oldest dam)) = executed dam @ map (\<lambda>ta. (ta, oldest)) ran"
    "\<forall>ta \<in> set ran. fst ta \<le> oldest"
    using Process_extends [OF step_process(2)] by blast
  then show ?case
    using step_process(3) by (auto simp: dam_inv_def sorted_append comp_def map_replicate_const)
qed

lemma dam_step_prefix:
  "dam_step exec s t \<Longrightarrow>
   prefix (schedule (snd s)) (schedule (snd t)) \<and> prefix (executed (snd s)) (executed (snd t))"
proof (induction rule: dam_step.induct)
  case (step_register now dam a)
  then show ?case by (simp add: RegisterDeferredAction_def Let_def schedule_def)
next
  case (step_process oldest now dam)
  then show ?case using Process_extends [OF step_process(2)] by (metis prefixI snd_conv)
qed simp

lemma dam_steps_prefix:
  "(dam_step exec)\<^sup>*\<^sup>* s t \<Longrightarrow>
   prefix (schedule (snd s)) (schedule (snd t)) \<and> prefix (executed (snd s)) (executed (snd t))"
  by (induction rule: rtranclp_induct) (auto dest: dam_step_prefix intro: prefix_order.trans)

lemma dam_inv_reachable:
  assumes "(dam_step exec)\<^sup>*\<^sup>* (now0, init_DeferredActionManager) s"
  shows "dam_inv s"
  using assms
proof (induction rule: rtranclp_induct)
  case base
  show ?case by (simp add: dam_inv_def schedule_def init_DeferredActionManager_def)
qed (auto intro: dam_inv_step)

text \<open>
  C26. Deferred actions run in the order they were registered, none is lost or run twice, and none runs
  before its epoch. The actions that ran, the backlog and the new actions together are one list,
  ordered by registration time, that later registrations only extend at the end, while processing
  only extends the part that ran. Each action ran in a call of \<open>Process\<close> whose oldest running
  transaction started no earlier than the registration, also when running actions register more
  actions.
\<close>

theorem deferred_actions_in_order:
  assumes "(dam_step exec)\<^sup>*\<^sup>* (now0, init_DeferredActionManager) (now, dam)"
    and "(dam_step exec)\<^sup>*\<^sup>* (now, dam) (now', dam')"
  shows "prefix (schedule dam) (schedule dam') \<and> prefix (executed dam) (executed dam')
    \<and> sorted (map fst (schedule dam'))
    \<and> list_all (\<lambda>(ta, oldest). fst ta \<le> oldest) (executed dam')"
proof -
  have "dam_inv (now', dam')"
    using assms by (intro dam_inv_reachable) (rule rtranclp_trans)
  then show ?thesis
    using dam_steps_prefix [OF assms(2)] by (auto simp: dam_inv_def list_all_iff)
qed

text \<open>Action 7 registers action 8 when it runs; 8 waits for the next epoch.\<close>

theorem deferred_actions_in_order_witness:
  "let exec = (\<lambda>a oldest. if a = 7 then [8] else []);
       dam = snd (RegisterDeferredAction 3 7 init_DeferredActionManager);
       dam' = snd (Process exec 5 4 dam)
   in list_all (\<lambda>(ta, oldest). fst ta \<le> oldest) (executed dam') \<and> schedule dam' = [(3, 7), (5, 8)]"
proof -
  let ?exec = "\<lambda>a (oldest :: timestamp). if a = 7 then [8] else []"
  let ?dam = "snd (RegisterDeferredAction 3 7 init_DeferredActionManager)"
  have "dam_step ?exec (3, init_DeferredActionManager) (3, ?dam)" by (rule step_register)
  moreover have "dam_step ?exec (3, ?dam) (5, ?dam)" by (rule step_tick) simp
  moreover have "dam_step ?exec (5, ?dam) (5, snd (Process ?exec 5 4 ?dam))"
    by (rule step_process) (simp_all add: RegisterDeferredAction_def init_DeferredActionManager_def)
  ultimately have "(dam_step ?exec)\<^sup>*\<^sup>* (3, init_DeferredActionManager) (5, snd (Process ?exec 5 4 ?dam))"
    by (meson converse_rtranclp_into_rtranclp r_into_rtranclp)
  from deferred_actions_in_order [OF this rtranclp.rtrancl_refl]
  have "list_all (\<lambda>(ta, oldest). fst ta \<le> oldest) (executed (snd (Process ?exec 5 4 ?dam)))" by blast
  moreover have "schedule (snd (Process ?exec 5 4 ?dam)) = [(3, 7), (5, 8)]"
    by (simp add: schedule_def Process_def ClearBacklog_def ProcessNewActions_def RegisterDeferredAction_def
        init_DeferredActionManager_def run_action_def)
  ultimately show ?thesis by (simp add: Let_def)
qed

end
