(* ===== verification/TransactionContext.thy ===== *)
theory TransactionContext
  imports VersionChain DeferredActions
begin

text \<open>
  \<^verbatim>\<open>transaction/transaction_context.h\<close> with the log records of
  \<^verbatim>\<open>storage/write_ahead_log/log_record.h\<close> and the \<open>RedoBuffer\<close> of
  \<^verbatim>\<open>storage/record_buffer.{h,cpp}\<close>. A record is identified with its contents plus the bytes it
  takes in its segment. The undo records of a transaction live in the undo heap; the undo buffer is
  the list of their pointers in the order that its iterator visits them.
\<close>

section \<open>Log records\<close>

text \<open>
  Redo and delete records carry the database, the table and the slot, a redo record also the row; a
  commit record carries the commit time, the oldest active transaction and whether it is read-only.
\<close>

datatype LogRecordBody =
    RedoRecord u32 u32 TupleSlot ProjectedRow
  | DeleteRecord u32 u32 TupleSlot
  | CommitRecord timestamp timestamp bool
  | AbortRecord

record LogRecord =
  log_txn_begin :: timestamp
  log_body :: LogRecordBody

text \<open>
  \<open>sizeof(LogRecord)\<close>, \<open>sizeof(RedoRecord)\<close>, \<open>sizeof(DeleteRecord)\<close> and \<open>sizeof(AbortRecord)\<close> are 16,
  \<open>sizeof(CommitRecord)\<close> is 56.
\<close>

definition LogRecord_Size :: "LogRecord \<Rightarrow> u32" where
  "LogRecord_Size r =
     (case log_body r of
        RedoRecord _ _ _ delta \<Rightarrow> 16 + 16 + pr_size delta
      | DeleteRecord _ _ _ \<Rightarrow> 16 + 16
      | CommitRecord _ _ _ \<Rightarrow> 16 + 56
      | AbortRecord \<Rightarrow> 16 + 16)"

section \<open>RedoBuffer\<close>

text \<open>
  \<open>redo_seg\<close> is \<open>buffer_seg_\<close> (\<open>None\<close> for \<open>nullptr\<close>): the records of the current segment and the
  bytes used. \<open>last_record\<close> is the record at \<open>last_record_\<close>, which a \<open>Reset\<close> does not change. The pool
  of segments is taken never to reach its limit: the exception of its \<open>Get\<close> is not represented, here and
  for undo buffers. Full segments go to the flush queue of the log manager, a list of segments, when
  logging is enabled, and back to the pool otherwise.
\<close>

record RedoBuffer =
  redo_seg :: "(LogRecord list \<times> u32) option"
  last_record :: "LogRecord option"
  has_flushed :: bool

type_synonym flush_queue = "LogRecord list list"

definition BUFFER_SEGMENT_SIZE :: u32 where
  "BUFFER_SEGMENT_SIZE = 4096"

definition HasBytesLeft :: "u32 \<Rightarrow> u32 \<Rightarrow> bool" where
  "HasBytesLeft used sz \<longleftrightarrow> used + sz \<le> BUFFER_SEGMENT_SIZE"

definition RedoBuffer_NewEntry ::
  "bool \<Rightarrow> LogRecord \<Rightarrow> RedoBuffer \<Rightarrow> flush_queue \<Rightarrow> RedoBuffer \<times> flush_queue" where
  "RedoBuffer_NewEntry log_enabled r rb q =
     (case redo_seg rb of
        None \<Rightarrow> (rb\<lparr>redo_seg := Some ([r], LogRecord_Size r), last_record := Some r\<rparr>, q)
      | Some (recs, used) \<Rightarrow>
          if \<not> HasBytesLeft used (LogRecord_Size r) then
            if log_enabled
            then (rb\<lparr>redo_seg := Some ([r], LogRecord_Size r), last_record := Some r, has_flushed := True\<rparr>, q @ [recs])
            else (rb\<lparr>redo_seg := Some ([r], LogRecord_Size r), last_record := Some r\<rparr>, q)
          else (rb\<lparr>redo_seg := Some (recs @ [r], used + LogRecord_Size r), last_record := Some r\<rparr>, q))"

definition RedoBuffer_Finalize :: "bool \<Rightarrow> bool \<Rightarrow> RedoBuffer \<Rightarrow> flush_queue \<Rightarrow> RedoBuffer \<times> flush_queue" where
  "RedoBuffer_Finalize log_enabled flush_buffer rb q =
     (case redo_seg rb of
        None \<Rightarrow> (rb, q)
      | Some (recs, used) \<Rightarrow>
          if log_enabled \<and> flush_buffer then (rb\<lparr>has_flushed := True\<rparr>, q @ [recs]) else (rb, q))"

definition RedoBuffer_Reset :: "RedoBuffer \<Rightarrow> RedoBuffer" where
  "RedoBuffer_Reset rb = (case redo_seg rb of None \<Rightarrow> rb | Some _ \<Rightarrow> rb\<lparr>redo_seg := Some ([], 0)\<rparr>)"

definition RedoBuffer_LastRecord :: "RedoBuffer \<Rightarrow> LogRecord option" where
  "RedoBuffer_LastRecord rb = last_record rb"

section \<open>TransactionContext\<close>

text \<open>
  A \<open>TransactionEndAction\<close> is the list of deferred actions it registers with the deferred action
  manager, each an identifier.
\<close>

record TransactionContext =
  start_time :: timestamp
  finish_time :: timestamp
  undo_buffer :: "nat list"
  redo_buffer :: RedoBuffer
  loose_ptrs :: "u64 list"
  abort_actions :: "deferred_action list list"
  commit_actions :: "deferred_action list list"
  aborted :: bool
  must_abort :: bool

definition new_TransactionContext :: "timestamp \<Rightarrow> timestamp \<Rightarrow> TransactionContext" where
  "new_TransactionContext start finish =
     \<lparr>start_time = start, finish_time = finish, undo_buffer = [],
      redo_buffer = \<lparr>redo_seg = None, last_record = None, has_flushed = False\<rparr>, loose_ptrs = [],
      abort_actions = [], commit_actions = [], aborted = False, must_abort = False\<rparr>"

definition StartTime :: "TransactionContext \<Rightarrow> timestamp" where
  "StartTime txn = start_time txn"

definition FinishTime :: "TransactionContext \<Rightarrow> timestamp" where
  "FinishTime txn = finish_time txn"

definition IsReadOnly :: "TransactionContext \<Rightarrow> bool" where
  "IsReadOnly txn \<longleftrightarrow> undo_buffer txn = [] \<and> loose_ptrs txn = []"

definition RegisterAbortAction :: "deferred_action list \<Rightarrow> TransactionContext \<Rightarrow> TransactionContext" where
  "RegisterAbortAction a txn = txn\<lparr>abort_actions := a # abort_actions txn\<rparr>"

definition RegisterCommitAction :: "deferred_action list \<Rightarrow> TransactionContext \<Rightarrow> TransactionContext" where
  "RegisterCommitAction a txn = txn\<lparr>commit_actions := a # commit_actions txn\<rparr>"

definition SetMustAbort :: "TransactionContext \<Rightarrow> TransactionContext" where
  "SetMustAbort txn = txn\<lparr>must_abort := True\<rparr>"

text \<open>
  The storage that transactions share: the blocks, the undo records, and the next undo pointer that
  \<open>UndoBuffer::NewEntry\<close> gives out, which always has a segment for it.
\<close>

record storage =
  memory :: block_memory
  undo_recs :: undo_heap
  undo_next :: nat

definition UndoRecordForUpdate ::
  "nat \<Rightarrow> TupleSlot \<Rightarrow> ProjectedRow \<Rightarrow> TransactionContext \<Rightarrow> storage \<Rightarrow> nat \<times> TransactionContext \<times> storage" where
  "UndoRecordForUpdate table slot redo txn st =
     (let p = undo_next st
      in (p, txn\<lparr>undo_buffer := undo_buffer txn @ [p]\<rparr>,
          st\<lparr>undo_next := p + 1,
             undo_recs := (undo_recs st)(p := InitializeUpdate (undo_recs st p) (finish_time txn) slot table redo)\<rparr>))"

definition UndoRecordForInsert ::
  "nat \<Rightarrow> TupleSlot \<Rightarrow> TransactionContext \<Rightarrow> storage \<Rightarrow> nat \<times> TransactionContext \<times> storage" where
  "UndoRecordForInsert table slot txn st =
     (let p = undo_next st
      in (p, txn\<lparr>undo_buffer := undo_buffer txn @ [p]\<rparr>,
          st\<lparr>undo_next := p + 1,
             undo_recs := (undo_recs st)(p := InitializeInsert (undo_recs st p) (finish_time txn) slot table)\<rparr>))"

definition UndoRecordForDelete ::
  "nat \<Rightarrow> TupleSlot \<Rightarrow> TransactionContext \<Rightarrow> storage \<Rightarrow> nat \<times> TransactionContext \<times> storage" where
  "UndoRecordForDelete table slot txn st =
     (let p = undo_next st
      in (p, txn\<lparr>undo_buffer := undo_buffer txn @ [p]\<rparr>,
          st\<lparr>undo_next := p + 1,
             undo_recs := (undo_recs st)(p := InitializeDelete (undo_recs st p) (finish_time txn) slot table)\<rparr>))"

text \<open>
  \<open>StageWrite\<close> with the row that the client then fills in, and \<open>StageDelete\<close>.
\<close>

definition StageWrite ::
  "bool \<Rightarrow> u32 \<Rightarrow> u32 \<Rightarrow> TupleSlot \<Rightarrow> ProjectedRow \<Rightarrow> TransactionContext \<Rightarrow> flush_queue
     \<Rightarrow> TransactionContext \<times> flush_queue" where
  "StageWrite log_enabled db table slot delta txn q =
     (case RedoBuffer_NewEntry log_enabled
             \<lparr>log_txn_begin = start_time txn, log_body = RedoRecord db table slot delta\<rparr> (redo_buffer txn) q of
        (rb, q') \<Rightarrow> (txn\<lparr>redo_buffer := rb\<rparr>, q'))"

definition StageDelete ::
  "bool \<Rightarrow> u32 \<Rightarrow> u32 \<Rightarrow> TupleSlot \<Rightarrow> TransactionContext \<Rightarrow> flush_queue
     \<Rightarrow> TransactionContext \<times> flush_queue" where
  "StageDelete log_enabled db table slot txn q =
     (case RedoBuffer_NewEntry log_enabled
             \<lparr>log_txn_begin = start_time txn, log_body = DeleteRecord db table slot\<rparr> (redo_buffer txn) q of
        (rb, q') \<Rightarrow> (txn\<lparr>redo_buffer := rb\<rparr>, q'))"

lemma StageWrite_last:
  "\<exists>r. RedoBuffer_LastRecord (redo_buffer (fst (StageWrite l d tb slot delta txn q))) = Some r \<and> log_body r = RedoRecord d tb slot delta"
  by (auto simp: StageWrite_def RedoBuffer_NewEntry_def RedoBuffer_LastRecord_def split: option.split)

end
