(* ===== verification/ObjectPool.thy ===== *)
theory ObjectPool
  imports Prelude
begin

text \<open>
  \<^verbatim>\<open>common/object_pool.h\<close>: the pool that blocks and buffer segments are drawn from. The pointer
  that \<open>alloc_.New()\<close> returns in a call is an argument, \<open>None\<close> for a null pointer. Counters are
  64-bit words as in the source; the invariant relates them to the objects that exist.
\<close>

section \<open>The pool\<close>

datatype pool_error = NoMoreObjectException | AllocatorFailureException

record 'a ObjectPool =
  reuse_queue :: "'a list"
  size_limit :: u64
  reuse_limit :: u64
  current_size :: u64

definition make_ObjectPool :: "u64 \<Rightarrow> u64 \<Rightarrow> 'a ObjectPool" where
  "make_ObjectPool limit reuse =
     \<lparr>reuse_queue = [], size_limit = limit, reuse_limit = reuse, current_size = 0\<rparr>"

definition Get :: "'a option \<Rightarrow> 'a ObjectPool \<Rightarrow> pool_error + 'a \<times> 'a ObjectPool" where
  "Get new pool =
     (if reuse_queue pool = [] \<and> current_size pool \<ge> size_limit pool then Inl NoMoreObjectException
      else
        case reuse_queue pool of
          [] \<Rightarrow> (case new of
                   None \<Rightarrow> Inl AllocatorFailureException
                 | Some result \<Rightarrow> Inr (result, pool\<lparr>current_size := current_size pool + 1\<rparr>))
        | result # rest \<Rightarrow> Inr (result, pool\<lparr>reuse_queue := rest\<rparr>))"

definition SetSizeLimit :: "u64 \<Rightarrow> 'a ObjectPool \<Rightarrow> bool \<times> 'a ObjectPool" where
  "SetSizeLimit new_size pool =
     (if new_size \<ge> current_size pool then (True, pool\<lparr>size_limit := new_size\<rparr>) else (False, pool))"

text \<open>The loop of \<open>SetReuseLimit\<close> deletes objects from the front while the queue is too long.\<close>

function trim_reuse_queue :: "'a ObjectPool \<Rightarrow> 'a ObjectPool" where
  "trim_reuse_queue pool =
     (if length (reuse_queue pool) > unat (reuse_limit pool)
      then trim_reuse_queue (pool\<lparr>reuse_queue := tl (reuse_queue pool), current_size := current_size pool - 1\<rparr>)
      else pool)"
  by pat_completeness auto
termination
  by (relation "measure (\<lambda>pool. length (reuse_queue pool))") auto

declare trim_reuse_queue.simps [simp del]

definition SetReuseLimit :: "u64 \<Rightarrow> 'a ObjectPool \<Rightarrow> 'a ObjectPool" where
  "SetReuseLimit new_reuse_limit pool = trim_reuse_queue (pool\<lparr>reuse_limit := new_reuse_limit\<rparr>)"

definition Release :: "'a \<Rightarrow> 'a ObjectPool \<Rightarrow> 'a ObjectPool" where
  "Release obj pool =
     (if length (reuse_queue pool) \<ge> unat (reuse_limit pool)
      then pool\<lparr>current_size := current_size pool - 1\<rparr>
      else pool\<lparr>reuse_queue := reuse_queue pool @ [obj]\<rparr>)"

section \<open>Histories of a pool\<close>

text \<open>
  A pool together with the objects its clients hold. A client releases only what it holds, and the
  allocator returns objects that are neither held nor queued.
\<close>

inductive pool_step :: "'a ObjectPool \<times> 'a set \<Rightarrow> 'a ObjectPool \<times> 'a set \<Rightarrow> bool" where
  step_Get: "\<lbrakk>Get new pool = Inr (x, pool');
     \<forall>y. new = Some y \<longrightarrow> y \<notin> held \<and> y \<notin> set (reuse_queue pool)\<rbrakk>
   \<Longrightarrow> pool_step (pool, held) (pool', insert x held)"
| step_Release: "x \<in> held \<Longrightarrow> pool_step (pool, held) (Release x pool, held - {x})"
| step_SetSizeLimit: "pool_step (pool, held) (snd (SetSizeLimit n pool), held)"
| step_SetReuseLimit: "pool_step (pool, held) (SetReuseLimit n pool, held)"

definition pool_inv :: "'a ObjectPool \<times> 'a set \<Rightarrow> bool" where
  "pool_inv s \<longleftrightarrow>
     (case s of (pool, held) \<Rightarrow>
        finite held \<and> distinct (reuse_queue pool) \<and> held \<inter> set (reuse_queue pool) = {}
        \<and> unat (current_size pool) = card held + length (reuse_queue pool)
        \<and> current_size pool \<le> size_limit pool)"

lemma unat_suc_less: "(x :: u64) < y \<Longrightarrow> unat (x + 1) = unat x + 1"
  using unsigned_less [of y, where ?'a = nat] by (simp add: word_less_nat_alt unat_word_ariths)

lemma unat_pred: "0 < unat (x :: u64) \<Longrightarrow> unat (x - 1) = unat x - 1"
  by (metis One_nat_def unat_0 unat_minus_one less_irrefl)

lemma pool_inv_trim:
  "pool_inv (pool, held) \<Longrightarrow> pool_inv (trim_reuse_queue pool, held)"
proof (induction pool rule: trim_reuse_queue.induct)
  case (1 pool)
  show ?case
  proof (cases "length (reuse_queue pool) > unat (reuse_limit pool)")
    case True
    then obtain x xs where q: "reuse_queue pool = x # xs" by (cases "reuse_queue pool") auto
    have "0 < unat (current_size pool)" using 1(2) q by (simp add: pool_inv_def)
    then have "pool_inv (pool\<lparr>reuse_queue := xs, current_size := current_size pool - 1\<rparr>, held)"
      using 1(2) q by (auto simp: pool_inv_def unat_pred word_le_nat_alt)
    then show ?thesis using 1(1) True q by (subst trim_reuse_queue.simps) simp
  next
    case False
    then show ?thesis using 1(2) by (subst trim_reuse_queue.simps) simp
  qed
qed

lemma pool_inv_step: "pool_step s t \<Longrightarrow> pool_inv s \<Longrightarrow> pool_inv t"
proof (induction rule: pool_step.induct)
  case (step_Get new pool x pool' held)
  show ?case
  proof (cases "reuse_queue pool")
    case Nil
    then have "current_size pool < size_limit pool" and x: "new = Some x"
      and "pool' = pool\<lparr>current_size := current_size pool + 1\<rparr>"
      using step_Get(1) by (auto simp: Get_def not_le split: if_splits option.splits)
    then show ?thesis
      using step_Get(2,3) Nil unat_suc_less [of "current_size pool"]
      by (auto simp: pool_inv_def word_le_nat_alt word_less_nat_alt)
  next
    case (Cons y ys)
    then show ?thesis
      using step_Get by (auto simp: Get_def pool_inv_def)
  qed
next
  case (step_Release x held pool)
  then have "0 < card held" by (auto simp: pool_inv_def card_gt_0_iff)
  then have "0 < unat (current_size pool)" using step_Release by (simp add: pool_inv_def)
  then show ?case
    using step_Release \<open>0 < card held\<close>
    by (auto simp: pool_inv_def Release_def unat_pred word_le_nat_alt)
next
  case (step_SetSizeLimit pool held n)
  then show ?case by (auto simp: SetSizeLimit_def pool_inv_def)
next
  case (step_SetReuseLimit pool held n)
  then show ?case unfolding SetReuseLimit_def by (intro pool_inv_trim) (simp add: pool_inv_def)
qed

text \<open>
  C40. Whatever sequence of \<open>Get\<close>, \<open>Release\<close>, \<open>SetSizeLimit\<close> and \<open>SetReuseLimit\<close> calls a new pool
  goes through, \<open>current_size\<close> counts exactly the objects that exist, held or queued, it never exceeds
  the size limit, and no object is queued twice or queued while a client holds it; so \<open>Get\<close> never
  hands out an object that a client still holds.
\<close>

theorem pool_accounting:
  assumes "pool_step\<^sup>*\<^sup>* (make_ObjectPool limit reuse, {}) (pool, held)"
  shows "unat (current_size pool) = card held + length (reuse_queue pool)
    \<and> current_size pool \<le> size_limit pool
    \<and> distinct (reuse_queue pool) \<and> held \<inter> set (reuse_queue pool) = {}"
proof -
  have "pool_inv (make_ObjectPool limit reuse, {})" by (simp add: pool_inv_def make_ObjectPool_def)
  with assms have "pool_inv (pool, held)"
    by (induction rule: rtranclp_induct) (auto intro: pool_inv_step)
  then show ?thesis by (auto simp: pool_inv_def)
qed

theorem pool_accounting_witness:
  "\<exists>pool. pool_step\<^sup>*\<^sup>* (make_ObjectPool 2 2, {}) (pool, {}) \<and> reuse_queue pool = [7 :: nat]
     \<and> unat (current_size pool) = 0 + length (reuse_queue pool) \<and> current_size pool \<le> size_limit pool"
proof -
  have "Get (Some (7 :: nat)) (make_ObjectPool 2 2) = Inr (7, make_ObjectPool 2 2\<lparr>current_size := 1\<rparr>)"
    by (simp add: Get_def make_ObjectPool_def)
  then have "pool_step (make_ObjectPool 2 2, {}) (make_ObjectPool 2 2\<lparr>current_size := 1\<rparr>, {7 :: nat})"
    by (rule step_Get) (simp add: make_ObjectPool_def)
  moreover have "pool_step (make_ObjectPool 2 2\<lparr>current_size := 1\<rparr>, {7 :: nat})
      (Release 7 (make_ObjectPool 2 2\<lparr>current_size := 1\<rparr>), {})"
    using step_Release [of "7 :: nat" "{7}"] by simp
  ultimately have run: "pool_step\<^sup>*\<^sup>* (make_ObjectPool 2 2, {})
      (Release (7 :: nat) (make_ObjectPool 2 2\<lparr>current_size := 1\<rparr>), {})"
    by (meson converse_rtranclp_into_rtranclp r_into_rtranclp)
  have "reuse_queue (Release (7 :: nat) (make_ObjectPool 2 2\<lparr>current_size := 1\<rparr>)) = [7]"
    by (simp add: Release_def make_ObjectPool_def)
  with pool_accounting [OF run] run show ?thesis by (metis card.empty)
qed

end
