(* ===== verification/DataTable.thy ===== *)
theory DataTable
  imports TransactionContext ObjectPool
begin

text \<open>
  \<^verbatim>\<open>storage/data_table.{h,cpp}\<close>: every operation of a table on the shared storage, in the order of
  the source file. Each call runs without interference, so a compare-and-swap loop takes one round;
  a call that waits (\<open>WaitUntilHot\<close>) or a traversal that would not end is \<open>None\<close>. The lemmas give the
  effect of each operation on the visible value and the version chain of every slot.
\<close>

section \<open>Tables, the block store, and slots\<close>

text \<open>
  \<open>blocks\<close> is the \<open>std::list\<close> of blocks; a list iterator is a position, \<open>end()\<close> the length.
\<close>

record DataTable =
  table_id :: nat
  table_layout :: BlockLayout
  table_layout_version :: u16
  blocks :: "u64 list"
  insertion_head :: nat

text \<open>
  The block store is an object pool over an allocator; \<open>fresh n\<close> is what the \<open>n\<close>-th call of
  \<open>BlockAllocator::New\<close> returns.
\<close>

record BlockStore =
  block_pool :: "u64 ObjectPool"
  fresh :: "nat \<Rightarrow> u64 option"
  new_calls :: nat

definition BlockStore_Get :: "BlockStore \<Rightarrow> pool_error + u64 \<times> BlockStore" where
  "BlockStore_Get store =
     (case Get (fresh store (new_calls store)) (block_pool store) of
        Inl e \<Rightarrow> Inl e
      | Inr (b, pool) \<Rightarrow>
          Inr (b, store\<lparr>block_pool := pool,
                        new_calls := (if reuse_queue (block_pool store) = []
                                      then new_calls store + 1 else new_calls store)\<rparr>))"

definition NewBlock :: "DataTable \<Rightarrow> BlockStore \<Rightarrow> storage \<Rightarrow> pool_error + u64 \<times> BlockStore \<times> storage" where
  "NewBlock table store st =
     (case BlockStore_Get store of
        Inl e \<Rightarrow> Inl e
      | Inr (b, store') \<Rightarrow>
          Inr (b, store', st\<lparr>memory := (memory st)(b :=
            InitializeRawBlock (table_layout table) (table_id table) (memory st b) (table_layout_version table))\<rparr>))"

definition make_DataTable ::
  "nat \<Rightarrow> BlockLayout \<Rightarrow> u16 \<Rightarrow> BlockStore \<Rightarrow> storage \<Rightarrow> pool_error + DataTable \<times> BlockStore \<times> storage" where
  "make_DataTable tid layout version store st =
     (let table = \<lparr>table_id = tid, table_layout = layout, table_layout_version = version,
                   blocks = [], insertion_head = 0\<rparr>
      in case NewBlock table store st of
           Inl e \<Rightarrow> Inl e
         | Inr (b, store', st') \<Rightarrow> Inr (table\<lparr>blocks := [b]\<rparr>, store', st'))"

section \<open>Visibility and conflicts\<close>

definition Visible :: "block_memory \<Rightarrow> TupleSlot \<Rightarrow> bool" where
  "Visible mem slot =
     (let present = Allocated mem slot; not_deleted = (\<not> IsNull mem slot VERSION_POINTER_COLUMN_ID)
      in present \<and> not_deleted)"

definition HasConflict :: "undo_heap \<Rightarrow> TransactionContext \<Rightarrow> undo_ptr \<Rightarrow> bool" where
  "HasConflict h txn version_ptr =
     (case version_ptr of
        None \<Rightarrow> False
      | Some p \<Rightarrow>
          let version_timestamp = rec_timestamp (h p);
              owned_by_other_txn = (\<not> Committed version_timestamp \<and> version_timestamp \<noteq> FinishTime txn);
              newer_committed_version = (Committed version_timestamp \<and> NewerThan version_timestamp (StartTime txn))
          in owned_by_other_txn \<or> newer_committed_version)"

definition HasConflict_slot :: "TransactionContext \<Rightarrow> TupleSlot \<Rightarrow> storage \<Rightarrow> bool" where
  "HasConflict_slot txn slot st =
     HasConflict (undo_recs st) txn (AtomicallyReadVersionPtr (memory st) slot)"

section \<open>Select\<close>

text \<open>The loop that applies deltas down the version chain.\<close>

partial_function (option) apply_deltas ::
  "undo_heap \<Rightarrow> timestamp \<Rightarrow> undo_ptr \<Rightarrow> bool \<Rightarrow> ProjectedRow \<Rightarrow> (bool \<times> ProjectedRow) option" where
  "apply_deltas h start version_ptr visible out_buffer =
     (case version_ptr of
        None \<Rightarrow> Some (visible, out_buffer)
      | Some p \<Rightarrow>
          if NewerThan (rec_timestamp (h p)) start then
            (case rec_type (h p) of
               UPDATE \<Rightarrow> apply_deltas h start (rec_next (h p)) visible (ApplyDelta (rec_delta (h p)) out_buffer)
             | INSERT \<Rightarrow> apply_deltas h start (rec_next (h p)) False out_buffer
             | DELETE \<Rightarrow> apply_deltas h start (rec_next (h p)) True out_buffer)
          else Some (visible, out_buffer))"

definition SelectIntoBuffer ::
  "TransactionContext \<Rightarrow> TupleSlot \<Rightarrow> ProjectedRow \<Rightarrow> storage \<Rightarrow> (bool \<times> ProjectedRow) option" where
  "SelectIntoBuffer txn slot out_buffer st =
     (if \<not> Allocated (memory st) slot then Some (False, out_buffer)
      else
        let version_ptr = AtomicallyReadVersionPtr (memory st) slot;
            out_buffer = copy_tuple_into_row (memory st) slot out_buffer;
            visible = Visible (memory st) slot
        in case version_ptr of
             None \<Rightarrow> Some (visible, out_buffer)
           | Some p \<Rightarrow>
               if rec_timestamp (undo_recs st p) = FinishTime txn then Some (visible, out_buffer)
               else apply_deltas (undo_recs st) (StartTime txn) version_ptr visible out_buffer)"

definition Select ::
  "TransactionContext \<Rightarrow> TupleSlot \<Rightarrow> ProjectedRow \<Rightarrow> storage \<Rightarrow> (bool \<times> ProjectedRow) option" where
  "Select txn slot out_buffer st = SelectIntoBuffer txn slot out_buffer st"

partial_function (option) visible_version :: "undo_heap \<Rightarrow> timestamp \<Rightarrow> undo_ptr \<Rightarrow> bool \<Rightarrow> bool option" where
  "visible_version h start version_ptr visible =
     (case version_ptr of
        None \<Rightarrow> Some visible
      | Some p \<Rightarrow>
          if NewerThan (rec_timestamp (h p)) start then
            (case rec_type (h p) of
               UPDATE \<Rightarrow> visible_version h start (rec_next (h p)) visible
             | INSERT \<Rightarrow> visible_version h start (rec_next (h p)) False
             | DELETE \<Rightarrow> visible_version h start (rec_next (h p)) True)
          else Some visible)"

definition IsVisible :: "TransactionContext \<Rightarrow> TupleSlot \<Rightarrow> storage \<Rightarrow> bool option" where
  "IsVisible txn slot st =
     (let version_ptr = AtomicallyReadVersionPtr (memory st) slot; visible = Visible (memory st) slot
      in case version_ptr of
           None \<Rightarrow> Some visible
         | Some p \<Rightarrow>
             if rec_timestamp (undo_recs st p) = FinishTime txn then Some visible
             else visible_version (undo_recs st) (StartTime txn) version_ptr visible)"

section \<open>Update and Delete\<close>

definition wait_until_hot :: "TupleSlot \<Rightarrow> storage \<Rightarrow> storage option" where
  "wait_until_hot slot st =
     (case WaitUntilHot (controller (memory st (GetBlock slot))) of
        None \<Rightarrow> None
      | Some ctl \<Rightarrow> Some (st\<lparr>memory := update_block (memory st) (GetBlock slot) (\<lambda>b. b\<lparr>controller := ctl\<rparr>)\<rparr>))"

definition set_rec_table :: "nat \<Rightarrow> nat option \<Rightarrow> storage \<Rightarrow> storage" where
  "set_rec_table p t st = st\<lparr>undo_recs := (undo_recs st)(p := (undo_recs st p)\<lparr>rec_table := t\<rparr>)\<rparr>"

partial_function (option) Update_install :: "TransactionContext \<Rightarrow> TupleSlot \<Rightarrow> nat \<Rightarrow> storage \<Rightarrow> (bool \<times> storage) option" where
  "Update_install txn slot undo st =
     (let version_ptr = AtomicallyReadVersionPtr (memory st) slot
      in if HasConflict (undo_recs st) txn version_ptr \<or> \<not> Visible (memory st) slot
         then Some (False, set_rec_table undo None st)
         else
           let st = st\<lparr>undo_recs := (undo_recs st)(undo := (undo_recs st undo)
                 \<lparr>rec_delta := copy_tuple_into_row (memory st) slot (rec_delta (undo_recs st undo)),
                  rec_next := version_ptr\<rparr>)\<rparr>
           in case CompareAndSwapVersionPtr (memory st) slot version_ptr (Some undo) of
                (swapped, mem) \<Rightarrow>
                  if swapped then Some (True, st\<lparr>memory := mem\<rparr>)
                  else Update_install txn slot undo (st\<lparr>memory := mem\<rparr>))"

definition Update ::
  "DataTable \<Rightarrow> TupleSlot \<Rightarrow> ProjectedRow \<Rightarrow> TransactionContext \<Rightarrow> storage
     \<Rightarrow> (bool \<times> TransactionContext \<times> storage) option" where
  "Update table slot redo txn st =
     (case UndoRecordForUpdate (table_id table) slot redo txn st of
        (undo, txn, st) \<Rightarrow>
          case wait_until_hot slot st of
            None \<Rightarrow> None
          | Some st \<Rightarrow>
              case Update_install txn slot undo st of
                None \<Rightarrow> None
              | Some (installed, st) \<Rightarrow>
                  if \<not> installed then Some (False, txn, st)
                  else Some (True, txn, st\<lparr>memory := copy_row_into_tuple redo slot (memory st)\<rparr>))"

partial_function (option) Delete_install :: "TransactionContext \<Rightarrow> TupleSlot \<Rightarrow> nat \<Rightarrow> storage \<Rightarrow> (bool \<times> storage) option" where
  "Delete_install txn slot undo st =
     (let version_ptr = AtomicallyReadVersionPtr (memory st) slot
      in if HasConflict (undo_recs st) txn version_ptr \<or> \<not> Visible (memory st) slot
         then Some (False, set_rec_table undo None st)
         else
           let st = st\<lparr>undo_recs := (undo_recs st)(undo := (undo_recs st undo)\<lparr>rec_next := version_ptr\<rparr>)\<rparr>
           in case CompareAndSwapVersionPtr (memory st) slot version_ptr (Some undo) of
                (swapped, mem) \<Rightarrow>
                  if swapped then Some (True, st\<lparr>memory := mem\<rparr>)
                  else Delete_install txn slot undo (st\<lparr>memory := mem\<rparr>))"

definition Delete ::
  "DataTable \<Rightarrow> TupleSlot \<Rightarrow> TransactionContext \<Rightarrow> storage \<Rightarrow> (bool \<times> TransactionContext \<times> storage) option" where
  "Delete table slot txn st =
     (case UndoRecordForDelete (table_id table) slot txn st of
        (undo, txn, st) \<Rightarrow>
          case wait_until_hot slot st of
            None \<Rightarrow> None
          | Some st \<Rightarrow>
              case Delete_install txn slot undo st of
                None \<Rightarrow> None
              | Some (installed, st) \<Rightarrow>
                  if \<not> installed then Some (False, txn, st)
                  else Some (True, txn, st\<lparr>memory := SetNull (memory st) slot VERSION_POINTER_COLUMN_ID\<rparr>))"

section \<open>Insert\<close>

definition InsertInto ::
  "DataTable \<Rightarrow> ProjectedRow \<Rightarrow> TupleSlot \<Rightarrow> TransactionContext \<Rightarrow> storage \<Rightarrow> TransactionContext \<times> storage" where
  "InsertInto table redo dest txn st =
     (case UndoRecordForInsert (table_id table) dest txn st of
        (undo, txn, st) \<Rightarrow>
          let mem = AtomicallyWriteVersionPtr (memory st) dest (Some undo);
              mem = AccessForceNotNull mem dest VERSION_POINTER_COLUMN_ID
          in (txn, st\<lparr>memory := copy_row_into_tuple redo dest mem\<rparr>))"

definition CheckMoveHead ::
  "nat \<Rightarrow> DataTable \<Rightarrow> BlockStore \<Rightarrow> storage \<Rightarrow> pool_error + DataTable \<times> BlockStore \<times> storage" where
  "CheckMoveHead block table store st =
     (let table = (if block = insertion_head table
                   then table\<lparr>insertion_head := insertion_head table + 1\<rparr> else table)
      in if insertion_head table = length (blocks table)
         then (case NewBlock table store st of
                 Inl e \<Rightarrow> Inl e
               | Inr (b, store, st) \<Rightarrow>
                   Inr (table\<lparr>blocks := blocks table @ [b], insertion_head := length (blocks table)\<rparr>, store, st))
         else Inr (table, store, st))"

text \<open>
  The branch of \<open>Insert\<close> that appends a block. The call of \<open>SetBlockBusyStatus\<close> is an argument of
  \<open>TERRIER_ASSERT\<close>, so it only happens in builds that check assertions.
\<close>

definition Insert_new_block ::
  "bool \<Rightarrow> DataTable \<Rightarrow> BlockStore \<Rightarrow> storage \<Rightarrow> pool_error + TupleSlot \<times> DataTable \<times> BlockStore \<times> storage" where
  "Insert_new_block asserts table store st =
     (case NewBlock table store st of
        Inl e \<Rightarrow> Inl e
      | Inr (b, store, st) \<Rightarrow>
          let mem = (if asserts then snd (SetBlockBusyStatus (memory st) b) else memory st)
          in case Allocate (table_layout table) mem b of
               None \<Rightarrow> Inr (0, table\<lparr>blocks := blocks table @ [b]\<rparr>, store, st\<lparr>memory := mem\<rparr>)
             | Some (slot, mem) \<Rightarrow> Inr (slot, table\<lparr>blocks := blocks table @ [b]\<rparr>, store, st\<lparr>memory := mem\<rparr>))"

text \<open>The search loop: the slot and the position of its block, whose busy bit is still set.\<close>

partial_function (option) Insert_loop ::
  "bool \<Rightarrow> nat \<Rightarrow> DataTable \<Rightarrow> BlockStore \<Rightarrow> storage
     \<Rightarrow> (pool_error + TupleSlot \<times> nat \<times> DataTable \<times> BlockStore \<times> storage) option" where
  "Insert_loop asserts block table store st =
     (if block = length (blocks table) then
        (case Insert_new_block asserts table store st of
           Inl e \<Rightarrow> Some (Inl e)
         | Inr (slot, table', store', st') \<Rightarrow> Some (Inr (slot, length (blocks table), table', store', st')))
      else
        (case SetBlockBusyStatus (memory st) (blocks table ! block) of
           (idle, mem) \<Rightarrow>
             if \<not> idle then Insert_loop asserts (block + 1) table store (st\<lparr>memory := mem\<rparr>)
             else
             (case Allocate (table_layout table) mem (blocks table ! block) of
                Some (slot, mem') \<Rightarrow> Some (Inr (slot, block, table, store, st\<lparr>memory := mem'\<rparr>))
              | None \<Rightarrow>
                  (case CheckMoveHead block table store
                          (st\<lparr>memory := ClearBlockBusyStatus mem (blocks table ! block)\<rparr>) of
                     Inl e \<Rightarrow> Some (Inl e)
                   | Inr (table', store', st') \<Rightarrow> Insert_loop asserts (block + 1) table' store' st'))))"

definition Insert ::
  "bool \<Rightarrow> ProjectedRow \<Rightarrow> TransactionContext \<Rightarrow> DataTable \<Rightarrow> BlockStore \<Rightarrow> storage
     \<Rightarrow> (pool_error + TupleSlot \<times> TransactionContext \<times> DataTable \<times> BlockStore \<times> storage) option" where
  "Insert asserts redo txn table store st =
     (case Insert_loop asserts (insertion_head table) table store st of
        None \<Rightarrow> None
      | Some (Inl e) \<Rightarrow> Some (Inl e)
      | Some (Inr (slot, block, table, store, st)) \<Rightarrow>
          let st = st\<lparr>memory := ClearBlockBusyStatus (memory st) (blocks table ! block)\<rparr>
          in case InsertInto table redo slot txn st of
               (txn, st) \<Rightarrow> Some (Inr (slot, txn, table, store, st)))"

section \<open>Iteration and Scan\<close>

text \<open>An iterator is the position of its block and its current slot; a null slot at the end.\<close>

type_synonym SlotIterator = "nat \<times> TupleSlot"

definition table_begin :: "DataTable \<Rightarrow> SlotIterator" where
  "table_begin table = (0, make_TupleSlot (if blocks table = [] then 0 else blocks table ! 0) 0)"

definition table_end :: "DataTable \<Rightarrow> storage \<Rightarrow> SlotIterator" where
  "table_end table st =
     (if blocks table = [] then (length (blocks table), make_TupleSlot 0 0)
      else
        let last_block = last (blocks table); head = GetInsertHead (memory st last_block)
        in if head = num_slots (table_layout table) then (length (blocks table), make_TupleSlot 0 0)
           else (length (blocks table) - 1, make_TupleSlot last_block head))"

definition SlotIterator_next :: "DataTable \<Rightarrow> SlotIterator \<Rightarrow> SlotIterator" where
  "SlotIterator_next table it =
     (case it of (block, current_slot) \<Rightarrow>
        if GetOffset current_slot = num_slots (table_layout table) - 1
        then (block + 1, make_TupleSlot (if block + 1 = length (blocks table) then 0 else blocks table ! (block + 1)) 0)
        else (block, make_TupleSlot (blocks table ! block) (GetOffset current_slot + 1)))"

text \<open>
  \<open>Scan\<close> fills rows of the output buffer; a row view of \<open>ProjectedColumns\<close> is a projected row with the
  columns of the buffer. The result is the filled rows with their slots, and the advanced iterator.
\<close>

partial_function (option) Scan ::
  "DataTable \<Rightarrow> TransactionContext \<Rightarrow> nat \<Rightarrow> ProjectedRow \<Rightarrow> storage \<Rightarrow> SlotIterator \<Rightarrow> (TupleSlot \<times> ProjectedRow) list
     \<Rightarrow> ((TupleSlot \<times> ProjectedRow) list \<times> SlotIterator) option" where
  "Scan table txn max_tuples row st start_pos filled =
     (if length filled < max_tuples \<and> snd start_pos \<noteq> snd (table_end table st) then
        (case SelectIntoBuffer txn (snd start_pos) row st of
           None \<Rightarrow> None
         | Some (visible, out) \<Rightarrow>
             Scan table txn max_tuples row st (SlotIterator_next table start_pos)
               (if visible then filled @ [(snd start_pos, out)] else filled))
      else Some (filled, start_pos))"

section \<open>Reading\<close>

definition apply_record :: "UndoRecord \<Rightarrow> bool \<times> ProjectedRow \<Rightarrow> bool \<times> ProjectedRow" where
  "apply_record r vo =
     (case rec_type r of
        UPDATE \<Rightarrow> (fst vo, ApplyDelta (rec_delta r) (snd vo))
      | INSERT \<Rightarrow> (False, snd vo)
      | DELETE \<Rightarrow> (True, snd vo))"

lemma apply_deltas_chain:
  "chain h p ps \<Longrightarrow>
   apply_deltas h start p visible out = Some (fold apply_record (newer start (map h ps)) (visible, out))"
proof (induction ps arbitrary: p visible out)
  case Nil
  then show ?case by (simp add: apply_deltas.simps newer_def)
next
  case (Cons q ps)
  then show ?case
    by (simp add: apply_deltas.simps [of h start "Some q"] newer_def apply_record_def split: DeltaRecordType.splits)
qed

lemma visible_version_chain:
  "chain h p ps \<Longrightarrow>
   visible_version h start p (fst v) = Some (fst (undo_values (newer start (map h ps)) v))"
proof (induction ps arbitrary: p v)
  case Nil
  then show ?case by (simp add: visible_version.simps newer_def)
next
  case (Cons q ps)
  have "visible_version h start (rec_next (h q)) (fst (undo_value (h q) v)) =
      Some (fst (undo_values (newer start (map h ps)) (undo_value (h q) v)))"
    using Cons by simp
  with Cons.prems show ?case
    by (simp add: visible_version.simps [of h start "Some q"] newer_def undo_value_def split: DeltaRecordType.splits)
qed

definition sorted_deltas :: "UndoRecord list \<Rightarrow> bool" where
  "sorted_deltas rs \<longleftrightarrow> (\<forall>r \<in> set rs. rec_type r = UPDATE \<longrightarrow> sorted_row (rec_delta r))"

text \<open>Applying records to a buffer is undoing them on the projection of the tuple.\<close>

lemma apply_records_undo:
  assumes "sorted_deltas rs" and "sorted_row out"
    and "\<forall>i < PR_NumColumns out. PR_AccessWithNullCheck out i = snd v (col_ids out ! i)"
    and "fst v = visible"
  shows "fst (fold apply_record rs (visible, out)) = fst (undo_values rs v)
    \<and> col_ids (snd (fold apply_record rs (visible, out))) = col_ids out
    \<and> (\<forall>i < PR_NumColumns out. PR_AccessWithNullCheck (snd (fold apply_record rs (visible, out))) i
          = snd (undo_values rs v) (col_ids out ! i))"
  using assms
proof (induction rs arbitrary: v visible out)
  case (Cons r rs)
  obtain visible' out' where ap: "apply_record r (visible, out) = (visible', out')" by fastforce
  have c: "col_ids out' = col_ids out" and vis: "fst (undo_value r v) = visible'"
    using ap Cons.prems(4) by (auto simp: apply_record_def undo_value_def split: DeltaRecordType.splits)
  have "sorted_row out'" using c Cons.prems(2) by (simp add: sorted_row_def)
  moreover have "sorted_deltas rs" using Cons.prems(1) by (simp add: sorted_deltas_def)
  moreover have "\<forall>i < PR_NumColumns out'. PR_AccessWithNullCheck out' i = snd (undo_value r v) (col_ids out' ! i)"
  proof (cases "rec_type r")
    case UPDATE
    then have out': "out' = ApplyDelta (rec_delta r) out" using ap by (simp add: apply_record_def)
    have "sorted_row (rec_delta r)" using UPDATE Cons.prems(1) by (simp add: sorted_deltas_def)
    then show ?thesis
      using UPDATE Cons.prems(2,3) c
      by (simp add: out' ApplyDelta_nth undo_value_def overwrite_def PR_NumColumns_def split: option.splits)
  qed (use ap Cons.prems(3) in \<open>simp_all add: apply_record_def undo_value_def\<close>)
  ultimately have "fst (fold apply_record rs (visible', out')) = fst (undo_values rs (undo_value r v))
    \<and> col_ids (snd (fold apply_record rs (visible', out'))) = col_ids out'
    \<and> (\<forall>i < PR_NumColumns out'. PR_AccessWithNullCheck (snd (fold apply_record rs (visible', out'))) i
          = snd (undo_values rs (undo_value r v)) (col_ids out' ! i))"
    using vis by (intro Cons.IH)
  then show ?case by (simp add: ap c PR_NumColumns_def)
qed simp

text \<open>What storage holds in a slot: the allocation bit, the value, and the pointers of the chain.\<close>

definition attrs :: "block_memory \<Rightarrow> TupleSlot \<Rightarrow> col_id \<Rightarrow> bytes option" where
  "attrs mem slot c = (if c = VERSION_POINTER_COLUMN_ID then None else AccessWithNullCheck mem slot c)"

definition current_value :: "block_memory \<Rightarrow> TupleSlot \<Rightarrow> tuple_value" where
  "current_value mem slot = (Visible mem slot, attrs mem slot)"

definition slot_chain :: "storage \<Rightarrow> TupleSlot \<Rightarrow> nat list \<Rightarrow> bool" where
  "slot_chain st slot ps \<longleftrightarrow> chain (undo_recs st) (AtomicallyReadVersionPtr (memory st) slot) ps"

text \<open>The row that a transaction sees in a slot, and the rendering of the result of a select.\<close>

definition tuple_seen :: "TransactionContext \<Rightarrow> TupleSlot \<Rightarrow> nat list \<Rightarrow> storage \<Rightarrow> (col_id \<Rightarrow> bytes option) option" where
  "tuple_seen txn slot ps st =
     (let v = read_value (finish_time txn) (start_time txn) (map (undo_recs st) ps) (current_value (memory st) slot)
      in if Allocated (memory st) slot \<and> fst v then Some (snd v) else None)"

definition row_result :: "bool \<times> ProjectedRow \<Rightarrow> bytes option list option" where
  "row_result vo =
     (if fst vo then Some (map (PR_AccessWithNullCheck (snd vo)) [0..<PR_NumColumns (snd vo)]) else None)"

lemma row_resultI:
  assumes "col_ids out' = col_ids out"
    and "\<forall>i < PR_NumColumns out. PR_AccessWithNullCheck out' i = f (col_ids out ! i)"
  shows "row_result (visible, out') = (if visible then Some (map f (col_ids out)) else None)"
proof -
  have "map (PR_AccessWithNullCheck out') [0..<PR_NumColumns out'] = map f (col_ids out)"
    using assms by (intro nth_equalityI) (simp_all add: PR_NumColumns_def)
  then show ?thesis by (simp add: row_result_def)
qed

lemma Select_tuple_seen:
  assumes "slot_chain st slot ps" and "sorted_deltas (map (undo_recs st) ps)" and "sorted_row out"
    and "VERSION_POINTER_COLUMN_ID \<notin> set (col_ids out)"
  shows "map_option row_result (Select txn slot out st) =
    Some (map_option (\<lambda>row. map row (col_ids out)) (tuple_seen txn slot ps st))"
proof (cases "Allocated (memory st) slot")
  case False
  then show ?thesis
    by (simp add: Select_def SelectIntoBuffer_def tuple_seen_def row_result_def)
next
  case True
  let ?mem = "memory st" and ?h = "undo_recs st"
  let ?out = "copy_tuple_into_row ?mem slot out"
  let ?v = "current_value ?mem slot" and ?rs = "newer (start_time txn) (map ?h ps)"
  let ?f = "fold apply_record ?rs (Visible ?mem slot, ?out)"
  have out: "col_ids ?out = col_ids out"
      "\<forall>i < PR_NumColumns out. PR_AccessWithNullCheck ?out i = snd ?v (col_ids out ! i)"
    using assms(4)
    by (auto simp: copy_tuple_into_row current_value_def attrs_def PR_NumColumns_def)
       (metis nth_mem)
  then have here: "row_result (Visible ?mem slot, ?out) = (if fst ?v then Some (map (snd ?v) (col_ids out)) else None)"
    by (simp add: row_resultI current_value_def)
  have "sorted_row ?out" using assms(3) out by (simp add: sorted_row_def)
  moreover have "sorted_deltas ?rs"
    using assms(2) unfolding sorted_deltas_def newer_def by (meson set_takeWhileD)
  ultimately have u: "fst ?f = fst (undo_values ?rs ?v) \<and> col_ids (snd ?f) = col_ids out
    \<and> (\<forall>i < PR_NumColumns out. PR_AccessWithNullCheck (snd ?f) i = snd (undo_values ?rs ?v) (col_ids out ! i))"
    using apply_records_undo [of ?rs ?out ?v "Visible ?mem slot"] out
    by (simp add: current_value_def PR_NumColumns_def)
  obtain fv fo where f: "?f = (fv, fo)" by fastforce
  obtain uv ur where w: "undo_values ?rs ?v = (uv, ur)" by fastforce
  have there: "row_result ?f = (if uv then Some (map ur (col_ids out)) else None)"
    using u row_resultI [of fo out ur fv] unfolding f w by simp
  note ch = assms(1) [unfolded slot_chain_def]
  note ad = apply_deltas_chain [OF ch, of "start_time txn" "Visible ?mem slot" ?out]
  show ?thesis
  proof (cases ps)
    case Nil
    with ch True here show ?thesis
      by (simp add: Select_def SelectIntoBuffer_def tuple_seen_def read_value_def)
  next
    case (Cons q qs)
    then have "AtomicallyReadVersionPtr ?mem slot = Some q" "ps \<noteq> []" "hd (map ?h ps) = ?h q" using ch by simp_all
    with ad True here there w f show ?thesis
      by (simp add: Select_def SelectIntoBuffer_def tuple_seen_def read_value_def Let_def FinishTime_def StartTime_def)
  qed
qed

lemma IsVisible_read_value:
  assumes "slot_chain st slot ps"
  shows "IsVisible txn slot st =
    Some (fst (read_value (finish_time txn) (start_time txn) (map (undo_recs st) ps) (current_value (memory st) slot)))"
proof -
  note ch = assms [unfolded slot_chain_def]
  note vv = visible_version_chain [OF ch, of "start_time txn" "current_value (memory st) slot"]
  have c: "fst (current_value (memory st) slot) = Visible (memory st) slot" by (simp add: current_value_def)
  show ?thesis
  proof (cases ps)
    case Nil
    with ch show ?thesis by (simp add: IsVisible_def read_value_def c)
  next
    case (Cons q qs)
    then have "AtomicallyReadVersionPtr (memory st) slot = Some q" using ch by simp
    with vv Cons c show ?thesis
      by (simp add: IsVisible_def read_value_def Let_def FinishTime_def StartTime_def)
  qed
qed

section \<open>Writing\<close>

text \<open>A block that writers need not wait for.\<close>

definition hot :: "RawBlock \<Rightarrow> bool" where
  "hot b \<longleftrightarrow> block_state (controller b) = HOT \<and> reader_count (controller b) = 0"

definition same_slot :: "storage \<Rightarrow> storage \<Rightarrow> TupleSlot \<Rightarrow> bool" where
  "same_slot st st' s \<longleftrightarrow>
     Allocated (memory st') s = Allocated (memory st) s
     \<and> IsNull (memory st') s VERSION_POINTER_COLUMN_ID = IsNull (memory st) s VERSION_POINTER_COLUMN_ID
     \<and> attrs (memory st') s = attrs (memory st) s
     \<and> AtomicallyReadVersionPtr (memory st') s = AtomicallyReadVersionPtr (memory st) s"

text \<open>An undo record \<open>r\<close> is installed at the head of the chain of a slot, whose value becomes \<open>v\<close>.\<close>

definition pushes :: "storage \<Rightarrow> storage \<Rightarrow> TupleSlot \<Rightarrow> UndoRecord \<Rightarrow> tuple_value \<Rightarrow> bool" where
  "pushes st st' slot r v \<longleftrightarrow>
     undo_next st' = undo_next st + 1
     \<and> undo_recs st' = (undo_recs st)(undo_next st := r)
     \<and> rec_next r = AtomicallyReadVersionPtr (memory st) slot
     \<and> rec_slot r = slot
     \<and> AtomicallyReadVersionPtr (memory st') slot = Some (undo_next st)
     \<and> Allocated (memory st') slot
     \<and> current_value (memory st') slot = v
     \<and> (\<forall>s. s \<noteq> slot \<longrightarrow> same_slot st st' s)
     \<and> (\<forall>b. insert_head (memory st' b) = insert_head (memory st b))
     \<and> (\<forall>b. hot (memory st b) \<longrightarrow> hot (memory st' b))"

text \<open>An undo record is written but never installed.\<close>

definition leaves :: "storage \<Rightarrow> storage \<Rightarrow> UndoRecord \<Rightarrow> bool" where
  "leaves st st' r \<longleftrightarrow>
     undo_next st' = undo_next st + 1
     \<and> undo_recs st' = (undo_recs st)(undo_next st := r)
     \<and> rec_table r = None
     \<and> (\<forall>s. same_slot st st' s)
     \<and> (\<forall>b. insert_head (memory st' b) = insert_head (memory st b))
     \<and> (\<forall>b. hot (memory st b) \<longrightarrow> hot (memory st' b))"

lemma same_slot_value: "same_slot st st' s \<Longrightarrow> current_value (memory st') s = current_value (memory st) s"
  by (simp add: same_slot_def current_value_def Visible_def Let_def)

lemma wait_until_hot_frame:
  assumes "wait_until_hot slot st = Some st'"
  shows "same_slot st st' s" and "undo_recs st' = undo_recs st" and "undo_next st' = undo_next st"
    and "insert_head (memory st' b) = insert_head (memory st b)"
    and "hot (memory st b) \<longrightarrow> hot (memory st' b)"
  using assms
  by (auto simp: wait_until_hot_def WaitUntilHot_def hot_def same_slot_def attrs_def observe_defs update_block_def fun_eq_iff
      split: option.splits if_splits)

lemma wait_until_hot_hot: "hot (memory st (GetBlock slot)) \<Longrightarrow> \<exists>st'. wait_until_hot slot st = Some st'"
  by (simp add: wait_until_hot_def WaitUntilHot_def hot_def)

lemma hot_block_header: "block_header mem' b = block_header mem b \<Longrightarrow> hot (mem' b) = hot (mem b)"
  by (simp add: block_header_def hot_def)

lemma HasConflict_fresh: "vp \<noteq> Some p \<Longrightarrow> HasConflict (h(p := r)) txn vp = HasConflict h txn vp"
  by (auto simp: HasConflict_def split: option.splits)

lemma HasConflict_txn:
  "FinishTime txn' = FinishTime txn \<Longrightarrow> StartTime txn' = StartTime txn \<Longrightarrow>
   HasConflict h txn' vp = HasConflict h txn vp"
  by (simp add: HasConflict_def split: option.splits)

lemma insert_head_block_header: "block_header mem' b = block_header mem b \<Longrightarrow> insert_head (mem' b) = insert_head (mem b)"
  by (simp add: block_header_def)

lemma row_map_before_image:
  assumes "distinct (col_ids redo)"
  shows "row_map (copy_tuple_into_row mem slot (CopyProjectedRowLayout head redo)) c =
    (if c \<in> set (col_ids redo) then Some (AccessWithNullCheck mem slot c) else None)"
proof -
  let ?d = "CopyProjectedRowLayout head redo" and ?r = "copy_tuple_into_row mem slot (CopyProjectedRowLayout head redo)"
  have c: "col_ids ?d = col_ids redo" "col_ids ?r = col_ids redo"
    by (simp_all add: copy_tuple_into_row CopyProjectedRowLayout_def)
  show ?thesis
  proof (cases "c \<in> set (col_ids redo)")
    case True
    then obtain i where i: "i < PR_NumColumns redo" "col_ids redo ! i = c"
      by (auto simp: in_set_conv_nth PR_NumColumns_def)
    then have "row_map ?r (col_ids ?r ! i) = Some (PR_AccessWithNullCheck ?r i)"
      using assms c by (intro row_map_nth) (simp_all add: PR_NumColumns_def)
    moreover have "PR_AccessWithNullCheck ?r i = AccessWithNullCheck mem slot c"
      using i c by (simp add: copy_tuple_into_row PR_NumColumns_def)
    ultimately show ?thesis using True i c by simp
  next
    case False
    then show ?thesis using row_map_None [of ?r c] c by simp
  qed
qed

text \<open>The before-image undoes the update.\<close>

lemma undo_update_value:
  assumes "distinct (col_ids redo)" and "VERSION_POINTER_COLUMN_ID \<notin> set (col_ids redo)"
    and "rec_type r = UPDATE" and "rec_delta r = copy_tuple_into_row mem slot (CopyProjectedRowLayout head redo)"
  shows "undo_value r (visible, overwrite (attrs mem slot) redo) = (visible, attrs mem slot)"
proof -
  have "overwrite (overwrite (attrs mem slot) redo) (rec_delta r) c = attrs mem slot c" for c
    using assms(2) row_map_before_image [OF assms(1), of mem slot head c] row_map_None [of redo c]
    by (auto simp: overwrite_def assms(4) attrs_def split: option.splits)
  then show ?thesis by (auto simp: undo_value_def assms(3))
qed

definition update_record :: "DataTable \<Rightarrow> TupleSlot \<Rightarrow> ProjectedRow \<Rightarrow> TransactionContext \<Rightarrow> storage \<Rightarrow> UndoRecord" where
  "update_record table slot redo txn st =
     InitializeUpdate (undo_recs st (undo_next st)) (finish_time txn) slot (table_id table) redo"

lemma Update_install_eq:
  "Update_install txn slot undo st =
     (let version_ptr = AtomicallyReadVersionPtr (memory st) slot
      in if HasConflict (undo_recs st) txn version_ptr \<or> \<not> Visible (memory st) slot
         then Some (False, set_rec_table undo None st)
         else Some (True, st\<lparr>undo_recs := (undo_recs st)(undo := (undo_recs st undo)
                 \<lparr>rec_delta := copy_tuple_into_row (memory st) slot (rec_delta (undo_recs st undo)),
                  rec_next := version_ptr\<rparr>),
               memory := AtomicallyWriteVersionPtr (memory st) slot (Some undo)\<rparr>))"
  by (subst Update_install.simps) (simp add: Let_def CompareAndSwapVersionPtr_def)

lemma Delete_install_eq:
  "Delete_install txn slot undo st =
     (let version_ptr = AtomicallyReadVersionPtr (memory st) slot
      in if HasConflict (undo_recs st) txn version_ptr \<or> \<not> Visible (memory st) slot
         then Some (False, set_rec_table undo None st)
         else Some (True, st\<lparr>undo_recs := (undo_recs st)(undo := (undo_recs st undo)\<lparr>rec_next := version_ptr\<rparr>),
               memory := AtomicallyWriteVersionPtr (memory st) slot (Some undo)\<rparr>))"
  by (subst Delete_install.simps) (simp add: Let_def CompareAndSwapVersionPtr_def)

definition alloc_undo :: "UndoRecord \<Rightarrow> storage \<Rightarrow> storage" where
  "alloc_undo r st = st\<lparr>undo_next := undo_next st + 1, undo_recs := (undo_recs st)(undo_next st := r)\<rparr>"

definition push_undo :: "nat \<Rightarrow> TransactionContext \<Rightarrow> TransactionContext" where
  "push_undo p txn = txn\<lparr>undo_buffer := undo_buffer txn @ [p]\<rparr>"

lemma push_undo_simps [simp]:
  "finish_time (push_undo p txn) = finish_time txn"
  "start_time (push_undo p txn) = start_time txn"
  "undo_buffer (push_undo p txn) = undo_buffer txn @ [p]"
  "aborted (push_undo p txn) = aborted txn"
  "must_abort (push_undo p txn) = must_abort txn"
  "loose_ptrs (push_undo p txn) = loose_ptrs txn"
  by (simp_all add: push_undo_def)

lemma Update_eq:
  "Update table slot redo txn st =
     (case wait_until_hot slot (alloc_undo (update_record table slot redo txn st) st) of
        None \<Rightarrow> None
      | Some st2 \<Rightarrow>
          if HasConflict (undo_recs st2) (push_undo (undo_next st) txn) (AtomicallyReadVersionPtr (memory st2) slot)
            \<or> \<not> Visible (memory st2) slot
          then Some (False, push_undo (undo_next st) txn, set_rec_table (undo_next st) None st2)
          else Some (True, push_undo (undo_next st) txn,
            st2\<lparr>undo_recs := (undo_recs st2)(undo_next st := (undo_recs st2 (undo_next st))
                 \<lparr>rec_delta := copy_tuple_into_row (memory st2) slot (rec_delta (undo_recs st2 (undo_next st))),
                  rec_next := AtomicallyReadVersionPtr (memory st2) slot\<rparr>),
               memory := copy_row_into_tuple redo slot
                 (AtomicallyWriteVersionPtr (memory st2) slot (Some (undo_next st)))\<rparr>))"
  by (simp add: Update_def UndoRecordForUpdate_def Let_def Update_install_eq alloc_undo_def push_undo_def
      update_record_def split: option.split)

definition delete_record :: "DataTable \<Rightarrow> TupleSlot \<Rightarrow> TransactionContext \<Rightarrow> storage \<Rightarrow> UndoRecord" where
  "delete_record table slot txn st =
     InitializeDelete (undo_recs st (undo_next st)) (finish_time txn) slot (table_id table)"

lemma Delete_eq:
  "Delete table slot txn st =
     (case wait_until_hot slot (alloc_undo (delete_record table slot txn st) st) of
        None \<Rightarrow> None
      | Some st2 \<Rightarrow>
          if HasConflict (undo_recs st2) (push_undo (undo_next st) txn) (AtomicallyReadVersionPtr (memory st2) slot)
            \<or> \<not> Visible (memory st2) slot
          then Some (False, push_undo (undo_next st) txn, set_rec_table (undo_next st) None st2)
          else Some (True, push_undo (undo_next st) txn,
            st2\<lparr>undo_recs := (undo_recs st2)(undo_next st := (undo_recs st2 (undo_next st))
                 \<lparr>rec_next := AtomicallyReadVersionPtr (memory st2) slot\<rparr>),
               memory := SetNull (AtomicallyWriteVersionPtr (memory st2) slot (Some (undo_next st))) slot
                 VERSION_POINTER_COLUMN_ID\<rparr>))"
  by (simp add: Delete_def UndoRecordForDelete_def Let_def Delete_install_eq alloc_undo_def push_undo_def
      delete_record_def split: option.split)

text \<open>The state in which the record is installed: only the new record and the block state differ.\<close>

lemma hot_state:
  assumes "wait_until_hot slot (alloc_undo r st) = Some st2"
  shows "same_slot st st2 s" and "undo_recs st2 = (undo_recs st)(undo_next st := r)"
    and "undo_next st2 = undo_next st + 1" and "insert_head (memory st2 b) = insert_head (memory st b)"
    and "hot (memory st b) \<longrightarrow> hot (memory st2 b)"
  using wait_until_hot_frame [OF assms] by (simp_all add: alloc_undo_def same_slot_def)

lemma hot_conflict:
  assumes "wait_until_hot slot (alloc_undo r st) = Some st2"
    and "AtomicallyReadVersionPtr (memory st) slot \<noteq> Some (undo_next st)"
  shows "HasConflict (undo_recs st2) (push_undo p txn) (AtomicallyReadVersionPtr (memory st2) slot)
      = HasConflict (undo_recs st) txn (AtomicallyReadVersionPtr (memory st) slot)"
    and "Visible (memory st2) slot = Visible (memory st) slot"
  using hot_state(1) [OF assms(1), of slot] hot_state(2) [OF assms(1)] assms(2) HasConflict_txn [of "push_undo p txn" txn]
  by (simp_all add: same_slot_def HasConflict_fresh FinishTime_def StartTime_def Visible_def)

lemma attrs_copy_row:
  assumes "distinct (col_ids row)" and "VERSION_POINTER_COLUMN_ID \<notin> set (col_ids row)"
  shows "attrs (copy_row_into_tuple row slot mem) s =
    (if s = slot then overwrite (attrs mem slot) row else attrs mem s)"
  using row_map_None [of row VERSION_POINTER_COLUMN_ID] assms
  by (auto simp: attrs_def fun_eq_iff access_simps overwrite_def split: option.splits)

lemma attrs_frame [access_simps]:
  "attrs (AtomicallyWriteVersionPtr mem slot p) s = attrs mem s"
  "attrs (SetNull mem slot VERSION_POINTER_COLUMN_ID) s = attrs mem s"
  "attrs (SetNotNull mem slot VERSION_POINTER_COLUMN_ID) s = attrs mem s"
  "attrs (Deallocate mem slot) s = attrs mem s"
  by (auto simp: attrs_def fun_eq_iff access_simps)

lemma insert_head_frame [frame_simps]:
  "insert_head (copy_row_into_tuple row slot mem b) = insert_head (mem b)"
  "insert_head (AtomicallyWriteVersionPtr mem slot p b) = insert_head (mem b)"
  "insert_head (SetNull mem slot col b) = insert_head (mem b)"
  "insert_head (SetNotNull mem slot col b) = insert_head (mem b)"
  "insert_head (AccessForceNotNull mem slot col b) = insert_head (mem b)"
  "insert_head (Deallocate mem slot b) = insert_head (mem b)"
  by (rule insert_head_block_header, simp add: frame_simps)+

lemma hot_frame [frame_simps]:
  "hot (copy_row_into_tuple row slot mem b) = hot (mem b)"
  "hot (AtomicallyWriteVersionPtr mem slot p b) = hot (mem b)"
  "hot (SetNull mem slot col b) = hot (mem b)"
  "hot (SetNotNull mem slot col b) = hot (mem b)"
  "hot (AccessForceNotNull mem slot col b) = hot (mem b)"
  "hot (Deallocate mem slot b) = hot (mem b)"
  by (rule hot_block_header, simp add: frame_simps)+

lemma Update_success:
  assumes "Update table slot redo txn st = Some (True, txn', st')"
    and "sorted_row redo" and "VERSION_POINTER_COLUMN_ID \<notin> set (col_ids redo)"
    and fresh: "AtomicallyReadVersionPtr (memory st) slot \<noteq> Some (undo_next st)"
  shows "\<exists>r. pushes st st' slot r (True, overwrite (attrs (memory st) slot) redo)
    \<and> rec_type r = UPDATE \<and> rec_timestamp r = finish_time txn \<and> rec_table r = Some (table_id table)
    \<and> sorted_row (rec_delta r) \<and> VERSION_POINTER_COLUMN_ID \<notin> set (col_ids (rec_delta r))
    \<and> undo_value r (True, overwrite (attrs (memory st) slot) redo) = current_value (memory st) slot
    \<and> txn' = push_undo (undo_next st) txn
    \<and> \<not> HasConflict (undo_recs st) txn (AtomicallyReadVersionPtr (memory st) slot)
    \<and> Visible (memory st) slot"
proof -
  let ?p = "undo_next st" and ?r0 = "update_record table slot redo txn st"
  obtain st2 where w: "wait_until_hot slot (alloc_undo ?r0 st) = Some st2"
    using assms(1) by (auto simp: Update_eq split: option.splits)
  note hot = hot_state [OF w] and conf = hot_conflict [OF w fresh]
  have vp: "AtomicallyReadVersionPtr (memory st2) slot = AtomicallyReadVersionPtr (memory st) slot"
    and at: "attrs (memory st2) slot = attrs (memory st) slot" and al: "Allocated (memory st2) slot = Allocated (memory st) slot"
    using hot(1) [of slot] by (simp_all add: same_slot_def)
  define r where "r = ?r0\<lparr>rec_delta := copy_tuple_into_row (memory st2) slot (rec_delta ?r0),
    rec_next := AtomicallyReadVersionPtr (memory st) slot\<rparr>"
  have res: "\<not> HasConflict (undo_recs st) txn (AtomicallyReadVersionPtr (memory st) slot)" "Visible (memory st) slot"
      "txn' = push_undo ?p txn"
      "st' = st2\<lparr>undo_recs := (undo_recs st)(?p := r), memory := copy_row_into_tuple redo slot
          (AtomicallyWriteVersionPtr (memory st2) slot (Some ?p))\<rparr>"
    using assms(1) [unfolded Update_eq w option.case conf, unfolded vp] by (auto simp: hot(2) r_def split: if_splits)
  have d: "distinct (col_ids redo)" using assms(2) by (rule sorted_row_distinct)
  have delta: "rec_delta r = copy_tuple_into_row (memory st2) slot (CopyProjectedRowLayout (rec_delta (undo_recs st ?p)) redo)"
    by (simp add: r_def update_record_def InitializeUpdate_def)
  have r: "rec_type r = UPDATE" "rec_timestamp r = finish_time txn" "rec_table r = Some (table_id table)"
    "rec_slot r = slot" "rec_next r = AtomicallyReadVersionPtr (memory st) slot" "sorted_row (rec_delta r)"
    "VERSION_POINTER_COLUMN_ID \<notin> set (col_ids (rec_delta r))"
    using assms(2,3) delta by (simp_all add: r_def update_record_def InitializeUpdate_def sorted_row_def
        copy_tuple_into_row CopyProjectedRowLayout_def)
  have "undo_value r (True, overwrite (attrs (memory st) slot) redo) = current_value (memory st) slot"
    using undo_update_value [OF d assms(3) r(1) delta, of True] res(2) by (simp add: at current_value_def)
  moreover have "pushes st st' slot r (True, overwrite (attrs (memory st) slot) redo)"
    unfolding pushes_def
  proof (intro conjI allI impI)
    show "same_slot st st' s" if "s \<noteq> slot" for s
      using hot(1) [of s] that
      by (simp add: res(4) same_slot_def attrs_copy_row [OF d assms(3)] access_simps assms(3))
    show "current_value (memory st') slot = (True, overwrite (attrs (memory st) slot) redo)"
      using hot(1) [of slot] res(2)
      by (simp add: res(4) same_slot_def current_value_def Visible_def attrs_copy_row [OF d assms(3)] access_simps assms(3))
    show "insert_head (memory st' b) = insert_head (memory st b)" for b
      using hot(4) [of b] by (simp add: res(4) frame_simps)
    show "hot (memory st b) \<Longrightarrow> hot (memory st' b)" for b
      using hot(5) [of b] by (simp add: res(4) frame_simps)
  qed (use r res(2) al in \<open>simp_all add: res(4) hot(3) access_simps Visible_def\<close>)
  ultimately show ?thesis using r res(1-3) by (intro exI [of _ r]) simp
qed

lemma Update_failure:
  assumes "Update table slot redo txn st = Some (False, txn', st')"
    and fresh: "AtomicallyReadVersionPtr (memory st) slot \<noteq> Some (undo_next st)"
  shows "\<exists>r. leaves st st' r \<and> rec_timestamp r = finish_time txn \<and> rec_slot r = slot
    \<and> txn' = push_undo (undo_next st) txn
    \<and> (HasConflict (undo_recs st) txn (AtomicallyReadVersionPtr (memory st) slot) \<or> \<not> Visible (memory st) slot)"
proof -
  let ?p = "undo_next st" and ?r0 = "update_record table slot redo txn st"
  obtain st2 where w: "wait_until_hot slot (alloc_undo ?r0 st) = Some st2"
    using assms(1) by (auto simp: Update_eq split: option.splits)
  note hot = hot_state [OF w] and conf = hot_conflict [OF w fresh]
  have "HasConflict (undo_recs st) txn (AtomicallyReadVersionPtr (memory st) slot) \<or> \<not> Visible (memory st) slot"
      "txn' = push_undo ?p txn" "st' = st2\<lparr>undo_recs := (undo_recs st)(?p := ?r0\<lparr>rec_table := None\<rparr>)\<rparr>"
    using assms(1) [unfolded Update_eq w option.case conf] by (auto simp: hot(2) set_rec_table_def split: if_splits)
  moreover have "leaves st (st2\<lparr>undo_recs := (undo_recs st)(?p := ?r0\<lparr>rec_table := None\<rparr>)\<rparr>) (?r0\<lparr>rec_table := None\<rparr>)"
    using hot by (simp add: leaves_def same_slot_def)
  ultimately show ?thesis
    by (intro exI [of _ "?r0\<lparr>rec_table := None\<rparr>"]) (simp add: update_record_def InitializeUpdate_def)
qed

lemma Delete_success:
  assumes "Delete table slot txn st = Some (True, txn', st')"
    and fresh: "AtomicallyReadVersionPtr (memory st) slot \<noteq> Some (undo_next st)"
  shows "\<exists>r. pushes st st' slot r (False, attrs (memory st) slot)
    \<and> rec_type r = DELETE \<and> rec_timestamp r = finish_time txn \<and> rec_table r = Some (table_id table)
    \<and> undo_value r (False, attrs (memory st) slot) = current_value (memory st) slot
    \<and> txn' = push_undo (undo_next st) txn
    \<and> \<not> HasConflict (undo_recs st) txn (AtomicallyReadVersionPtr (memory st) slot)
    \<and> Visible (memory st) slot \<and> IsNull (memory st') slot VERSION_POINTER_COLUMN_ID"
proof -
  let ?p = "undo_next st" and ?r0 = "delete_record table slot txn st"
  obtain st2 where w: "wait_until_hot slot (alloc_undo ?r0 st) = Some st2"
    using assms(1) by (auto simp: Delete_eq split: option.splits)
  note hot = hot_state [OF w] and conf = hot_conflict [OF w fresh]
  have vp: "AtomicallyReadVersionPtr (memory st2) slot = AtomicallyReadVersionPtr (memory st) slot"
    and al: "Allocated (memory st2) slot = Allocated (memory st) slot"
    and at: "attrs (memory st2) slot = attrs (memory st) slot"
    using hot(1) [of slot] by (simp_all add: same_slot_def)
  define r where "r = ?r0\<lparr>rec_next := AtomicallyReadVersionPtr (memory st) slot\<rparr>"
  have res: "\<not> HasConflict (undo_recs st) txn (AtomicallyReadVersionPtr (memory st) slot)" "Visible (memory st) slot"
      "txn' = push_undo ?p txn"
      "st' = st2\<lparr>undo_recs := (undo_recs st)(?p := r), memory := SetNull
          (AtomicallyWriteVersionPtr (memory st2) slot (Some ?p)) slot VERSION_POINTER_COLUMN_ID\<rparr>"
    using assms(1) [unfolded Delete_eq w option.case conf, unfolded vp] by (auto simp: hot(2) r_def split: if_splits)
  have r: "rec_type r = DELETE" "rec_timestamp r = finish_time txn" "rec_table r = Some (table_id table)"
    "rec_slot r = slot" "rec_next r = AtomicallyReadVersionPtr (memory st) slot"
    by (simp_all add: r_def delete_record_def InitializeDelete_def)
  have "pushes st st' slot r (False, attrs (memory st) slot)"
    unfolding pushes_def
  proof (intro conjI allI impI)
    show "same_slot st st' s" if "s \<noteq> slot" for s
      using hot(1) [of s] that by (simp add: res(4) same_slot_def access_simps)
    show "current_value (memory st') slot = (False, attrs (memory st) slot)"
      by (simp add: res(4) at current_value_def Visible_def access_simps)
    show "insert_head (memory st' b) = insert_head (memory st b)" for b
      using hot(4) [of b] by (simp add: res(4) frame_simps)
    show "hot (memory st b) \<Longrightarrow> hot (memory st' b)" for b
      using hot(5) [of b] by (simp add: res(4) frame_simps)
  qed (use r res(2) al in \<open>simp_all add: res(4) hot(3) access_simps Visible_def\<close>)
  then show ?thesis
    using r res(1-3)
    by (intro exI [of _ r]) (simp add: undo_value_def current_value_def res(4) access_simps)
qed

lemma Delete_failure:
  assumes "Delete table slot txn st = Some (False, txn', st')"
    and fresh: "AtomicallyReadVersionPtr (memory st) slot \<noteq> Some (undo_next st)"
  shows "\<exists>r. leaves st st' r \<and> rec_timestamp r = finish_time txn \<and> rec_slot r = slot
    \<and> txn' = push_undo (undo_next st) txn
    \<and> (HasConflict (undo_recs st) txn (AtomicallyReadVersionPtr (memory st) slot) \<or> \<not> Visible (memory st) slot)"
proof -
  let ?p = "undo_next st" and ?r0 = "delete_record table slot txn st"
  obtain st2 where w: "wait_until_hot slot (alloc_undo ?r0 st) = Some st2"
    using assms(1) by (auto simp: Delete_eq split: option.splits)
  note hot = hot_state [OF w] and conf = hot_conflict [OF w fresh]
  have "HasConflict (undo_recs st) txn (AtomicallyReadVersionPtr (memory st) slot) \<or> \<not> Visible (memory st) slot"
      "txn' = push_undo ?p txn" "st' = st2\<lparr>undo_recs := (undo_recs st)(?p := ?r0\<lparr>rec_table := None\<rparr>)\<rparr>"
    using assms(1) [unfolded Delete_eq w option.case conf] by (auto simp: hot(2) set_rec_table_def split: if_splits)
  moreover have "leaves st (st2\<lparr>undo_recs := (undo_recs st)(?p := ?r0\<lparr>rec_table := None\<rparr>)\<rparr>) (?r0\<lparr>rec_table := None\<rparr>)"
    using hot by (simp add: leaves_def same_slot_def)
  ultimately show ?thesis
    by (intro exI [of _ "?r0\<lparr>rec_table := None\<rparr>"]) (simp add: delete_record_def InitializeDelete_def)
qed

text \<open>\<open>InsertInto\<close> overwrites the version pointer, which is null in a slot that was just allocated.\<close>

lemma InsertInto_effect:
  assumes "InsertInto table redo dest txn st = (txn', st')"
    and "distinct (col_ids redo)" and "VERSION_POINTER_COLUMN_ID \<notin> set (col_ids redo)"
    and "Allocated (memory st) dest" and "AtomicallyReadVersionPtr (memory st) dest = None"
  shows "\<exists>r. pushes st st' dest r (True, overwrite (attrs (memory st) dest) redo)
    \<and> rec_type r = INSERT \<and> rec_timestamp r = finish_time txn \<and> rec_table r = Some (table_id table)
    \<and> txn' = push_undo (undo_next st) txn"
proof -
  define r where "r = InitializeInsert (undo_recs st (undo_next st)) (finish_time txn) dest (table_id table)"
  have st': "st' = (alloc_undo r st)\<lparr>memory := copy_row_into_tuple redo dest
      (SetNotNull (AtomicallyWriteVersionPtr (memory st) dest (Some (undo_next st))) dest VERSION_POINTER_COLUMN_ID)\<rparr>"
    and t: "txn' = push_undo (undo_next st) txn"
    using assms(1)
    by (auto simp: InsertInto_def UndoRecordForInsert_def Let_def alloc_undo_def push_undo_def r_def AccessForceNotNull_eq)
  have "pushes st st' dest r (True, overwrite (attrs (memory st) dest) redo)"
    unfolding pushes_def
  proof (intro conjI allI impI)
    show "same_slot st st' s" if "s \<noteq> dest" for s
      using that by (simp add: st' same_slot_def attrs_copy_row [OF assms(2,3)] access_simps assms(3))
    show "current_value (memory st') dest = (True, overwrite (attrs (memory st) dest) redo)"
      by (simp add: st' current_value_def Visible_def attrs_copy_row [OF assms(2,3)] access_simps assms(3,4))
    show "insert_head (memory st' b) = insert_head (memory st b)" "hot (memory st b) \<Longrightarrow> hot (memory st' b)" for b
      by (simp_all add: st' frame_simps)
  qed (use assms(4,5) in \<open>simp_all add: st' alloc_undo_def access_simps r_def InitializeInsert_def\<close>)
  then show ?thesis
    using t by (intro exI [of _ r]) (simp add: r_def InitializeInsert_def)
qed

section \<open>Allocation of a slot\<close>

text \<open>The busy bit of \<open>insert_head\<close>; a block is idle when it is clear.\<close>

definition idle :: "RawBlock \<Rightarrow> bool" where
  "idle b \<longleftrightarrow> ClearBit (insert_head b) = insert_head b"

lemma ClearBit_mask: "ClearBit h = take_bit 31 h"
proof -
  have "(0x7FFFFFFF :: u32) = mask 31" by (simp add: mask_eq_exp_minus_1)
  then show ?thesis by (simp only: ClearBit_def take_bit_eq_mask)
qed

lemma ClearBit_iff: "ClearBit h = h \<longleftrightarrow> unat h < 2 ^ 31"
proof
  assume "ClearBit h = h"
  then have "unat h = unat (take_bit 31 h)" by (simp add: ClearBit_mask)
  also have "\<dots> = take_bit 31 (unat h)" by (simp add: unsigned_take_bit_eq)
  finally show "unat h < 2 ^ 31" by (metis take_bit_nat_less_exp)
next
  assume "unat h < 2 ^ 31"
  then have "unat (take_bit 31 h) = unat h" by (simp add: unsigned_take_bit_eq take_bit_nat_eq_self_iff)
  then show "ClearBit h = h" by (simp add: ClearBit_mask unsigned_word_eqI)
qed

lemma SetBit_add: "unat h < 2 ^ 31 \<Longrightarrow> SetBit h = h + 0x80000000"
proof -
  assume "unat h < 2 ^ 31"
  then have h: "take_bit 31 h = h" using ClearBit_iff ClearBit_mask by metis
  have "(0x80000000 :: u32) = push_bit 31 1" by simp
  moreover have small: "i < 31" if "bit h i" for i
    using that h by (metis bit_take_bit_iff)
  have "h AND push_bit 31 1 = 0"
    by (rule bit_word_eqI) (auto simp only: bit_and_iff bit_push_bit_iff bit_0_eq bot_apply bot_bool_def dest: small)
  ultimately show ?thesis by (simp add: SetBit_def disjunctive_add_eq_or)
qed

lemma ClearBit_SetBit: "ClearBit (SetBit h) = ClearBit h"
proof -
  have "(0x80000000 :: u32) = push_bit 31 1" by simp
  then show ?thesis
    unfolding SetBit_def ClearBit_mask
    by (intro bit_word_eqI) (auto simp: bit_simps)
qed

lemma ClearBit_SetBit_Suc:
  assumes "unat h + 1 < 2 ^ 31"
  shows "ClearBit (SetBit h + 1) = h + 1"
proof -
  have u: "unat (h + 1) = unat h + 1" using assms by (simp add: unat_word_ariths)
  have "SetBit h + 1 = SetBit (h + 1)" using assms u by (simp add: SetBit_add)
  then show ?thesis using assms u ClearBit_SetBit [of "h + 1"] ClearBit_iff [of "h + 1"] by simp
qed

text \<open>What \<open>Allocate\<close> leaves in a block once the busy bit is clear again.\<close>

definition take_slot :: "u64 \<Rightarrow> block_memory \<Rightarrow> block_memory" where
  "take_slot b mem = mem(b := (mem b)
     \<lparr>slot_bitmap := snd (Flip (slot_bitmap (mem b)) (unat (insert_head (mem b))) False),
      insert_head := insert_head (mem b) + 1\<rparr>)"

definition add_block :: "DataTable \<Rightarrow> u64 \<Rightarrow> block_memory \<Rightarrow> block_memory" where
  "add_block table b mem = mem(b :=
     InitializeRawBlock (table_layout table) (table_id table) (mem b) (table_layout_version table))"

lemma GetInsertHead_idle: "idle b \<Longrightarrow> GetInsertHead b = insert_head b"
  by (simp add: GetInsertHead_def idle_def ClearBit_def and.commute)

lemma SetBlockBusyStatus_idle:
  "idle (mem b) \<Longrightarrow> SetBlockBusyStatus mem b = (True, mem(b := (mem b)\<lparr>insert_head := SetBit (insert_head (mem b))\<rparr>))"
  by (simp add: SetBlockBusyStatus_def idle_def update_block_def)

lemma GetInsertHead_busy:
  "idle b \<Longrightarrow> GetInsertHead (b\<lparr>insert_head := SetBit (insert_head b)\<rparr>) = insert_head b"
  using ClearBit_SetBit [of "insert_head b"]
  by (simp add: GetInsertHead_def idle_def ClearBit_def and.commute)

lemma claim_full_block:
  assumes "idle (mem b)" and "insert_head (mem b) = num_slots layout"
  shows "Allocate layout (snd (SetBlockBusyStatus mem b)) b = None"
    and "ClearBlockBusyStatus (snd (SetBlockBusyStatus mem b)) b = mem"
proof -
  show "Allocate layout (snd (SetBlockBusyStatus mem b)) b = None"
    using GetInsertHead_busy [OF assms(1)] by (simp add: SetBlockBusyStatus_idle assms(1) Allocate_def assms(2))
  have "(mem b)\<lparr>insert_head := ClearBit (SetBit (insert_head (mem b)))\<rparr> = mem b"
    using assms(1) by (simp add: ClearBit_SetBit idle_def)
  then show "ClearBlockBusyStatus (snd (SetBlockBusyStatus mem b)) b = mem"
    by (simp add: SetBlockBusyStatus_idle assms(1) ClearBlockBusyStatus_def update_block_def fun_upd_idem)
qed

lemma claim_free_block:
  assumes "idle (mem b)" and "insert_head (mem b) \<noteq> num_slots layout" and "unat (insert_head (mem b)) + 1 < 2 ^ 31"
  shows "\<exists>mem'. Allocate layout (snd (SetBlockBusyStatus mem b)) b = Some (make_TupleSlot b (insert_head (mem b)), mem')
    \<and> ClearBlockBusyStatus mem' b = take_slot b mem"
  using assms ClearBit_SetBit_Suc [of "insert_head (mem b)"]
  by (simp add: SetBlockBusyStatus_idle Allocate_def GetInsertHead_busy Let_def
      ClearBlockBusyStatus_def update_block_def take_slot_def)
text \<open>
  How the search for a free block changes a table: it moves the insertion head, or it appends the
  block \<open>b\<close> that the block store gives out.
\<close>

definition grows :: "DataTable \<Rightarrow> BlockStore \<Rightarrow> block_memory \<Rightarrow> u64 \<Rightarrow> DataTable \<Rightarrow> BlockStore \<Rightarrow> block_memory \<Rightarrow> bool" where
  "grows table store mem b table' store' mem' \<longleftrightarrow>
     (\<exists>k. table' = table\<lparr>insertion_head := k\<rparr> \<and> store' = store \<and> mem' = mem)
     \<or> (\<exists>k. BlockStore_Get store = Inr (b, store')
          \<and> table' = table\<lparr>blocks := blocks table @ [b], insertion_head := k\<rparr> \<and> mem' = add_block table b mem)"

definition heads_ok :: "DataTable \<Rightarrow> block_memory \<Rightarrow> bool" where
  "heads_ok table mem \<longleftrightarrow>
     0 < unat (num_slots (table_layout table)) \<and> unat (num_slots (table_layout table)) \<le> BLOCK_SIZE
     \<and> (\<forall>b \<in> set (blocks table). idle (mem b) \<and> insert_head (mem b) \<le> num_slots (table_layout table))"

text \<open>The result of the search: a slot at the insert head of an idle block, which is then taken.\<close>

definition finds_slot ::
  "DataTable \<Rightarrow> BlockStore \<Rightarrow> storage \<Rightarrow> TupleSlot \<Rightarrow> nat \<Rightarrow> DataTable \<Rightarrow> BlockStore \<Rightarrow> storage \<Rightarrow> bool" where
  "finds_slot table store st slot i table' store' st' \<longleftrightarrow>
     (\<exists>b mem. i < length (blocks table') \<and> b = blocks table' ! i \<and> insertion_head table' = i
        \<and> grows table store (memory st) b table' store' mem
        \<and> idle (mem b) \<and> insert_head (mem b) < num_slots (table_layout table)
        \<and> slot = make_TupleSlot b (insert_head (mem b))
        \<and> st' = st\<lparr>memory := memory st'\<rparr>
        \<and> ClearBlockBusyStatus (memory st') b = take_slot b mem)"

lemma NewBlock_eq:
  "NewBlock table store st =
     (case BlockStore_Get store of
        Inl e \<Rightarrow> Inl e
      | Inr (b, store') \<Rightarrow> Inr (b, store', st\<lparr>memory := add_block table b (memory st)\<rparr>))"
  by (simp add: NewBlock_def add_block_def split: sum.split prod.split)

lemma add_block_head [simp]:
  "insert_head (add_block table b mem b) = 0" "idle (add_block table b mem b)"
  by (simp_all add: add_block_def InitializeRawBlock_def idle_def ClearBit_def)

lemma Insert_loop_free:
  assumes "block < length (blocks table)" and "idle (mem (blocks table ! block))"
    and "insert_head (mem (blocks table ! block)) < num_slots (table_layout table)"
    and "unat (num_slots (table_layout table)) \<le> BLOCK_SIZE" and "memory st = mem"
  shows "\<exists>st'. Insert_loop asserts block table store st =
      Some (Inr (make_TupleSlot (blocks table ! block) (insert_head (mem (blocks table ! block))), block, table, store, st'))
    \<and> st' = st\<lparr>memory := memory st'\<rparr>
    \<and> ClearBlockBusyStatus (memory st') (blocks table ! block) = take_slot (blocks table ! block) mem"
proof -
  let ?b = "blocks table ! block"
  have "unat (insert_head (mem ?b)) + 1 < 2 ^ 31"
    using assms(3,4) by (simp add: word_less_nat_alt BLOCK_SIZE_def)
  moreover have "insert_head (mem ?b) \<noteq> num_slots (table_layout table)" using assms(3) by auto
  ultimately obtain mem' where
    "Allocate (table_layout table) (snd (SetBlockBusyStatus mem ?b)) ?b = Some (make_TupleSlot ?b (insert_head (mem ?b)), mem')"
    "ClearBlockBusyStatus mem' ?b = take_slot ?b mem"
    using claim_free_block [of mem ?b "table_layout table"] assms(2) by blast
  then show ?thesis
    using assms(1,2,5)
    by (subst Insert_loop.simps) (simp add: SetBlockBusyStatus_idle)
qed

lemma Insert_loop_full:
  assumes "block < length (blocks table)" and "idle (memory st (blocks table ! block))"
    and "insert_head (memory st (blocks table ! block)) = num_slots (table_layout table)"
  shows "Insert_loop asserts block table store st =
    (case CheckMoveHead block table store st of
       Inl e \<Rightarrow> Some (Inl e)
     | Inr (table', store', st') \<Rightarrow> Insert_loop asserts (block + 1) table' store' st')"
  using claim_full_block [of "memory st" "blocks table ! block" "table_layout table"] assms
  by (subst Insert_loop.simps) (simp add: SetBlockBusyStatus_idle)

lemma Insert_loop_runs:
  assumes "heads_ok table (memory st)" and "block = insertion_head table" and "block < length (blocks table)"
  shows "(\<exists>e. Insert_loop asserts block table store st = Some (Inl e) \<and> BlockStore_Get store = Inl e)
    \<or> (\<exists>slot i table' store' st'. Insert_loop asserts block table store st = Some (Inr (slot, i, table', store', st'))
         \<and> finds_slot table store st slot i table' store' st')"
  using assms
proof (induction "length (blocks table) - block" arbitrary: block table)
  case (Suc n)
  let ?b = "blocks table ! block" and ?L = "table_layout table"
  have b: "idle (memory st ?b)" "insert_head (memory st ?b) \<le> num_slots ?L" and L: "unat (num_slots ?L) \<le> BLOCK_SIZE"
      "0 < unat (num_slots ?L)"
    using Suc.prems(1,3) by (auto simp: heads_ok_def)
  show ?case
  proof (cases "insert_head (memory st ?b) = num_slots ?L")
    case False
    then have lt: "insert_head (memory st ?b) < num_slots ?L" using b(2) by simp
    obtain st' where "Insert_loop asserts block table store st =
          Some (Inr (make_TupleSlot ?b (insert_head (memory st ?b)), block, table, store, st'))"
        "st' = st\<lparr>memory := memory st'\<rparr>" "ClearBlockBusyStatus (memory st') ?b = take_slot ?b (memory st)"
      using Insert_loop_free [where st = st and mem = "memory st" and asserts = asserts and store = store]
        Suc.prems(3) b(1) lt L(1) by blast
    moreover from this(2,3) have "finds_slot table store st (make_TupleSlot ?b (insert_head (memory st ?b))) block table store st'"
      unfolding finds_slot_def using Suc.prems(2,3) b(1) lt
      by (intro exI [of _ ?b] exI [of _ "memory st"]) (auto simp: grows_def intro: exI [of _ "insertion_head table"])
    ultimately show ?thesis by blast
  next
    case full: True
    note step = Insert_loop_full [OF Suc.prems(3) b(1) full, of asserts store]
    let ?t = "table\<lparr>insertion_head := Suc block\<rparr>"
    show ?thesis
    proof (cases "Suc block = length (blocks table)")
      case False
      then have "Insert_loop asserts block table store st = Insert_loop asserts (Suc block) ?t store st"
        using step Suc.prems(2) by (simp add: CheckMoveHead_def Let_def)
      moreover have "heads_ok ?t (memory st)" "Suc block < length (blocks ?t)" "n = length (blocks ?t) - Suc block"
        using Suc.prems Suc.hyps(2) False by (simp_all add: heads_ok_def)
      moreover have "finds_slot ?t store st slot i t' s' st' \<Longrightarrow> finds_slot table store st slot i t' s' st'" for slot i t' s' st'
        by (auto simp: finds_slot_def grows_def add_block_def)
      ultimately show ?thesis using Suc.hyps(1) [of ?t "Suc block"] by fastforce
    next
      case last: True
      show ?thesis
      proof (cases "BlockStore_Get store")
        case (Inl e)
        then show ?thesis
          using step last Suc.prems(2) by (simp add: CheckMoveHead_def Let_def NewBlock_eq)
      next
        case (Inr bs)
        obtain nb store1 where bs: "bs = (nb, store1)" by fastforce
        let ?t1 = "table\<lparr>blocks := blocks table @ [nb], insertion_head := length (blocks table)\<rparr>"
        let ?st1 = "st\<lparr>memory := add_block table nb (memory st)\<rparr>"
        have run: "Insert_loop asserts block table store st = Insert_loop asserts (length (blocks table)) ?t1 store1 ?st1"
          using step last Suc.prems(2) Inr bs by (simp add: CheckMoveHead_def Let_def NewBlock_eq add_block_def)
        have "length (blocks table) < length (blocks ?t1)" "blocks ?t1 ! length (blocks table) = nb" by simp_all
        moreover have "(0 :: u32) < num_slots ?L" using L(2) by (simp add: word_less_nat_alt)
        ultimately obtain st' where
          "Insert_loop asserts (length (blocks table)) ?t1 store1 ?st1 = Some (Inr (make_TupleSlot nb 0, length (blocks table), ?t1, store1, st'))"
          "st' = ?st1\<lparr>memory := memory st'\<rparr>" "ClearBlockBusyStatus (memory st') nb = take_slot nb (add_block table nb (memory st))"
          using Insert_loop_free [of "length (blocks table)" ?t1 "add_block table nb (memory st)" ?st1 asserts store1] L(1) by fastforce
        moreover from this(2,3) have "finds_slot table store st (make_TupleSlot nb 0) (length (blocks table)) ?t1 store1 st'"
          unfolding finds_slot_def using Inr bs \<open>(0 :: u32) < num_slots ?L\<close>
          by (intro exI [of _ nb] exI [of _ "add_block table nb (memory st)"])
             (auto simp: grows_def intro: exI [of _ "length (blocks table)"])
        ultimately show ?thesis unfolding run by blast
      qed
    qed
  qed
qed simp

lemma Insert_runs:
  assumes "heads_ok table (memory st)" and "insertion_head table < length (blocks table)"
  shows "(\<exists>e. Insert asserts redo txn table store st = Some (Inl e) \<and> BlockStore_Get store = Inl e)
    \<or> (\<exists>slot b mem txn' table' store' st'. Insert asserts redo txn table store st = Some (Inr (slot, txn', table', store', st'))
         \<and> grows table store (memory st) b table' store' mem
         \<and> b \<in> set (blocks table') \<and> insertion_head table' < length (blocks table')
         \<and> idle (mem b) \<and> insert_head (mem b) < num_slots (table_layout table)
         \<and> slot = make_TupleSlot b (insert_head (mem b))
         \<and> InsertInto table' redo slot txn (st\<lparr>memory := take_slot b mem\<rparr>) = (txn', st'))"
  using Insert_loop_runs [OF assms(1) refl assms(2), of asserts store]
proof (elim disjE exE conjE)
  fix e assume "Insert_loop asserts (insertion_head table) table store st = Some (Inl e)" "BlockStore_Get store = Inl e"
  then show ?thesis by (simp add: Insert_def)
next
  fix slot i table' store' st1
  assume run: "Insert_loop asserts (insertion_head table) table store st = Some (Inr (slot, i, table', store', st1))"
    and "finds_slot table store st slot i table' store' st1"
  then obtain b mem where f: "i < length (blocks table')" "b = blocks table' ! i" "insertion_head table' = i"
    "grows table store (memory st) b table' store' mem" "idle (mem b)" "insert_head (mem b) < num_slots (table_layout table)"
    "slot = make_TupleSlot b (insert_head (mem b))" "st1 = st\<lparr>memory := memory st1\<rparr>"
    "ClearBlockBusyStatus (memory st1) b = take_slot b mem"
    by (auto simp: finds_slot_def)
  have st: "st1\<lparr>memory := ClearBlockBusyStatus (memory st1) b\<rparr> = st\<lparr>memory := take_slot b mem\<rparr>"
    by (subst f(8)) (simp add: f(9))
  obtain txn' st' where ii: "InsertInto table' redo slot txn (st\<lparr>memory := take_slot b mem\<rparr>) = (txn', st')" by fastforce
  then have "Insert asserts redo txn table store st = Some (Inr (slot, txn', table', store', st'))"
    using run st f(2) by (simp add: Insert_def Let_def)
  moreover have "b \<in> set (blocks table')" using f(1,2) by simp
  ultimately show ?thesis using f ii by blast
qed

text \<open>
  Which slot an insert takes: the search goes through the blocks from the insertion head on, and asks
  the block store only when none of them has a slot left.
\<close>

definition free_blocks :: "DataTable \<Rightarrow> block_memory \<Rightarrow> u64 list" where
  "free_blocks table mem =
     filter (\<lambda>b. insert_head (mem b) < num_slots (table_layout table)) (drop (insertion_head table) (blocks table))"

lemma add_block_insertion_head [simp]: "add_block (table\<lparr>insertion_head := k\<rparr>) b mem = add_block table b mem"
  by (simp add: add_block_def)

lemma Insert_loop_picks:
  assumes "heads_ok table (memory st)" and "block = insertion_head table" and "block < length (blocks table)"
  shows "case free_blocks table (memory st) of
      b # _ \<Rightarrow> \<exists>i k st'. Insert_loop asserts block table store st =
        Some (Inr (make_TupleSlot b (insert_head (memory st b)), i, table\<lparr>insertion_head := k\<rparr>, store, st'))
    | [] \<Rightarrow> (case BlockStore_Get store of
        Inl e \<Rightarrow> Insert_loop asserts block table store st = Some (Inl e)
      | Inr (b, store') \<Rightarrow> \<exists>i k st'. Insert_loop asserts block table store st =
          Some (Inr (make_TupleSlot b 0, i, table\<lparr>blocks := blocks table @ [b], insertion_head := k\<rparr>, store', st')))"
  using assms
proof (induction "length (blocks table) - block" arbitrary: block table)
  case (Suc n)
  let ?b = "blocks table ! block" and ?L = "table_layout table" and ?t = "table\<lparr>insertion_head := Suc block\<rparr>"
  have b: "idle (memory st ?b)" "insert_head (memory st ?b) \<le> num_slots ?L" and L: "unat (num_slots ?L) \<le> BLOCK_SIZE"
      "0 < num_slots ?L"
    using Suc.prems(1,3) by (auto simp: heads_ok_def word_less_nat_alt)
  have rest: "free_blocks table (memory st) =
      (if insert_head (memory st ?b) < num_slots ?L then [?b] else []) @ free_blocks ?t (memory st)"
    using Suc.prems(2,3) by (simp add: free_blocks_def flip: Cons_nth_drop_Suc)
  show ?case
  proof (cases "insert_head (memory st ?b) = num_slots ?L")
    case False
    then have lt: "insert_head (memory st ?b) < num_slots ?L" using b(2) by simp
    obtain st' where "Insert_loop asserts block table store st =
        Some (Inr (make_TupleSlot ?b (insert_head (memory st ?b)), block, table\<lparr>insertion_head := insertion_head table\<rparr>, store, st'))"
      using Insert_loop_free [of block table "memory st" st asserts store] Suc.prems(3) b(1) lt L(1) by auto
    then have "\<exists>i k st'. Insert_loop asserts block table store st =
        Some (Inr (make_TupleSlot ?b (insert_head (memory st ?b)), i, table\<lparr>insertion_head := k\<rparr>, store, st'))" by blast
    then show ?thesis using rest lt by simp
  next
    case full: True
    note step = Insert_loop_full [OF Suc.prems(3) b(1) full, of asserts store]
    have rest: "free_blocks table (memory st) = free_blocks ?t (memory st)" using rest full by simp
    show ?thesis
    proof (cases "Suc block = length (blocks table)")
      case False
      then have "Insert_loop asserts block table store st = Insert_loop asserts (Suc block) ?t store st"
        using step Suc.prems(2) by (simp add: CheckMoveHead_def Let_def)
      moreover have "heads_ok ?t (memory st)" "Suc block < length (blocks ?t)" "n = length (blocks ?t) - Suc block"
        using Suc.prems Suc.hyps(2) False by (simp_all add: heads_ok_def)
      ultimately show ?thesis
        using Suc.hyps(1) [of ?t "Suc block"] unfolding rest by (simp split: list.splits sum.splits prod.splits)
    next
      case last: True
      have none: "free_blocks ?t (memory st) = []" using last by (simp add: free_blocks_def)
      have "\<exists>st'. Insert_loop asserts block table store st = Some (Inr (make_TupleSlot nb 0, length (blocks table),
          table\<lparr>blocks := blocks table @ [nb], insertion_head := length (blocks table)\<rparr>, store1, st'))"
        if "BlockStore_Get store = Inr (nb, store1)" for nb store1
        using Insert_loop_free [of "length (blocks table)" "table\<lparr>blocks := blocks table @ [nb], insertion_head := length (blocks table)\<rparr>"
            "add_block table nb (memory st)" "st\<lparr>memory := add_block table nb (memory st)\<rparr>" asserts store1]
          step last Suc.prems(2) that L by (auto simp: CheckMoveHead_def Let_def NewBlock_eq)
      moreover have "Insert_loop asserts block table store st = Some (Inl e)" if "BlockStore_Get store = Inl e" for e
        using step last Suc.prems(2) that by (simp add: CheckMoveHead_def Let_def NewBlock_eq)
      ultimately show ?thesis unfolding rest none by (fastforce split: sum.splits)
    qed
  qed
qed simp

lemma Insert_picks:
  assumes "heads_ok table (memory st)" and "insertion_head table < length (blocks table)"
  shows "case free_blocks table (memory st) of
      b # _ \<Rightarrow> \<exists>txn' k st'. Insert asserts redo txn table store st =
        Some (Inr (make_TupleSlot b (insert_head (memory st b)), txn', table\<lparr>insertion_head := k\<rparr>, store, st'))
    | [] \<Rightarrow> (case BlockStore_Get store of
        Inl e \<Rightarrow> Insert asserts redo txn table store st = Some (Inl e)
      | Inr (b, store') \<Rightarrow> \<exists>txn' k st'. Insert asserts redo txn table store st =
          Some (Inr (make_TupleSlot b 0, txn', table\<lparr>blocks := blocks table @ [b], insertion_head := k\<rparr>, store', st')))"
  using Insert_loop_picks [OF assms(1) refl assms(2), of asserts store]
  by (fastforce simp: Insert_def Let_def split: list.splits sum.splits prod.splits)

end
