(* ===== verification/TransactionManager.thy ===== *)
theory TransactionManager
  imports DataTable
begin

text \<open>
  \<^verbatim>\<open>transaction/transaction_manager.cpp\<close>: begin, commit and abort on the state that all components
  share. Transaction contexts are identified by their start time, which is unique. Each call runs
  without interference; the gate that keeps new transactions out while a commit flips timestamps is
  the subject of the theory \<open>CommitGate\<close>.
\<close>

section \<open>State\<close>

record database =
  ts_manager :: TimestampManager
  contexts :: "timestamp \<Rightarrow> TransactionContext option"
  store :: storage
  tables :: "nat \<Rightarrow> DataTable"
  block_store :: BlockStore
  completed_txns :: "timestamp list"
  deferred :: DeferredActionManager
  log_queue :: flush_queue
  callbacks :: "timestamp list"
  log_enabled :: bool
  gc_enabled :: bool

section \<open>Begin\<close>

definition BeginTransaction :: "database \<Rightarrow> timestamp \<times> database" where
  "BeginTransaction db =
     (case TimestampManager_BeginTransaction (ts_manager db) of
        (start, tm) \<Rightarrow>
          (start, db\<lparr>ts_manager := tm,
                      contexts := (contexts db)(start \<mapsto> new_TransactionContext start (start + INT64_MIN))\<rparr>))"

section \<open>Commit\<close>

definition set_timestamps :: "timestamp \<Rightarrow> nat list \<Rightarrow> storage \<Rightarrow> storage" where
  "set_timestamps ts ps st =
     st\<lparr>undo_recs := fold (\<lambda>p h. h(p := (h p)\<lparr>rec_timestamp := ts\<rparr>)) ps (undo_recs st)\<rparr>"

definition UpdatingCommitCriticalSection ::
  "TransactionContext \<Rightarrow> database \<Rightarrow> timestamp \<times> database" where
  "UpdatingCommitCriticalSection txn db =
     (case CheckOutTimestamp (ts_manager db) of
        (commit_time, tm) \<Rightarrow>
          (commit_time, db\<lparr>ts_manager := tm, store := set_timestamps commit_time (undo_buffer txn) (store db)\<rparr>))"

definition LogCommit ::
  "TransactionContext \<Rightarrow> timestamp \<Rightarrow> timestamp \<Rightarrow> database \<Rightarrow> TransactionContext \<times> database" where
  "LogCommit txn commit_time oldest_active_txn db =
     (if log_enabled db then
        (case RedoBuffer_NewEntry True
                \<lparr>log_txn_begin = StartTime txn,
                 log_body = CommitRecord commit_time oldest_active_txn (IsReadOnly txn)\<rparr>
                (redo_buffer txn) (log_queue db) of
           (rb, q) \<Rightarrow>
             case RedoBuffer_Finalize True True rb q of
               (rb, q) \<Rightarrow> (txn\<lparr>redo_buffer := rb\<rparr>, db\<lparr>log_queue := q\<rparr>))
      else
        (case RedoBuffer_Finalize False True (redo_buffer txn) (log_queue db) of
           (rb, q) \<Rightarrow>
             (txn\<lparr>redo_buffer := rb\<rparr>,
              db\<lparr>ts_manager := RemoveTransaction (StartTime txn) (ts_manager db),
                 callbacks := callbacks db @ [StartTime txn], log_queue := q\<rparr>)))"

text \<open>End actions run from the front; each registers its deferred actions at the current time.\<close>

definition run_end_actions :: "deferred_action list list \<Rightarrow> database \<Rightarrow> database" where
  "run_end_actions actions db =
     db\<lparr>deferred := fold (\<lambda>a dam. snd (RegisterDeferredAction (CurrentTime (ts_manager db)) a dam))
          (concat actions) (deferred db)\<rparr>"

text \<open>The context, with what the call changed in it, is handed to the collector.\<close>

definition hand_off :: "timestamp \<Rightarrow> TransactionContext \<Rightarrow> database \<Rightarrow> database" where
  "hand_off t txn db =
     db\<lparr>contexts := (contexts db)(t \<mapsto> txn),
        completed_txns := (if gc_enabled db then t # completed_txns db else completed_txns db)\<rparr>"

definition Commit :: "timestamp \<Rightarrow> database \<Rightarrow> timestamp \<times> database" where
  "Commit t db =
     (let txn = the (contexts db t);
          (result, db) = (if IsReadOnly txn
             then (case CheckOutTimestamp (ts_manager db) of (ts, tm) \<Rightarrow> (ts, db\<lparr>ts_manager := tm\<rparr>))
             else UpdatingCommitCriticalSection txn db);
          txn = txn\<lparr>finish_time := result\<rparr>;
          db = run_end_actions (commit_actions txn) db;
          txn = txn\<lparr>commit_actions := []\<rparr>;
          oldest_active_txn = (if log_enabled db \<and> \<not> IsReadOnly txn
             then CachedOldestTransactionStartTime (ts_manager db) else INVALID_TXN_TIMESTAMP);
          (txn, db) = LogCommit txn result oldest_active_txn db
      in (result, hand_off t txn db))"

section \<open>Abort\<close>

text \<open>A varlen entry in a 16-byte cell.\<close>

definition cell_varlen :: "bytes \<Rightarrow> VarlenEntry" where
  "cell_varlen bs = \<lparr>varlen_size = of_nat (le_nat (take 4 bs)), varlen_tail = drop 4 bs\<rparr>"

definition loose_ptr :: "bytes option \<Rightarrow> u64 list" where
  "loose_ptr v =
     (case v of
        None \<Rightarrow> []
      | Some bs \<Rightarrow> if NeedReclaim (cell_varlen bs) then [varlen_content (cell_varlen bs)] else [])"

definition DeallocateColumnUpdateIfVarlen ::
  "BlockLayout \<Rightarrow> UndoRecord \<Rightarrow> nat \<Rightarrow> block_memory \<Rightarrow> TransactionContext \<Rightarrow> TransactionContext" where
  "DeallocateColumnUpdateIfVarlen layout undo i mem txn =
     (let col = col_ids (rec_delta undo) ! i
      in if IsVarlen layout col
         then txn\<lparr>loose_ptrs := loose_ptrs txn @ loose_ptr (AccessWithNullCheck mem (rec_slot undo) col)\<rparr>
         else txn)"

definition DeallocateInsertedTupleIfVarlen ::
  "BlockLayout \<Rightarrow> UndoRecord \<Rightarrow> block_memory \<Rightarrow> TransactionContext \<Rightarrow> TransactionContext" where
  "DeallocateInsertedTupleIfVarlen layout undo mem txn =
     fold (\<lambda>col txn. if IsVarlen layout col
             then txn\<lparr>loose_ptrs := loose_ptrs txn @ loose_ptr (AccessWithNullCheck mem (rec_slot undo) col)\<rparr>
             else txn)
       (AllColumns layout) txn"

text \<open>One round of the loop of \<open>Rollback\<close>.\<close>

definition rollback_record ::
  "BlockLayout \<Rightarrow> TupleSlot \<Rightarrow> UndoRecord \<Rightarrow> TransactionContext \<times> block_memory \<Rightarrow> TransactionContext \<times> block_memory" where
  "rollback_record layout slot undo tm =
     (case rec_type undo of
        UPDATE \<Rightarrow>
          fold (\<lambda>i (txn, mem). (DeallocateColumnUpdateIfVarlen layout undo i mem txn,
                                 CopyAttrFromProjection (rec_delta undo) slot i mem))
            [0..<PR_NumColumns (rec_delta undo)] tm
      | INSERT \<Rightarrow>
          (case tm of (txn, mem) \<Rightarrow>
             (DeallocateInsertedTupleIfVarlen layout undo mem txn,
              Deallocate (SetNull mem slot VERSION_POINTER_COLUMN_ID) slot))
      | DELETE \<Rightarrow> (case tm of (txn, mem) \<Rightarrow> (txn, SetNotNull mem slot VERSION_POINTER_COLUMN_ID)))"

partial_function (option) rollback_chain ::
  "BlockLayout \<Rightarrow> TupleSlot \<Rightarrow> undo_heap \<Rightarrow> undo_ptr \<Rightarrow> TransactionContext \<times> block_memory
     \<Rightarrow> (TransactionContext \<times> block_memory) option" where
  "rollback_chain layout slot h undo_record tm =
     (case undo_record of
        None \<Rightarrow> Some tm
      | Some p \<Rightarrow>
          if rec_timestamp (h p) = finish_time (fst tm)
          then rollback_chain layout slot h (rec_next (h p)) (rollback_record layout slot (h p) tm)
          else Some tm)"

definition Rollback ::
  "(nat \<Rightarrow> DataTable) \<Rightarrow> UndoRecord \<Rightarrow> TransactionContext \<Rightarrow> storage \<Rightarrow> (TransactionContext \<times> storage) option" where
  "Rollback tbls r txn st =
     (case rec_table r of
        None \<Rightarrow> Some (txn, st)
      | Some t \<Rightarrow>
          case rollback_chain (table_layout (tbls t)) (rec_slot r) (undo_recs st)
                 (AtomicallyReadVersionPtr (memory st) (rec_slot r)) (txn, memory st) of
            None \<Rightarrow> None
          | Some (txn, mem) \<Rightarrow> Some (txn, st\<lparr>memory := mem\<rparr>))"

text \<open>The loop of \<open>Abort\<close> over the undo buffer, with the set of slots that were rolled back.\<close>

fun rollback_all ::
  "(nat \<Rightarrow> DataTable) \<Rightarrow> nat list \<Rightarrow> TupleSlot list \<Rightarrow> TransactionContext \<Rightarrow> storage
     \<Rightarrow> (TransactionContext \<times> storage) option" where
  "rollback_all tbls [] slots_rolled_back txn st = Some (txn, st)"
| "rollback_all tbls (p # ps) slots_rolled_back txn st =
     (let r = undo_recs st p
      in if rec_slot r \<in> set slots_rolled_back then rollback_all tbls ps slots_rolled_back txn st
         else
           case Rollback tbls r txn st of
             None \<Rightarrow> None
           | Some (txn, st) \<Rightarrow> rollback_all tbls ps (rec_slot r # slots_rolled_back) txn st)"

text \<open>
  \<open>None\<close> is the dereference of a null pointer: \<open>last_undo_record\<close> when there is no undo record, or the
  block of a slot that was never set.
\<close>

definition GCLastUpdateOnAbort ::
  "(nat \<Rightarrow> DataTable) \<Rightarrow> TransactionContext \<Rightarrow> storage \<Rightarrow> TransactionContext option" where
  "GCLastUpdateOnAbort tbls txn st =
     (case RedoBuffer_LastRecord (redo_buffer txn) of
        None \<Rightarrow> Some txn
      | Some last_log_record \<Rightarrow>
          case log_body last_log_record of
            RedoRecord _ _ slot delta \<Rightarrow>
              if undo_buffer txn = [] then None
              else if rec_table (undo_recs st (last (undo_buffer txn))) \<noteq> None then Some txn
              else
                (case (if GetBlock slot = 0 then None else data_table (memory st (GetBlock slot))) of
                   None \<Rightarrow> None
                 | Some t \<Rightarrow>
                     Some (fold (\<lambda>i txn. if IsVarlen (table_layout (tbls t)) (col_ids delta ! i)
                             then txn\<lparr>loose_ptrs := loose_ptrs txn @ loose_ptr (PR_AccessWithNullCheck delta i)\<rparr>
                             else txn)
                       [0..<PR_NumColumns delta] txn))
          | _ \<Rightarrow> Some txn)"

definition LogAbort :: "TransactionContext \<Rightarrow> database \<Rightarrow> TransactionContext \<times> database" where
  "LogAbort txn db =
     (if log_enabled db \<and> has_flushed (redo_buffer txn) then
        (case RedoBuffer_NewEntry True \<lparr>log_txn_begin = StartTime txn, log_body = AbortRecord\<rparr>
                (RedoBuffer_Reset (redo_buffer txn)) (log_queue db) of
           (rb, q) \<Rightarrow>
             case RedoBuffer_Finalize True True rb q of
               (rb, q) \<Rightarrow> (txn\<lparr>redo_buffer := rb\<rparr>, db\<lparr>log_queue := q\<rparr>))
      else
        (case RedoBuffer_Finalize (log_enabled db) False (redo_buffer txn) (log_queue db) of
           (rb, q) \<Rightarrow>
             (txn\<lparr>redo_buffer := rb\<rparr>,
              db\<lparr>ts_manager := RemoveTransaction (StartTime txn) (ts_manager db), log_queue := q\<rparr>)))"

definition Abort :: "timestamp \<Rightarrow> database \<Rightarrow> (timestamp \<times> database) option" where
  "Abort t db =
     (let txn = the (contexts db t);
          db = run_end_actions (abort_actions txn) db;
          txn = txn\<lparr>abort_actions := []\<rparr>
      in case rollback_all (tables db) (undo_buffer txn) [] txn (store db) of
           None \<Rightarrow> None
         | Some (txn, st) \<Rightarrow>
             let (abort_time, tm) = CheckOutTimestamp (ts_manager db);
                 st = set_timestamps abort_time (undo_buffer txn) st;
                 txn = txn\<lparr>finish_time := abort_time, aborted := True\<rparr>
             in case GCLastUpdateOnAbort (tables db) txn st of
                  None \<Rightarrow> None
                | Some txn \<Rightarrow>
                    let (txn, db) = LogAbort txn (db\<lparr>ts_manager := tm, store := st\<rparr>)
                    in Some (abort_time, hand_off t txn db))"

definition CompletedTransactionsForGC :: "database \<Rightarrow> timestamp list \<times> database" where
  "CompletedTransactionsForGC db = (completed_txns db, db\<lparr>completed_txns := []\<rparr>)"

section \<open>Rolling back one slot\<close>

text \<open>What the rollback of a slot leaves alone.\<close>

definition only_slot :: "block_memory \<Rightarrow> block_memory \<Rightarrow> TupleSlot \<Rightarrow> bool" where
  "only_slot mem mem' slot \<longleftrightarrow>
     (\<forall>s. s \<noteq> slot \<longrightarrow> Allocated mem' s = Allocated mem s
        \<and> IsNull mem' s VERSION_POINTER_COLUMN_ID = IsNull mem s VERSION_POINTER_COLUMN_ID
        \<and> attrs mem' s = attrs mem s)
     \<and> (\<forall>s. AtomicallyReadVersionPtr mem' s = AtomicallyReadVersionPtr mem s)
     \<and> (\<forall>b. block_header mem' b = block_header mem b)"

definition same_txn :: "TransactionContext \<Rightarrow> TransactionContext \<Rightarrow> bool" where
  "same_txn txn txn' \<longleftrightarrow> txn' = txn\<lparr>loose_ptrs := loose_ptrs txn'\<rparr>"

lemma only_slot_refl: "only_slot mem mem slot"
  by (simp add: only_slot_def)

lemma only_slot_trans: "only_slot mem mem' slot \<Longrightarrow> only_slot mem' mem'' slot \<Longrightarrow> only_slot mem mem'' slot"
  by (simp add: only_slot_def)

lemma same_txn_refl [simp]: "same_txn txn txn"
  by (simp add: same_txn_def)

lemma same_txn_trans: "same_txn txn txn' \<Longrightarrow> same_txn txn' txn'' \<Longrightarrow> same_txn txn txn''"
  by (cases txn; cases txn'; cases txn'') (simp add: same_txn_def)

lemma same_txn_loose [simp]: "same_txn txn (txn\<lparr>loose_ptrs := x\<rparr>)"
  by (simp add: same_txn_def)

lemma same_txn_simps:
  assumes "same_txn txn txn'"
  shows "start_time txn' = start_time txn" and "finish_time txn' = finish_time txn"
    and "undo_buffer txn' = undo_buffer txn" and "aborted txn' = aborted txn" and "must_abort txn' = must_abort txn"
    and "redo_buffer txn' = redo_buffer txn" and "commit_actions txn' = commit_actions txn"
    and "abort_actions txn' = abort_actions txn"
  by (subst assms [unfolded same_txn_def], simp)+

lemma same_txn_fold:
  "(\<And>x txn. same_txn txn (f x txn)) \<Longrightarrow> same_txn txn (fold f xs txn)"
  by (induction xs arbitrary: txn) (auto intro: same_txn_trans)

lemma fold_pair:
  "fold (\<lambda>i (a, b). (f i b a, g i b)) xs (a, b) = (a', b') \<Longrightarrow>
   b' = fold g xs b \<and> ((\<forall>i b a. same_txn a (f i b a)) \<longrightarrow> same_txn a a')"
proof (induction xs arbitrary: a b)
  case (Cons x xs)
  then have "b' = fold g xs (g x b) \<and> ((\<forall>i b a. same_txn a (f i b a)) \<longrightarrow> same_txn (f x b a) a')"
    by (intro Cons.IH) simp
  then show ?case by (auto intro: same_txn_trans [of a "f x b a"])
qed simp

text \<open>An update record as \<open>Update\<close> writes it.\<close>

definition update_ok :: "UndoRecord \<Rightarrow> bool" where
  "update_ok r \<longleftrightarrow> (rec_type r = UPDATE \<longrightarrow>
     sorted_row (rec_delta r) \<and> VERSION_POINTER_COLUMN_ID \<notin> set (col_ids (rec_delta r)))"

lemma rollback_record_effect:
  assumes "rollback_record layout slot r (txn, mem) = (txn', mem')" and "update_ok r" and "Allocated mem slot"
  shows "same_txn txn txn'" and "only_slot mem mem' slot"
    and "current_value mem' slot = undo_value r (current_value mem slot)"
    and "Allocated mem' slot = (rec_type r \<noteq> INSERT)"
proof -
  have "same_txn txn txn' \<and> only_slot mem mem' slot \<and> current_value mem' slot = undo_value r (current_value mem slot)
    \<and> Allocated mem' slot = (rec_type r \<noteq> INSERT)"
  proof (cases "rec_type r")
    case UPDATE
    let ?f = "\<lambda>i mem txn. DeallocateColumnUpdateIfVarlen layout r i mem txn"
    have "mem' = copy_row_into_tuple (rec_delta r) slot mem \<and> ((\<forall>i b a. same_txn a (?f i b a)) \<longrightarrow> same_txn txn txn')"
      unfolding copy_row_into_tuple_def
      by (rule fold_pair) (use assms(1) UPDATE in \<open>simp add: rollback_record_def\<close>)
    moreover have "same_txn a (?f i b a)" for i b a
      by (simp add: DeallocateColumnUpdateIfVarlen_def Let_def)
    moreover have "distinct (col_ids (rec_delta r))" "VERSION_POINTER_COLUMN_ID \<notin> set (col_ids (rec_delta r))"
      using assms(2) UPDATE by (auto simp: update_ok_def sorted_row_distinct)
    ultimately show ?thesis
      using UPDATE assms(3)
      by (simp add: only_slot_def attrs_copy_row access_simps frame_simps current_value_def Visible_def undo_value_def)
  next
    case INSERT
    have "same_txn txn (DeallocateInsertedTupleIfVarlen layout r mem txn)"
      unfolding DeallocateInsertedTupleIfVarlen_def by (rule same_txn_fold) simp
    then show ?thesis
      using INSERT assms(1,3)
      by (auto simp: rollback_record_def only_slot_def access_simps frame_simps current_value_def Visible_def undo_value_def)
  next
    case DELETE
    then show ?thesis
      using assms(1,3)
      by (auto simp: rollback_record_def only_slot_def access_simps frame_simps current_value_def Visible_def undo_value_def)
  qed
  then show "same_txn txn txn'" and "only_slot mem mem' slot"
    and "current_value mem' slot = undo_value r (current_value mem slot)"
    and "Allocated mem' slot = (rec_type r \<noteq> INSERT)"
    by auto
qed

definition insert_last :: "UndoRecord list \<Rightarrow> bool" where
  "insert_last rs \<longleftrightarrow> sorted_wrt (\<lambda>r r'. rec_type r \<noteq> INSERT) rs"

lemma rollback_chain_None: "rollback_chain layout slot h None tm = Some tm"
  by (subst rollback_chain.simps) simp

lemma rollback_chain_Some:
  "rollback_chain layout slot h (Some p) tm =
     (if rec_timestamp (h p) = finish_time (fst tm)
      then rollback_chain layout slot h (rec_next (h p)) (rollback_record layout slot (h p) tm) else Some tm)"
  by (subst rollback_chain.simps) simp

lemma rollback_chain_runs:
  assumes "chain h p ps" and "\<forall>r \<in> set (map h ps). update_ok r" and "insert_last (map h ps)"
    and "Allocated mem slot \<or> own = []" and "own = takeWhile (\<lambda>r. rec_timestamp r = finish_time txn) (map h ps)"
  shows "\<exists>txn' mem'. rollback_chain layout slot h p (txn, mem) = Some (txn', mem')
    \<and> same_txn txn txn' \<and> only_slot mem mem' slot
    \<and> current_value mem' slot = undo_values own (current_value mem slot)
    \<and> Allocated mem' slot = (Allocated mem slot \<and> (\<forall>r \<in> set own. rec_type r \<noteq> INSERT))"
  using assms
proof (induction ps arbitrary: p txn mem own)
  case Nil
  then show ?case by (simp add: rollback_chain_None only_slot_refl)
next
  case (Cons q ps)
  let ?r = "h q"
  show ?case
  proof (cases "rec_timestamp ?r = finish_time txn")
    case False
    with Cons.prems show ?thesis by (simp add: rollback_chain_Some only_slot_refl)
  next
    case True
    obtain txn1 mem1 where rr: "rollback_record layout slot ?r (txn, mem) = (txn1, mem1)" by fastforce
    let ?own = "takeWhile (\<lambda>r. rec_timestamp r = finish_time txn) (map h ps)"
    have own: "own = ?r # ?own" using True Cons.prems(5) by simp
    then have al: "Allocated mem slot" using Cons.prems(4) by simp
    have "update_ok ?r" using Cons.prems(2) by simp
    note ef = rollback_record_effect [OF rr this al] and eq = same_txn_simps [OF ef(1)]
    have al1: "Allocated mem1 slot \<or> ?own = []"
    proof (cases "rec_type ?r = INSERT")
      case True
      then have "ps = []" using Cons.prems(3) by (cases ps) (auto simp: insert_last_def)
      then show ?thesis by simp
    qed (use ef(4) in simp)
    have ch: "chain h (rec_next ?r) ps" "\<forall>r \<in> set (map h ps). update_ok r" "insert_last (map h ps)"
      using Cons.prems(1-3) by (simp_all add: insert_last_def)
    have "?own = takeWhile (\<lambda>r. rec_timestamp r = finish_time txn1) (map h ps)" by (simp add: eq(2))
    note Cons.IH [OF ch al1 this]
    then obtain txn' mem' where r:
      "rollback_chain layout slot h (rec_next ?r) (txn1, mem1) = Some (txn', mem')"
      "same_txn txn1 txn'" "only_slot mem1 mem' slot"
      "current_value mem' slot = undo_values ?own (current_value mem1 slot)"
      "Allocated mem' slot = (Allocated mem1 slot \<and> (\<forall>r \<in> set ?own. rec_type r \<noteq> INSERT))"
      by (elim exE conjE)
    have "rollback_chain layout slot h p (txn, mem) = Some (txn', mem')"
      using Cons.prems(1) True rr r(1) by (simp add: rollback_chain_Some)
    moreover have "same_txn txn txn'" "only_slot mem mem' slot"
      using same_txn_trans [OF ef(1) r(2)] only_slot_trans [OF ef(2) r(3)] .
    ultimately show ?thesis using ef(3,4) r(4,5) own al by auto
  qed
qed

section \<open>Rolling back a transaction\<close>

definition touched :: "undo_heap \<Rightarrow> TupleSlot list \<Rightarrow> nat list \<Rightarrow> TupleSlot set" where
  "touched h slots_rolled_back ps =
     rec_slot ` h ` {p \<in> set ps. rec_table (h p) \<noteq> None} - set slots_rolled_back"

definition own_records :: "TransactionContext \<Rightarrow> UndoRecord list \<Rightarrow> UndoRecord list" where
  "own_records txn rs = takeWhile (\<lambda>r. rec_timestamp r = finish_time txn) rs"

text \<open>What \<open>Rollback\<close> needs of the chain of a slot.\<close>

definition can_rollback :: "TransactionContext \<Rightarrow> storage \<Rightarrow> TupleSlot \<Rightarrow> nat list \<Rightarrow> bool" where
  "can_rollback txn st s qs \<longleftrightarrow>
     slot_chain st s qs \<and> (\<forall>r \<in> set (map (undo_recs st) qs). update_ok r) \<and> insert_last (map (undo_recs st) qs)
     \<and> (Allocated (memory st) s \<or> own_records txn (map (undo_recs st) qs) = [])"

text \<open>The slots in \<open>S\<close> are rolled back, and nothing else changes.\<close>

definition rolled_back :: "TransactionContext \<Rightarrow> TupleSlot set \<Rightarrow> (TupleSlot \<Rightarrow> nat list) \<Rightarrow> storage \<Rightarrow> storage \<Rightarrow> bool" where
  "rolled_back txn S C st st' \<longleftrightarrow>
     undo_recs st' = undo_recs st \<and> undo_next st' = undo_next st
     \<and> (\<forall>s. AtomicallyReadVersionPtr (memory st') s = AtomicallyReadVersionPtr (memory st) s)
     \<and> (\<forall>b. block_header (memory st') b = block_header (memory st) b)
     \<and> (\<forall>s \<in> S. current_value (memory st') s
            = undo_values (own_records txn (map (undo_recs st) (C s))) (current_value (memory st) s)
          \<and> Allocated (memory st') s = (Allocated (memory st) s
              \<and> (\<forall>r \<in> set (own_records txn (map (undo_recs st) (C s))). rec_type r \<noteq> INSERT)))
     \<and> (\<forall>s. s \<notin> S \<longrightarrow> same_slot st st' s)"

lemma rolled_back_empty: "rolled_back txn {} C st st"
  by (simp add: rolled_back_def same_slot_def)

lemma own_records_same: "same_txn txn txn' \<Longrightarrow> own_records txn' rs = own_records txn rs"
  by (simp add: own_records_def same_txn_simps)

lemma Rollback_runs:
  assumes "can_rollback txn st (rec_slot r) (C (rec_slot r))" and "rec_table r = Some t"
  shows "\<exists>txn' st'. Rollback tbls r txn st = Some (txn', st') \<and> same_txn txn txn' \<and> rolled_back txn {rec_slot r} C st st'"
proof -
  let ?s = "rec_slot r" and ?h = "undo_recs st"
  have "chain ?h (AtomicallyReadVersionPtr (memory st) ?s) (C ?s)" "\<forall>r \<in> set (map ?h (C ?s)). update_ok r"
    "insert_last (map ?h (C ?s))" "Allocated (memory st) ?s \<or> own_records txn (map ?h (C ?s)) = []"
    using assms(1) by (simp_all add: can_rollback_def slot_chain_def)
  note rollback_chain_runs [OF this own_records_def, of "table_layout (tbls t)"]
  then obtain txn' mem' where r: "rollback_chain (table_layout (tbls t)) ?s ?h (AtomicallyReadVersionPtr (memory st) ?s) (txn, memory st)
        = Some (txn', mem')" "same_txn txn txn'" "only_slot (memory st) mem' ?s"
      "current_value mem' ?s = undo_values (own_records txn (map ?h (C ?s))) (current_value (memory st) ?s)"
      "Allocated mem' ?s = (Allocated (memory st) ?s \<and> (\<forall>r \<in> set (own_records txn (map ?h (C ?s))). rec_type r \<noteq> INSERT))"
    by (elim exE conjE)
  have "Rollback tbls r txn st = Some (txn', st\<lparr>memory := mem'\<rparr>)"
    by (simp add: Rollback_def assms(2) r(1))
  moreover have "rolled_back txn {?s} C st (st\<lparr>memory := mem'\<rparr>)"
    using r(3-5) by (simp add: rolled_back_def only_slot_def same_slot_def)
  ultimately show ?thesis using r(2) by blast
qed

lemma rolled_back_trans:
  assumes "rolled_back txn S C st st1" and "rolled_back txn T C st1 st2" and "S \<inter> T = {}"
  shows "rolled_back txn (S \<union> T) C st st2"
  unfolding rolled_back_def
proof (intro conjI ballI allI impI)
  have h: "undo_recs st1 = undo_recs st" using assms(1) by (simp add: rolled_back_def)
  fix s
  have S: "s \<in> S \<Longrightarrow> same_slot st1 st2 s" "s \<in> T \<Longrightarrow> same_slot st st1 s"
    using assms by (auto simp: rolled_back_def)
  show "s \<notin> S \<union> T \<Longrightarrow> same_slot st st2 s" using assms by (simp add: rolled_back_def same_slot_def)
  show "s \<in> S \<union> T \<Longrightarrow> current_value (memory st2) s
            = undo_values (own_records txn (map (undo_recs st) (C s))) (current_value (memory st) s)"
    using assms(1,2) S same_slot_value [of st1 st2 s] same_slot_value [of st st1 s] h
    by (auto simp: rolled_back_def)
  show "s \<in> S \<union> T \<Longrightarrow> Allocated (memory st2) s = (Allocated (memory st) s
              \<and> (\<forall>r \<in> set (own_records txn (map (undo_recs st) (C s))). rec_type r \<noteq> INSERT))"
    using assms(1,2) S h by (auto simp: rolled_back_def same_slot_def)
qed (use assms in \<open>auto simp: rolled_back_def\<close>)

lemma rolled_back_txn: "same_txn txn txn' \<Longrightarrow> rolled_back txn' S C st st' = rolled_back txn S C st st'"
  by (simp add: rolled_back_def own_records_same)

lemma can_rollback_frame:
  assumes "can_rollback txn st s qs" and "rolled_back txn S C st st'" and "s \<notin> S" and "same_txn txn txn'"
  shows "can_rollback txn' st' s qs"
  using assms by (simp add: can_rollback_def rolled_back_def same_slot_def slot_chain_def own_records_same)

lemma rollback_all_runs:
  assumes "sorted_wrt (\<lambda>p q. rec_table (undo_recs st p) \<noteq> None) ps"
    and "\<forall>s \<in> touched (undo_recs st) slots_done ps. can_rollback txn st s (C s)"
  shows "\<exists>txn' st'. rollback_all tbls ps slots_done txn st = Some (txn', st') \<and> same_txn txn txn'
    \<and> rolled_back txn (touched (undo_recs st) slots_done ps) C st st'"
  using assms
proof (induction ps arbitrary: slots_done txn st)
  case Nil
  then show ?case by (simp add: touched_def rolled_back_empty)
next
  case (Cons p ps)
  let ?h = "undo_recs st" and ?r = "undo_recs st p"
  show ?case
  proof (cases "rec_slot ?r \<in> set slots_done")
    case True
    then have "touched ?h slots_done (p # ps) = touched ?h slots_done ps" by (auto simp: touched_def)
    then show ?thesis using Cons True by simp
  next
    case new: False
    show ?thesis
    proof (cases "rec_table ?r")
      case None
      then have "ps = []" using Cons.prems(1) by (cases ps) auto
      then have "touched ?h slots_done (p # ps) = {}" using None by (auto simp: touched_def)
      then show ?thesis using \<open>ps = []\<close> None new by (simp add: Rollback_def rolled_back_empty)
    next
      case (Some t)
      let ?D = "rec_slot ?r # slots_done"
      have split: "touched ?h slots_done (p # ps) = {rec_slot ?r} \<union> touched ?h ?D ps"
        using new Some by (auto simp: touched_def)
      obtain txn1 st1 where one: "Rollback tbls ?r txn st = Some (txn1, st1)" "same_txn txn txn1"
          "rolled_back txn {rec_slot ?r} C st st1"
        using Rollback_runs [where C = C, OF _ Some] Cons.prems(2) split by blast
      have h: "undo_recs st1 = ?h" using one(3) by (simp add: rolled_back_def)
      have "\<forall>s \<in> touched (undo_recs st1) ?D ps. can_rollback txn1 st1 s (C s)"
      proof
        fix s assume s: "s \<in> touched (undo_recs st1) ?D ps"
        then have "s \<notin> {rec_slot ?r}" by (auto simp: touched_def)
        then show "can_rollback txn1 st1 s (C s)"
          using can_rollback_frame [OF _ one(3) _ one(2), of s "C s"] Cons.prems(2) s split h by simp
      qed
      moreover have "sorted_wrt (\<lambda>p q. rec_table (undo_recs st1 p) \<noteq> None) ps" using Cons.prems(1) h by simp
      ultimately obtain txn' st' where two: "rollback_all tbls ps ?D txn1 st1 = Some (txn', st')" "same_txn txn1 txn'"
          "rolled_back txn1 (touched (undo_recs st1) ?D ps) C st1 st'"
        using Cons.IH by blast
      have "rolled_back txn ({rec_slot ?r} \<union> touched ?h ?D ps) C st st'"
        using rolled_back_trans [OF one(3)] two(3) rolled_back_txn [OF one(2)] h by (auto simp: touched_def)
      then show ?thesis
        using new one(1) two(1) same_txn_trans [OF one(2) two(2)] split by simp
    qed
  qed
qed

section \<open>The effect of commit and abort\<close>

lemma set_timestamps_simps [simp]:
  "undo_recs (set_timestamps ts ps st) p = (if p \<in> set ps then (undo_recs st p)\<lparr>rec_timestamp := ts\<rparr> else undo_recs st p)"
  "memory (set_timestamps ts ps st) = memory st"
  "undo_next (set_timestamps ts ps st) = undo_next st"
proof -
  have "fold (\<lambda>p h. h(p := (h p)\<lparr>rec_timestamp := ts\<rparr>)) ps h p =
      (if p \<in> set ps then (h p)\<lparr>rec_timestamp := ts\<rparr> else h p)" for h :: undo_heap
    by (induction ps arbitrary: h) simp_all
  then show "undo_recs (set_timestamps ts ps st) p =
      (if p \<in> set ps then (undo_recs st p)\<lparr>rec_timestamp := ts\<rparr> else undo_recs st p)"
    by (simp add: set_timestamps_def)
qed (simp_all add: set_timestamps_def)

text \<open>
  What commit and abort share: the transaction gets its finish time from the clock, its undo records
  get that time, and its context is handed to the collector.
\<close>

definition finishes :: "timestamp \<Rightarrow> TransactionContext \<Rightarrow> bool \<Rightarrow> storage \<Rightarrow> database \<Rightarrow> database \<Rightarrow> bool" where
  "finishes t txn abort st db db' \<longleftrightarrow>
     (\<exists>txn'. contexts db' = (contexts db)(t \<mapsto> txn') \<and> start_time txn' = start_time txn
        \<and> finish_time txn' = time (ts_manager db) \<and> undo_buffer txn' = undo_buffer txn
        \<and> must_abort txn' = must_abort txn \<and> aborted txn' = (abort \<or> aborted txn)
        \<and> (loose_ptrs txn' = loose_ptrs txn \<or> abort))
     \<and> store db' = set_timestamps (time (ts_manager db)) (undo_buffer txn) st
     \<and> time (ts_manager db') = time (ts_manager db) + 1
     \<and> curr_running_txns (ts_manager db') \<in>
         {curr_running_txns (ts_manager db), remove1 (start_time txn) (curr_running_txns (ts_manager db))}
     \<and> tables db' = tables db \<and> block_store db' = block_store db
     \<and> completed_txns db' = (if gc_enabled db then t # completed_txns db else completed_txns db)
     \<and> gc_enabled db' = gc_enabled db \<and> log_enabled db' = log_enabled db"

lemma set_timestamps_Nil [simp]: "set_timestamps ts [] st = st"
  by (simp add: set_timestamps_def)

lemma LogCommit_effect:
  assumes "LogCommit txn ct oldest db = (txn', db')"
  shows "txn' = txn\<lparr>redo_buffer := redo_buffer txn'\<rparr>"
    and "db' = db\<lparr>ts_manager := ts_manager db', callbacks := callbacks db', log_queue := log_queue db'\<rparr>"
    and "ts_manager db' = ts_manager db \<or> ts_manager db' = RemoveTransaction (start_time txn) (ts_manager db)"
  using assms by (auto simp: LogCommit_def StartTime_def split: prod.splits if_splits)

lemma Commit_effect:
  assumes "Commit t db = (c, db')" and "contexts db t = Some txn"
  shows "c = time (ts_manager db) \<and> finishes t txn False (store db) db db'"
proof -
  let ?t = "time (ts_manager db)" and ?st = "set_timestamps (time (ts_manager db)) (undo_buffer txn) (store db)"
  let ?db1 = "db\<lparr>ts_manager := (ts_manager db)\<lparr>time := ?t + 1\<rparr>, store := ?st\<rparr>"
  have first: "(if IsReadOnly txn
         then (case CheckOutTimestamp (ts_manager db) of (ts, tm) \<Rightarrow> (ts, db\<lparr>ts_manager := tm\<rparr>))
         else UpdatingCommitCriticalSection txn db) = (?t, ?db1)"
    by (simp add: CheckOutTimestamp_def UpdatingCommitCriticalSection_def IsReadOnly_def)
  let ?db = "run_end_actions (commit_actions txn) ?db1" and ?txn = "txn\<lparr>finish_time := ?t, commit_actions := []\<rparr>"
  have "\<exists>oldest txn3 db3. LogCommit ?txn ?t oldest ?db = (txn3, db3) \<and> c = ?t \<and> db' = hand_off t txn3 db3"
    using assms(1) unfolding Commit_def assms(2) option.sel Let_def first by (auto split: prod.splits)
  then obtain oldest txn3 db3 where l: "LogCommit ?txn ?t oldest ?db = (txn3, db3)"
      and db': "c = ?t" "db' = hand_off t txn3 db3"
    by (elim exE conjE)
  have same: "ts_manager ?db = ts_manager ?db1" "tables ?db = tables db" "store ?db = ?st" "contexts ?db = contexts db"
    "block_store ?db = block_store db" "completed_txns ?db = completed_txns db" "gc_enabled ?db = gc_enabled db"
    "log_enabled ?db = log_enabled db"
    by (simp_all add: run_end_actions_def)
  note la = LogCommit_effect [OF l]
  have d3: "contexts db3 = contexts db" "store db3 = ?st" "tables db3 = tables db" "block_store db3 = block_store db"
    "completed_txns db3 = completed_txns db" "gc_enabled db3 = gc_enabled db" "log_enabled db3 = log_enabled db"
    by (subst la(2), simp add: same)+
  have t3: "start_time txn3 = start_time txn" "finish_time txn3 = ?t" "undo_buffer txn3 = undo_buffer txn"
    "must_abort txn3 = must_abort txn" "aborted txn3 = aborted txn" "loose_ptrs txn3 = loose_ptrs txn"
    by (subst la(1), simp)+
  have "time (ts_manager db3) = ?t + 1" "curr_running_txns (ts_manager db3) \<in>
      {curr_running_txns (ts_manager db), remove1 (start_time txn) (curr_running_txns (ts_manager db))}"
    using la(3) by (auto simp: RemoveTransaction_def same)
  then show ?thesis
    unfolding finishes_def using db'(1) d3 t3 by (auto simp: db'(2) hand_off_def intro!: exI [of _ txn3])
qed

lemma GCLastUpdateOnAbort_same:
  assumes "GCLastUpdateOnAbort tbls txn st = Some txn'"
  shows "same_txn txn txn'"
proof -
  have "same_txn txn (fold (\<lambda>i txn. if P i then txn\<lparr>loose_ptrs := loose_ptrs txn @ f i\<rparr> else txn) xs txn)" for P f xs
    by (rule same_txn_fold) simp
  then show ?thesis
    using assms by (auto simp: GCLastUpdateOnAbort_def split: option.splits LogRecordBody.splits if_splits)
qed

lemma LogAbort_effect:
  assumes "LogAbort txn db = (txn', db')"
  shows "txn' = txn\<lparr>redo_buffer := redo_buffer txn'\<rparr>"
    and "db' = db\<lparr>ts_manager := ts_manager db', log_queue := log_queue db'\<rparr>"
    and "ts_manager db' = ts_manager db \<or> ts_manager db' = RemoveTransaction (start_time txn) (ts_manager db)"
  using assms by (auto simp: LogAbort_def StartTime_def split: prod.splits if_splits)

lemma Abort_effect:
  assumes "Abort t db = Some (c, db')" and "contexts db t = Some txn"
    and "rollback_all (tables db) (undo_buffer txn) [] (txn\<lparr>abort_actions := []\<rparr>) (store db) = Some (txn1, st1)"
    and "same_txn (txn\<lparr>abort_actions := []\<rparr>) txn1"
  shows "c = time (ts_manager db) \<and> finishes t txn True st1 db db'"
proof -
  note eq = same_txn_simps [OF assms(4), simplified]
  let ?t = "time (ts_manager db)" and ?db = "run_end_actions (abort_actions txn) db"
  let ?txn = "txn1\<lparr>finish_time := ?t, aborted := True\<rparr>" and ?st = "set_timestamps ?t (undo_buffer txn1) st1"
  let ?db1 = "?db\<lparr>ts_manager := (ts_manager db)\<lparr>time := ?t + 1\<rparr>, store := ?st\<rparr>"
  have same: "ts_manager ?db = ts_manager db" "tables ?db = tables db" "store ?db = store db" "contexts ?db = contexts db"
    "block_store ?db = block_store db" "completed_txns ?db = completed_txns db" "gc_enabled ?db = gc_enabled db"
    "log_enabled ?db = log_enabled db"
    by (simp_all add: run_end_actions_def)
  have "\<exists>txn2 txn3 db3. GCLastUpdateOnAbort (tables db) ?txn ?st = Some txn2 \<and> c = ?t
      \<and> LogAbort txn2 ?db1 = (txn3, db3) \<and> db' = hand_off t txn3 db3"
    using assms(1) unfolding Abort_def assms(2) option.sel Let_def same CheckOutTimestamp_def
    by (auto simp: assms(3) split: option.splits prod.splits)
  then obtain txn2 txn3 db3 where g: "GCLastUpdateOnAbort (tables db) ?txn ?st = Some txn2" "c = ?t"
      "LogAbort txn2 ?db1 = (txn3, db3)" "db' = hand_off t txn3 db3"
    by (elim exE conjE)
  note eq2 = same_txn_simps [OF GCLastUpdateOnAbort_same [OF g(1)], simplified]
  note la = LogAbort_effect [OF g(3)]
  have d3: "contexts db3 = contexts db" "store db3 = ?st" "tables db3 = tables db" "block_store db3 = block_store db"
    "completed_txns db3 = completed_txns db" "gc_enabled db3 = gc_enabled db" "log_enabled db3 = log_enabled db"
    by (subst la(2), simp add: same)+
  have t3: "start_time txn3 = start_time txn" "finish_time txn3 = ?t" "undo_buffer txn3 = undo_buffer txn"
    "must_abort txn3 = must_abort txn" "aborted txn3"
    by (subst la(1), simp add: eq eq2)+
  have "time (ts_manager db3) = ?t + 1" "curr_running_txns (ts_manager db3) \<in>
      {curr_running_txns (ts_manager db), remove1 (start_time txn) (curr_running_txns (ts_manager db))}"
    using la(3) by (auto simp: RemoveTransaction_def eq eq2)
  then show ?thesis
    unfolding finishes_def using g(2) d3 t3 by (auto simp: g(4) eq hand_off_def intro!: exI [of _ txn3])
qed

end
