(* ===== verification/GarbageCollector.thy ===== *)
theory GarbageCollector
  imports TransactionManager
begin

text \<open>
  \<^verbatim>\<open>storage/garbage_collector.cpp\<close>: unlinking of undo records that no running transaction can
  need, reclaiming of deleted slots and varlen buffers, deallocation of transaction contexts, and the
  trigger of deferred actions. The collector is single-threaded and a run is not interrupted.
\<close>

section \<open>State\<close>

text \<open>
  \<open>freed\<close> collects what \<open>delete\<close> frees: the loose pointers of deleted contexts. \<open>index_gcs\<close> collects the
  calls of \<open>PerformGarbageCollection\<close> on the registered indexes.
\<close>

record GarbageCollector =
  last_unlinked :: timestamp
  txns_to_deallocate :: "timestamp list"
  txns_to_unlink :: "timestamp list"
  freed :: "u64 list"
  indexes :: "nat list"
  index_gcs :: "nat list"

definition init_GarbageCollector :: GarbageCollector where
  "init_GarbageCollector = \<lparr>last_unlinked = 0, txns_to_deallocate = [], txns_to_unlink = [], freed = [],
     indexes = [], index_gcs = []\<rparr>"

definition delete_context :: "timestamp \<Rightarrow> GarbageCollector \<times> database \<Rightarrow> GarbageCollector \<times> database" where
  "delete_context t s =
     (case s of (gc, db) \<Rightarrow>
        (gc\<lparr>freed := freed gc @ loose_ptrs (the (contexts db t))\<rparr>, db\<lparr>contexts := (contexts db)(t := None)\<rparr>))"

section \<open>Version chains\<close>

text \<open>The traversal for the record after which the chain is cut; \<open>Some None\<close> at the end of the chain.\<close>

partial_function (option) find_cut :: "undo_heap \<Rightarrow> timestamp \<Rightarrow> nat \<Rightarrow> nat option option" where
  "find_cut h oldest cur =
     (case rec_next (h cur) of
        None \<Rightarrow> Some None
      | Some n \<Rightarrow> if NewerThan oldest (rec_timestamp (h n)) then Some (Some cur) else find_cut h oldest n)"

partial_function (option) TruncateVersionChain :: "TupleSlot \<Rightarrow> timestamp \<Rightarrow> storage \<Rightarrow> storage option" where
  "TruncateVersionChain slot oldest st =
     (case AtomicallyReadVersionPtr (memory st) slot of
        None \<Rightarrow> Some st
      | Some version_ptr \<Rightarrow>
          if NewerThan oldest (rec_timestamp (undo_recs st version_ptr)) then
            (case CompareAndSwapVersionPtr (memory st) slot (Some version_ptr) None of
               (swapped, mem) \<Rightarrow>
                 if swapped then Some (st\<lparr>memory := mem\<rparr>)
                 else TruncateVersionChain slot oldest (st\<lparr>memory := mem\<rparr>))
          else
            (case find_cut (undo_recs st) oldest version_ptr of
               None \<Rightarrow> None
             | Some None \<Rightarrow> Some st
             | Some (Some cur) \<Rightarrow>
                 let st = st\<lparr>undo_recs := (undo_recs st)(cur := (undo_recs st cur)\<lparr>rec_next := None\<rparr>)\<rparr>
                 in if cur = version_ptr \<and> \<not> Committed (rec_timestamp (undo_recs st version_ptr))
                       \<and> AtomicallyReadVersionPtr (memory st) slot \<noteq> Some version_ptr
                    then TruncateVersionChain slot oldest st
                    else Some st))"

definition ReclaimSlotIfDeleted :: "UndoRecord \<Rightarrow> storage \<Rightarrow> storage" where
  "ReclaimSlotIfDeleted r st =
     (if rec_type r = DELETE then st\<lparr>memory := Deallocate (memory st) (rec_slot r)\<rparr> else st)"

definition ReclaimBufferIfVarlen ::
  "BlockLayout \<Rightarrow> UndoRecord \<Rightarrow> block_memory \<Rightarrow> TransactionContext \<Rightarrow> TransactionContext" where
  "ReclaimBufferIfVarlen layout r mem txn =
     (case rec_type r of
        INSERT \<Rightarrow> txn
      | DELETE \<Rightarrow>
          fold (\<lambda>i txn. if IsVarlen layout (of_nat i)
                  then txn\<lparr>loose_ptrs := loose_ptrs txn @ loose_ptr (AccessWithNullCheck mem (rec_slot r) (of_nat i))\<rparr>
                  else txn)
            [0..<unat (NumColumns layout)] txn
      | UPDATE \<Rightarrow>
          fold (\<lambda>i txn. if IsVarlen layout (col_ids (rec_delta r) ! i)
                  then txn\<lparr>loose_ptrs := loose_ptrs txn @ loose_ptr (PR_AccessWithNullCheck (rec_delta r) i)\<rparr>
                  else txn)
            [0..<PR_NumColumns (rec_delta r)] txn)"

section \<open>The queues\<close>

definition ProcessDeallocateQueue ::
  "timestamp \<Rightarrow> GarbageCollector \<times> database \<Rightarrow> u32 \<times> GarbageCollector \<times> database" where
  "ProcessDeallocateQueue oldest_txn s =
     (case s of (gc, db) \<Rightarrow>
        if NewerThan oldest_txn (last_unlinked gc)
        then (of_nat (length (txns_to_deallocate gc)),
              case fold delete_context (txns_to_deallocate gc) (gc, db) of
                (gc, db) \<Rightarrow> (gc\<lparr>txns_to_deallocate := []\<rparr>, db))
        else (0, gc, db))"

text \<open>
  The loop over the undo records of one transaction; \<open>visited_slots\<close> is the set of truncated slots. Only
  records of aborted transactions can lack a table, so that of a committed one is used without a test.
\<close>

fun unlink_records ::
  "timestamp \<Rightarrow> timestamp \<Rightarrow> nat list \<Rightarrow> TupleSlot list \<Rightarrow> database \<Rightarrow> (TupleSlot list \<times> database) option" where
  "unlink_records oldest_txn t [] visited_slots db = Some (visited_slots, db)"
| "unlink_records oldest_txn t (p # ps) visited_slots db =
     (let r = undo_recs (store db) p; txn = the (contexts db t)
      in case (if rec_table r \<noteq> None \<and> rec_slot r \<notin> set visited_slots
               then map_option (\<lambda>st. (rec_slot r # visited_slots, st)) (TruncateVersionChain (rec_slot r) oldest_txn (store db))
               else Some (visited_slots, store db)) of
           None \<Rightarrow> None
         | Some (visited_slots, st) \<Rightarrow>
             let r = undo_recs st p;
                 db = (if aborted txn then db\<lparr>store := st\<rparr>
                       else let st = ReclaimSlotIfDeleted r st
                            in db\<lparr>store := st,
                                  contexts := (contexts db)(t \<mapsto> ReclaimBufferIfVarlen
                                    (table_layout (tables db (the (rec_table r)))) r (memory st) txn)\<rparr>)
             in unlink_records oldest_txn t ps visited_slots db)"

text \<open>The loop over the unlink queue, with the transactions to queue again.\<close>

fun unlink_txns ::
  "timestamp \<Rightarrow> timestamp list \<Rightarrow> timestamp list \<Rightarrow> TupleSlot list \<Rightarrow> GarbageCollector \<times> database
     \<Rightarrow> (u32 \<times> timestamp list \<times> GarbageCollector \<times> database) option" where
  "unlink_txns oldest_txn [] requeue visited_slots s = Some (0, requeue, s)"
| "unlink_txns oldest_txn (t # ts) requeue visited_slots s =
     (case s of (gc, db) \<Rightarrow>
        let txn = the (contexts db t)
        in if IsReadOnly txn then
             map_option (\<lambda>(n, rest). (n + 1, rest))
               (unlink_txns oldest_txn ts requeue visited_slots (delete_context t (gc, db)))
           else if NewerThan oldest_txn (FinishTime txn) then
             (case unlink_records oldest_txn t (undo_buffer txn) visited_slots db of
                None \<Rightarrow> None
              | Some (visited_slots, db) \<Rightarrow>
                  map_option (\<lambda>(n, rest). (n + 1, rest))
                    (unlink_txns oldest_txn ts requeue visited_slots
                      (gc\<lparr>txns_to_deallocate := t # txns_to_deallocate gc\<rparr>, db)))
           else unlink_txns oldest_txn ts (t # requeue) visited_slots (gc, db))"

definition ProcessUnlinkQueue ::
  "timestamp \<Rightarrow> GarbageCollector \<times> database \<Rightarrow> (u32 \<times> GarbageCollector \<times> database) option" where
  "ProcessUnlinkQueue oldest_txn s =
     (case s of (gc, db) \<Rightarrow>
        case CompletedTransactionsForGC db of
          (completed, db) \<Rightarrow>
            case unlink_txns oldest_txn (completed @ txns_to_unlink gc) [] [] (gc, db) of
              None \<Rightarrow> None
            | Some (processed, requeue, gc, db) \<Rightarrow> Some (processed, gc\<lparr>txns_to_unlink := requeue\<rparr>, db))"

definition ProcessDeferredActions ::
  "(deferred_action \<Rightarrow> timestamp \<Rightarrow> deferred_action list) \<Rightarrow> timestamp \<Rightarrow> database \<Rightarrow> database" where
  "ProcessDeferredActions exec oldest_txn db =
     db\<lparr>deferred := snd (Process exec (CurrentTime (ts_manager db)) oldest_txn (deferred db))\<rparr>"

text \<open>The set of indexes; registering twice or removing an absent index violates an assertion.\<close>

definition RegisterIndexForGC :: "nat \<Rightarrow> GarbageCollector \<Rightarrow> GarbageCollector option" where
  "RegisterIndexForGC index gc =
     (if index \<in> set (indexes gc) then None else Some (gc\<lparr>indexes := index # indexes gc\<rparr>))"

definition UnregisterIndexForGC :: "nat \<Rightarrow> GarbageCollector \<Rightarrow> GarbageCollector option" where
  "UnregisterIndexForGC index gc =
     (if index \<in> set (indexes gc) then Some (gc\<lparr>indexes := removeAll index (indexes gc)\<rparr>) else None)"

definition ProcessIndexes :: "GarbageCollector \<Rightarrow> GarbageCollector" where
  "ProcessIndexes gc = gc\<lparr>index_gcs := index_gcs gc @ indexes gc\<rparr>"

definition PerformGarbageCollection ::
  "(deferred_action \<Rightarrow> timestamp \<Rightarrow> deferred_action list) \<Rightarrow> GarbageCollector \<times> database
     \<Rightarrow> ((u32 \<times> u32) \<times> GarbageCollector \<times> database) option" where
  "PerformGarbageCollection exec s =
     (case s of (gc, db) \<Rightarrow>
        let tm = snd (CheckOutTimestamp (ts_manager db));
            (oldest_txn, tm) = OldestTransactionStartTime tm;
            (txns_deallocated, gc, db) = ProcessDeallocateQueue oldest_txn (gc, db\<lparr>ts_manager := tm\<rparr>)
        in case ProcessUnlinkQueue oldest_txn (gc, db) of
             None \<Rightarrow> None
           | Some (txns_unlinked, gc, db) \<Rightarrow>
               let (gc, db) = (if txns_unlinked > 0
                      then (case CheckOutTimestamp (ts_manager db) of
                              (ts, tm) \<Rightarrow> (gc\<lparr>last_unlinked := ts\<rparr>, db\<lparr>ts_manager := tm\<rparr>))
                      else (gc, db))
               in Some ((txns_deallocated, txns_unlinked), ProcessIndexes gc, ProcessDeferredActions exec oldest_txn db))"

text \<open>\<open>transaction/deferred_action_manager.h\<close>: enough runs of the log and the collector to free everything.\<close>

definition MIN_GC_INVOCATIONS :: nat where
  "MIN_GC_INVOCATIONS = 3"

text \<open>\<open>force_flush\<close> is the call of the log manager; it changes nothing when the manager is disabled.\<close>

fun fully_perform_gc ::
  "nat \<Rightarrow> (deferred_action \<Rightarrow> timestamp \<Rightarrow> deferred_action list) \<Rightarrow> (database \<Rightarrow> database)
     \<Rightarrow> GarbageCollector \<times> database \<Rightarrow> (GarbageCollector \<times> database) option" where
  "fully_perform_gc 0 exec force_flush s = Some s"
| "fully_perform_gc (Suc i) exec force_flush (gc, db) =
     (case PerformGarbageCollection exec (gc, force_flush db) of
        None \<Rightarrow> None
      | Some (_, s) \<Rightarrow> fully_perform_gc i exec force_flush s)"

definition FullyPerformGC ::
  "(deferred_action \<Rightarrow> timestamp \<Rightarrow> deferred_action list) \<Rightarrow> (database \<Rightarrow> database)
     \<Rightarrow> GarbageCollector \<times> database \<Rightarrow> (GarbageCollector \<times> database) option" where
  "FullyPerformGC = fully_perform_gc MIN_GC_INVOCATIONS"

section \<open>Truncation of a version chain\<close>

definition too_old :: "undo_heap \<Rightarrow> timestamp \<Rightarrow> nat \<Rightarrow> bool" where
  "too_old h oldest q \<longleftrightarrow> NewerThan oldest (rec_timestamp (h q))"

lemma find_cut_chain:
  "chain h (rec_next (h q)) qs \<Longrightarrow>
   find_cut h oldest q =
     Some (if \<exists>x \<in> set qs. too_old h oldest x then Some (last (q # takeWhile (\<lambda>x. \<not> too_old h oldest x) qs)) else None)"
proof (induction qs arbitrary: q)
  case Nil
  then show ?case by (subst find_cut.simps) simp
next
  case (Cons x qs)
  show ?case
  proof (cases "too_old h oldest x")
    case True
    then show ?thesis using Cons.prems by (subst find_cut.simps) (simp add: too_old_def)
  next
    case False
    then have "find_cut h oldest q = find_cut h oldest x" using Cons.prems by (subst find_cut.simps) (simp add: too_old_def)
    then show ?thesis using Cons False by simp
  qed
qed

text \<open>The slot keeps the records before the first that is too old, and nothing else changes.\<close>

definition truncates :: "TupleSlot \<Rightarrow> nat list \<Rightarrow> timestamp \<Rightarrow> storage \<Rightarrow> storage \<Rightarrow> bool" where
  "truncates slot qs oldest st st' \<longleftrightarrow>
     slot_chain st' slot (takeWhile (\<lambda>q. \<not> too_old (undo_recs st) oldest q) qs)
     \<and> undo_next st' = undo_next st
     \<and> (\<forall>q. \<exists>n. undo_recs st' q = (undo_recs st q)\<lparr>rec_next := n\<rparr>)
     \<and> (\<forall>q. q \<notin> set qs \<longrightarrow> undo_recs st' q = undo_recs st q)
     \<and> (\<forall>s. s \<noteq> slot \<longrightarrow> AtomicallyReadVersionPtr (memory st') s = AtomicallyReadVersionPtr (memory st) s)
     \<and> (\<forall>s. Allocated (memory st') s = Allocated (memory st) s
          \<and> IsNull (memory st') s VERSION_POINTER_COLUMN_ID = IsNull (memory st) s VERSION_POINTER_COLUMN_ID
          \<and> attrs (memory st') s = attrs (memory st) s)
     \<and> (\<forall>b. insert_head (memory st' b) = insert_head (memory st b))
     \<and> (\<forall>b. hot (memory st b) \<longrightarrow> hot (memory st' b))"

lemma rec_next_id: "\<exists>n. r = r\<lparr>rec_next := n\<rparr>" for r :: UndoRecord
  by (rule exI [of _ "rec_next r"]) simp

lemma TruncateVersionChain_runs:
  assumes ch: "slot_chain st slot qs"
  shows "\<exists>st'. TruncateVersionChain slot oldest st = Some st' \<and> truncates slot qs oldest st st'"
proof (cases qs)
  case Nil
  then have "TruncateVersionChain slot oldest st = Some st"
    using ch by (subst TruncateVersionChain.simps) (simp add: slot_chain_def)
  then show ?thesis using ch Nil by (auto simp: truncates_def intro!: rec_next_id)
next
  case (Cons q rest)
  let ?h = "undo_recs st" and ?keep = "takeWhile (\<lambda>q. \<not> too_old (undo_recs st) oldest q)"
  have vp: "AtomicallyReadVersionPtr (memory st) slot = Some q" and rest: "chain ?h (rec_next (?h q)) rest"
    using ch Cons by (simp_all add: slot_chain_def)
  note same = rec_next_id
  show ?thesis
  proof (cases "too_old ?h oldest q")
    case True
    let ?st = "st\<lparr>memory := AtomicallyWriteVersionPtr (memory st) slot None\<rparr>"
    have "TruncateVersionChain slot oldest st = Some ?st"
      using True vp by (subst TruncateVersionChain.simps) (simp add: too_old_def CompareAndSwapVersionPtr_def)
    moreover have "truncates slot qs oldest st ?st"
      using True Cons by (auto simp: truncates_def slot_chain_def access_simps frame_simps intro!: same)
    ultimately show ?thesis by blast
  next
    case False
    then have keep: "?keep qs = q # ?keep rest" using Cons by simp
    show ?thesis
    proof (cases "\<exists>x \<in> set rest. too_old ?h oldest x")
      case no: False
      then have "TruncateVersionChain slot oldest st = Some st"
        using False vp find_cut_chain [OF rest, of oldest] by (subst TruncateVersionChain.simps) (simp add: too_old_def)
      moreover have k: "?keep qs = qs" using False no Cons by (simp add: takeWhile_eq_all_conv)
      have "truncates slot qs oldest st st" unfolding truncates_def k using ch by (auto intro!: same)
      ultimately show ?thesis by blast
    next
      case yes: True
      let ?cur = "last (q # ?keep rest)"
      let ?st = "st\<lparr>undo_recs := ?h(?cur := (?h ?cur)\<lparr>rec_next := None\<rparr>)\<rparr>"
      have "find_cut ?h oldest q = Some (Some ?cur)" using find_cut_chain [OF rest, of oldest] yes by simp
      then have "TruncateVersionChain slot oldest st = Some ?st"
        using False vp by (subst TruncateVersionChain.simps) (simp add: too_old_def Let_def)
      moreover have "truncates slot qs oldest st ?st"
      proof -
        have qs: "qs = butlast (?keep qs) @ ?cur # drop (length (?keep qs)) qs"
          using takeWhile_dropWhile_id [of "\<lambda>q. \<not> too_old ?h oldest q" qs] keep
          by (metis append.assoc append_Cons append_Nil append_butlast_last_id append_eq_conv_conj list.distinct(1))
        have "chain ?h (AtomicallyReadVersionPtr (memory st) slot) (butlast (?keep qs) @ ?cur # drop (length (?keep qs)) qs)"
          using ch qs by (simp add: slot_chain_def)
        then have "chain (undo_recs ?st) (AtomicallyReadVersionPtr (memory st) slot) (butlast (?keep qs) @ [?cur])"
          using chain_cut by simp
        moreover have "butlast (?keep qs) @ [?cur] = ?keep qs" using keep by (metis append_butlast_last_id list.distinct(1))
        ultimately have "slot_chain ?st slot (?keep qs)" by (simp add: slot_chain_def)
        moreover have "?cur \<in> set qs" using qs by (metis in_set_conv_decomp)
        ultimately show ?thesis by (auto simp: truncates_def intro!: same)
      qed
      ultimately show ?thesis by blast
    qed
  qed
qed

section \<open>What a run of the collector changes\<close>

text \<open>The parts of the state that the collector never touches.\<close>

definition gc_frame :: "database \<Rightarrow> database \<Rightarrow> bool" where
  "gc_frame db db' \<longleftrightarrow>
     tables db' = tables db \<and> block_store db' = block_store db \<and> ts_manager db' = ts_manager db
     \<and> completed_txns db' = completed_txns db \<and> deferred db' = deferred db \<and> log_queue db' = log_queue db
     \<and> log_enabled db' = log_enabled db \<and> gc_enabled db' = gc_enabled db"

lemma gc_frame_refl: "gc_frame db db"
  by (simp add: gc_frame_def)

lemma gc_frame_trans: "gc_frame db db' \<Longrightarrow> gc_frame db' db'' \<Longrightarrow> gc_frame db db''"
  by (simp add: gc_frame_def)

lemma unlink_records_frame:
  assumes "unlink_records oldest t ps vs db = Some (vs', db')" and "contexts db t = Some c"
  shows "gc_frame db db'" and "u \<noteq> t \<Longrightarrow> contexts db' u = contexts db u"
    and "\<exists>c'. contexts db' t = Some c' \<and> finish_time c' = finish_time c"
proof -
  have buf: "finish_time (ReclaimBufferIfVarlen layout r mem txn) = finish_time txn" for layout r mem txn
    by (cases "rec_type r") (simp_all add: ReclaimBufferIfVarlen_def same_txn_simps(2) [OF same_txn_fold])
  have "gc_frame db db' \<and> (u \<noteq> t \<longrightarrow> contexts db' u = contexts db u) \<and> (\<exists>c'. contexts db' t = Some c' \<and> finish_time c' = finish_time c)"
    using assms
  proof (induction ps arbitrary: vs db c)
    case (Cons p ps)
    obtain vs1 st where s: "(if rec_table (undo_recs (store db) p) \<noteq> None \<and> rec_slot (undo_recs (store db) p) \<notin> set vs
               then map_option (\<lambda>st. (rec_slot (undo_recs (store db) p) # vs, st)) (TruncateVersionChain (rec_slot (undo_recs (store db) p)) oldest (store db))
               else Some (vs, store db)) = Some (vs1, st)"
      using Cons.prems(1) by (auto simp: Let_def split: option.splits)
    note rest = Cons.prems(1) [unfolded unlink_records.simps Let_def s option.case prod.case, unfolded Cons.prems(2) option.sel]
    show ?case
    proof (cases "aborted c")
      case True
      then have "unlink_records oldest t ps vs1 (db\<lparr>store := st\<rparr>) = Some (vs', db')"
        using rest by simp
      from Cons.IH [OF this, of c] show ?thesis using Cons.prems(2) by (auto simp: gc_frame_def)
    next
      case False
      let ?r = "undo_recs st p"
      let ?st = "ReclaimSlotIfDeleted ?r st"
      let ?c = "ReclaimBufferIfVarlen (table_layout (tables db (the (rec_table ?r)))) ?r (memory ?st) c"
      have "unlink_records oldest t ps vs1 (db\<lparr>store := ?st, contexts := (contexts db)(t \<mapsto> ?c)\<rparr>) = Some (vs', db')"
        using rest False by simp
      from Cons.IH [OF this, of ?c] show ?thesis using buf by (auto simp: gc_frame_def)
    qed
  qed (simp add: gc_frame_refl)
  then show "gc_frame db db'" and "u \<noteq> t \<Longrightarrow> contexts db' u = contexts db u"
    and "\<exists>c'. contexts db' t = Some c' \<and> finish_time c' = finish_time c" by blast+
qed
lemma unlink_txns_frame:
  assumes "unlink_txns oldest ts rq vs (gc, db) = Some (n, rq', gc', db')" and "distinct ts"
    and "\<forall>t \<in> set ts. contexts db t \<noteq> None"
  shows "gc_frame db db'" and "last_unlinked gc' = last_unlinked gc"
    and "u \<notin> set ts \<Longrightarrow> contexts db' u = contexts db u"
    and "u \<in> set ts \<Longrightarrow> contexts db' u \<noteq> None \<Longrightarrow> u \<in> set rq' \<union> set (txns_to_deallocate gc')"
    and "set rq \<subseteq> set rq'" and "set (txns_to_deallocate gc) \<subseteq> set (txns_to_deallocate gc')"
    and "set (txns_to_deallocate gc') \<subseteq> set ts \<union> set (txns_to_deallocate gc)"
    and "(\<And>t c. t \<in> set ts \<Longrightarrow> contexts db t = Some c \<Longrightarrow> NewerThan oldest (finish_time c)) \<Longrightarrow> rq' = rq"
proof -
  have "gc_frame db db' \<and> last_unlinked gc' = last_unlinked gc \<and> (u \<notin> set ts \<longrightarrow> contexts db' u = contexts db u)
    \<and> (u \<in> set ts \<longrightarrow> contexts db' u \<noteq> None \<longrightarrow> u \<in> set rq' \<union> set (txns_to_deallocate gc'))
    \<and> set rq \<subseteq> set rq' \<and> set (txns_to_deallocate gc) \<subseteq> set (txns_to_deallocate gc')
    \<and> set (txns_to_deallocate gc') \<subseteq> set ts \<union> set (txns_to_deallocate gc)
    \<and> ((\<forall>t c. t \<in> set ts \<longrightarrow> contexts db t = Some c \<longrightarrow> NewerThan oldest (finish_time c)) \<longrightarrow> rq' = rq)"
    using assms
  proof (induction ts arbitrary: rq vs gc db n)
    case (Cons t ts)
    obtain c where c: "contexts db t = Some c" using Cons.prems(3) by fastforce
    note rest = Cons.prems(1) [unfolded unlink_txns.simps prod.case Let_def, unfolded c option.sel]
    have nt: "t \<notin> set ts" "distinct ts" using Cons.prems(2) by simp_all
    consider (ro) "IsReadOnly c" | (old) "\<not> IsReadOnly c" "NewerThan oldest (FinishTime c)"
      | (new) "\<not> IsReadOnly c" "\<not> NewerThan oldest (FinishTime c)" by blast
    then show ?case
    proof cases
      case ro
      let ?g = "gc\<lparr>freed := freed gc @ loose_ptrs c\<rparr>" and ?db = "db\<lparr>contexts := (contexts db)(t := None)\<rparr>"
      obtain m where m: "unlink_txns oldest ts rq vs (?g, ?db) = Some (m, rq', gc', db')"
        using rest ro c by (auto simp: delete_context_def)
      have ex: "\<forall>x \<in> set ts. contexts ?db x \<noteq> None" using nt Cons.prems(3) by auto
      from Cons.IH [OF m nt(2) ex] show ?thesis using nt by (auto simp: gc_frame_def)
    next
      case old
      let ?g = "gc\<lparr>txns_to_deallocate := t # txns_to_deallocate gc\<rparr>"
      obtain vs1 db1 where u: "unlink_records oldest t (undo_buffer c) vs db = Some (vs1, db1)"
        using rest old by (auto split: option.splits)
      obtain m where m: "unlink_txns oldest ts rq vs1 (?g, db1) = Some (m, rq', gc', db')"
        using rest old u by auto
      note F = unlink_records_frame [OF u c]
      have ex: "\<forall>x \<in> set ts. contexts db1 x \<noteq> None" using nt Cons.prems(3) F(2) by force
      have same: "contexts db1 x = contexts db x" if "x \<in> set ts" for x using that nt F(2) by metis
      have ut: "u \<noteq> t \<Longrightarrow> contexts db1 u = contexts db u" by (rule F(2))
      from Cons.IH [OF m nt(2) ex] show ?thesis using nt ut same gc_frame_trans [OF F(1)] by auto
    next
      case new
      have m: "unlink_txns oldest ts (t # rq) vs (gc, db) = Some (n, rq', gc', db')" using rest new by simp
      have ex: "\<forall>x \<in> set ts. contexts db x \<noteq> None" using Cons.prems(3) by auto
      from Cons.IH [OF m nt(2) ex] show ?thesis using nt c new by (auto simp: FinishTime_def)
    qed
  qed (simp add: gc_frame_refl)
  then show "gc_frame db db'" and "last_unlinked gc' = last_unlinked gc"
    and "u \<notin> set ts \<Longrightarrow> contexts db' u = contexts db u"
    and "u \<in> set ts \<Longrightarrow> contexts db' u \<noteq> None \<Longrightarrow> u \<in> set rq' \<union> set (txns_to_deallocate gc')"
    and "set rq \<subseteq> set rq'" and "set (txns_to_deallocate gc) \<subseteq> set (txns_to_deallocate gc')"
    and "set (txns_to_deallocate gc') \<subseteq> set ts \<union> set (txns_to_deallocate gc)"
    and "(\<And>t c. t \<in> set ts \<Longrightarrow> contexts db t = Some c \<Longrightarrow> NewerThan oldest (finish_time c)) \<Longrightarrow> rq' = rq"
    by blast+
qed

end
