(* ===== verification/SqlTable.thy ===== *)
theory SqlTable
  imports GarbageCollector
begin

text \<open>
  \<^verbatim>\<open>storage/sql_table.{h,cpp}\<close>: the calls through which clients reach a data table, on the state that
  all components share.
\<close>

section \<open>Calls\<close>

text \<open>
  \<open>redo\<close> is the last record of the redo buffer, with its slot and delta; \<open>SetTupleSlot\<close> writes there.
\<close>

definition set_last_slot :: "TupleSlot \<Rightarrow> RedoBuffer \<Rightarrow> RedoBuffer" where
  "set_last_slot slot rb =
     (case redo_seg rb of
        Some (recs, used) \<Rightarrow>
          (case (if recs = [] then None else Some (log_body (last recs))) of
             Some (RedoRecord d t _ delta) \<Rightarrow>
               rb\<lparr>redo_seg := Some (butlast recs @ [(last recs)\<lparr>log_body := RedoRecord d t slot delta\<rparr>], used)\<rparr>
           | _ \<Rightarrow> rb)
      | None \<Rightarrow> rb)"

definition SqlTable_Select :: "timestamp \<Rightarrow> TupleSlot \<Rightarrow> ProjectedRow \<Rightarrow> database \<Rightarrow> (bool \<times> ProjectedRow) option" where
  "SqlTable_Select t slot out_buffer db = Select (the (contexts db t)) slot out_buffer (store db)"

definition SqlTable_Update ::
  "nat \<Rightarrow> timestamp \<Rightarrow> TupleSlot \<Rightarrow> ProjectedRow \<Rightarrow> database \<Rightarrow> (bool \<times> database) option" where
  "SqlTable_Update i t slot delta db =
     (case Update (tables db i) slot delta (the (contexts db t)) (store db) of
        None \<Rightarrow> None
      | Some (result, txn, st) \<Rightarrow>
          let txn = (if \<not> result then SetMustAbort txn else txn)
          in Some (result, db\<lparr>contexts := (contexts db)(t \<mapsto> txn), store := st\<rparr>))"

definition SqlTable_Insert ::
  "bool \<Rightarrow> nat \<Rightarrow> timestamp \<Rightarrow> ProjectedRow \<Rightarrow> database \<Rightarrow> (pool_error + TupleSlot \<times> database) option" where
  "SqlTable_Insert asserts i t delta db =
     (case Insert asserts delta (the (contexts db t)) (tables db i) (block_store db) (store db) of
        None \<Rightarrow> None
      | Some (Inl e) \<Rightarrow> Some (Inl e)
      | Some (Inr (slot, txn, table, bs, st)) \<Rightarrow>
          let txn = txn\<lparr>redo_buffer := set_last_slot slot (redo_buffer txn)\<rparr>
          in Some (Inr (slot, db\<lparr>contexts := (contexts db)(t \<mapsto> txn), tables := (tables db)(i := table),
                                 block_store := bs, store := st\<rparr>)))"

definition SqlTable_Delete :: "nat \<Rightarrow> timestamp \<Rightarrow> TupleSlot \<Rightarrow> database \<Rightarrow> (bool \<times> database) option" where
  "SqlTable_Delete i t slot db =
     (case Delete (tables db i) slot (the (contexts db t)) (store db) of
        None \<Rightarrow> None
      | Some (result, txn, st) \<Rightarrow>
          let txn = (if \<not> result then SetMustAbort txn else txn)
          in Some (result, db\<lparr>contexts := (contexts db)(t \<mapsto> txn), store := st\<rparr>))"

definition CreateTable :: "nat \<Rightarrow> BlockLayout \<Rightarrow> u16 \<Rightarrow> database \<Rightarrow> pool_error + database" where
  "CreateTable i layout version db =
     (case make_DataTable i layout version (block_store db) (store db) of
        Inl e \<Rightarrow> Inl e
      | Inr (table, bs, st) \<Rightarrow> Inr (db\<lparr>tables := (tables db)(i := table), block_store := bs, store := st\<rparr>))"

definition stage :: "(TransactionContext \<Rightarrow> flush_queue \<Rightarrow> TransactionContext \<times> flush_queue) \<Rightarrow> timestamp \<Rightarrow> database \<Rightarrow> database" where
  "stage f t db =
     (case f (the (contexts db t)) (log_queue db) of
        (txn, q) \<Rightarrow> db\<lparr>contexts := (contexts db)(t \<mapsto> txn), log_queue := q\<rparr>)"

end
