(* ===== verification/ColumnMap.thy ===== *)
theory ColumnMap
  imports SqlTable
begin

text \<open>
  The schema side of \<^verbatim>\<open>storage/sql_table.cpp\<close> with \<open>ComputeBaseAttributeOffsets\<close> of
  \<^verbatim>\<open>storage/storage_util.cpp\<close>: how the constructor of a table assigns storage columns to the columns
  of a schema. The result is that the assignment is well typed: every schema column gets a storage
  column of its own whose attribute size in the block layout is that of the schema column.
\<close>

section \<open>Assignment of columns\<close>

type_synonym col_oid = u32

text \<open>What the constructor reads of a \<open>catalog::Schema::Column\<close>.\<close>

record schema_column =
  column_oid :: col_oid
  column_attr_size :: u16

text \<open>The \<open>switch\<close> over attribute sizes; \<open>None\<close> is the exception of its default case.\<close>

definition size_class :: "u16 \<Rightarrow> nat option" where
  "size_class sz =
     (if sz = VARLEN_COLUMN then Some 0
      else if sz = 8 then Some 1
      else if sz = 4 then Some 2
      else if sz = 2 then Some 3
      else if sz = 1 then Some 4
      else None)"

definition bump :: "nat \<Rightarrow> u16 list \<Rightarrow> u16 list" where
  "bump i offsets = offsets[i := offsets ! i + 1]"

fun count_sizes :: "u16 list \<Rightarrow> u16 list \<Rightarrow> u16 list option" where
  "count_sizes [] offsets = Some offsets"
| "count_sizes (sz # szs) offsets =
     (case size_class sz of
        None \<Rightarrow> None
      | Some k \<Rightarrow> count_sizes szs (if k = 4 then offsets else bump (k + 1) offsets))"

definition ComputeBaseAttributeOffsets :: "u16 list \<Rightarrow> u16 \<Rightarrow> u16 list option" where
  "ComputeBaseAttributeOffsets sizes num_reserved_columns =
     (case count_sizes sizes (replicate 5 0) of
        None \<Rightarrow> None
      | Some offsets \<Rightarrow>
          let offsets = offsets[0 := offsets ! 0 + num_reserved_columns];
              offsets = offsets[2 := offsets ! 2 - num_reserved_columns]
          in Some (fold (\<lambda>i offsets. offsets[i := offsets ! i + offsets ! (i - 1)]) [1..<5] offsets))"

fun build_column_map ::
  "schema_column list \<Rightarrow> u16 list \<Rightarrow> (col_oid \<rightharpoonup> u16) \<Rightarrow> (col_oid \<rightharpoonup> u16) option" where
  "build_column_map [] offsets col_oid_to_id = Some col_oid_to_id"
| "build_column_map (column # cols) offsets col_oid_to_id =
     (case size_class (column_attr_size column) of
        None \<Rightarrow> None
      | Some k \<Rightarrow>
          build_column_map cols (bump k offsets) (col_oid_to_id(column_oid column \<mapsto> offsets ! k)))"

definition schema_attr_sizes :: "schema_column list \<Rightarrow> u16 list" where
  "schema_attr_sizes cols = replicate NUM_RESERVED_COLUMNS 8 @ map column_attr_size cols"

text \<open>\<open>DataTableVersion\<close>; the table itself is found under its identifier.\<close>

record DataTableVersion =
  version_table :: nat
  version_layout :: BlockLayout
  column_map :: "col_oid \<rightharpoonup> u16"

text \<open>The constructor. \<open>None\<close> is the exception for a size that the system does not have.\<close>

definition make_SqlTable ::
  "nat \<Rightarrow> schema_column list \<Rightarrow> database \<Rightarrow> (pool_error + DataTableVersion \<times> database) option" where
  "make_SqlTable i cols db =
     (let sizes = schema_attr_sizes cols
      in case ComputeBaseAttributeOffsets sizes (of_nat NUM_RESERVED_COLUMNS) of
           None \<Rightarrow> None
         | Some offsets \<Rightarrow>
             case build_column_map cols offsets Map.empty of
               None \<Rightarrow> None
             | Some col_oid_to_id \<Rightarrow>
                 let layout = make_BlockLayout sizes
                 in Some (case CreateTable i layout 0 db of
                            Inl e \<Rightarrow> Inl e
                          | Inr db \<Rightarrow>
                              Inr (\<lparr>version_table = i, version_layout = layout, column_map = col_oid_to_id\<rparr>, db)))"

text \<open>
  \<open>column_map_.at\<close> throws for an oid that is not in the table, and an empty list of oids fails an
  assertion.
\<close>

fun col_ids_loop :: "DataTableVersion \<Rightarrow> col_oid list \<Rightarrow> u16 list option" where
  "col_ids_loop tab [] = Some []"
| "col_ids_loop tab (col_oid # col_oids) =
     (case column_map tab col_oid of
        None \<Rightarrow> None
      | Some col_id \<Rightarrow> map_option (\<lambda>ids. col_id # ids) (col_ids_loop tab col_oids))"

definition ColIdsForOids :: "DataTableVersion \<Rightarrow> col_oid list \<Rightarrow> u16 list option" where
  "ColIdsForOids tab col_oids = (if col_oids = [] then None else col_ids_loop tab col_oids)"

text \<open>A \<open>std::map\<close> iterates in the order of its keys.\<close>

definition ProjectionMapForOids :: "DataTableVersion \<Rightarrow> col_oid list \<Rightarrow> (col_oid \<rightharpoonup> u16) option" where
  "ProjectionMapForOids tab col_oids =
     (case ColIdsForOids tab col_oids of
        None \<Rightarrow> None
      | Some ids \<Rightarrow>
          let inverse_map = fold (\<lambda>(col_id, col_oid) m. m(col_id \<mapsto> col_oid)) (zip ids col_oids) Map.empty;
              keys = sort (remdups ids)
          in Some (fold (\<lambda>i m. m(the (inverse_map (keys ! i)) \<mapsto> of_nat i)) [0..<length keys] Map.empty))"

section \<open>Sizes by class\<close>

definition class_sizes :: "u16 list" where
  "class_sizes = [VARLEN_COLUMN, 8, 4, 2, 1]"

lemma class_sizes_simps [simp]: "length class_sizes = 5" "distinct class_sizes" "set class_sizes = Collect valid_attr"
  by (auto simp: class_sizes_def VARLEN_COLUMN_def valid_attr_def)

lemma size_class_iff: "size_class sz = Some k \<longleftrightarrow> k < 5 \<and> class_sizes ! k = sz"
proof
  assume "size_class sz = Some k"
  then show "k < 5 \<and> class_sizes ! k = sz"
    by (auto simp: size_class_def class_sizes_def split: if_splits)
next
  assume "k < 5 \<and> class_sizes ! k = sz"
  then have "k \<in> {0, 1, 2, 3, 4}" "class_sizes ! k = sz" by auto
  then show "size_class sz = Some k"
    by (auto simp: size_class_def class_sizes_def VARLEN_COLUMN_def)
qed

lemma valid_attr_class: "valid_attr sz \<Longrightarrow> \<exists>k < 5. size_class sz = Some k \<and> class_sizes ! k = sz"
  by (auto simp: valid_attr_def size_class_def class_sizes_def VARLEN_COLUMN_def)

text \<open>The sorted sizes of a layout, class after class.\<close>

definition by_class :: "u16 list \<Rightarrow> u16 list" where
  "by_class sizes = concat (map (\<lambda>sz. replicate (count_list sizes sz) sz) class_sizes)"

lemma count_list_replicate [simp]: "count_list (replicate n x) y = (if x = y then n else 0)"
  by (induction n) auto

lemma sort_by_class:
  assumes "list_all valid_attr sizes"
  shows "rev (sort sizes) = by_class sizes"
proof -
  have c: "count_list (by_class sizes) x = count_list sizes x" for x
  proof (cases "valid_attr x")
    case True
    then show ?thesis
      by (auto simp: by_class_def class_sizes_def count_list_append valid_attr_def VARLEN_COLUMN_def)
  next
    case False
    then have "x \<notin> set sizes" "x \<notin> set (by_class sizes)" using assms by (auto simp: by_class_def list_all_iff)
    then show ?thesis by (simp add: count_notin)
  qed
  have "mset (rev (by_class sizes)) = mset sizes"
    by (rule multiset_eqI) (simp add: c count_mset)
  moreover have "sorted (rev (by_class sizes))"
    by (auto simp: by_class_def class_sizes_def sorted_append VARLEN_COLUMN_def)
  ultimately have "sort sizes = rev (by_class sizes)" by (rule properties_for_sort)
  then show ?thesis by simp
qed
lemma concat_replicate_nth:
  assumes "k < length xs" and "m < n (xs ! k)"
  shows "concat (map (\<lambda>x. replicate (n x) x) xs) ! (sum_list (map n (take k xs)) + m) = xs ! k
    \<and> sum_list (map n (take k xs)) + m < length (concat (map (\<lambda>x. replicate (n x) x) xs))"
  using assms
proof (induction xs arbitrary: k)
  case (Cons x xs)
  show ?case
  proof (cases k)
    case 0
    then show ?thesis using Cons.prems by (simp add: nth_append)
  next
    case (Suc k')
    then show ?thesis using Cons.IH [of k'] Cons.prems by (simp add: nth_append add.assoc)
  qed
qed simp

text \<open>The first storage column of a class, after the reserved column and the classes before it.\<close>

definition class_base :: "u16 list \<Rightarrow> nat \<Rightarrow> nat" where
  "class_base sizes k = 1 + sum_list (map (count_list sizes) (take k class_sizes))"

lemma layout_class:
  assumes "list_all valid_attr sizes" and "k < 5" and "m < count_list sizes (class_sizes ! k)"
  shows "attr_sizes (make_BlockLayout (8 # sizes)) ! (class_base sizes k + m) = class_sizes ! k
    \<and> class_base sizes k + m < length (attr_sizes (make_BlockLayout (8 # sizes)))"
proof -
  have "attr_sizes (make_BlockLayout (8 # sizes)) = 8 # by_class sizes"
    by (simp add: make_BlockLayout_def Let_def NUM_RESERVED_COLUMNS_def sort_by_class [OF assms(1)])
  then show ?thesis
    using concat_replicate_nth [of k class_sizes m "count_list sizes"] assms(2,3)
    by (simp add: class_base_def by_class_def)
qed

lemma count_sizes_eq:
  "list_all valid_attr sizes \<Longrightarrow> count_sizes sizes [a, b, c, d, e] =
     Some [a, b + of_nat (count_list sizes VARLEN_COLUMN), c + of_nat (count_list sizes 8),
           d + of_nat (count_list sizes 4), e + of_nat (count_list sizes 2)]"
  by (induction sizes arbitrary: b c d e)
    (auto simp: valid_attr_def size_class_def bump_def VARLEN_COLUMN_def)

lemma ComputeBaseAttributeOffsets_eq:
  assumes "list_all valid_attr sizes"
  shows "ComputeBaseAttributeOffsets (8 # sizes) 1 = Some (map (\<lambda>k. of_nat (class_base sizes k)) [0..<5])"
proof -
  have "list_all valid_attr (8 # sizes)" using assms by (simp add: valid_attr_def)
  moreover have "replicate 5 (0 :: u16) = [0, 0, 0, 0, 0]" by (simp add: eval_nat_numeral)
  ultimately have c: "count_sizes (8 # sizes) (replicate 5 0) =
     Some [0, of_nat (count_list sizes VARLEN_COLUMN), 1 + of_nat (count_list sizes 8),
           of_nat (count_list sizes 4), of_nat (count_list sizes 2)]"
    using count_sizes_eq [of "8 # sizes" 0 0 0 0 0] by (simp add: VARLEN_COLUMN_def)
  have u: "[0..<5] = [0, 1, 2, 3, 4 :: nat]" "[1..<5] = [1, 2, 3, 4 :: nat]" by (simp_all add: upt_rec)
  have b: "map (class_base sizes) [0, 1, 2, 3, 4] =
      [1, 1 + count_list sizes VARLEN_COLUMN, 1 + count_list sizes VARLEN_COLUMN + count_list sizes 8,
       1 + count_list sizes VARLEN_COLUMN + count_list sizes 8 + count_list sizes 4,
       1 + count_list sizes VARLEN_COLUMN + count_list sizes 8 + count_list sizes 4 + count_list sizes 2]"
    by (simp add: class_base_def class_sizes_def)
  show ?thesis
    using b unfolding ComputeBaseAttributeOffsets_def c u by (simp add: add_ac)
qed

text \<open>The storage column of the schema column at position \<open>j\<close>.\<close>

definition assigned_col :: "schema_column list \<Rightarrow> nat \<Rightarrow> nat" where
  "assigned_col cols j =
     class_base (map column_attr_size cols) (the (size_class (column_attr_size (cols ! j))))
       + count_list (map column_attr_size (take j cols)) (column_attr_size (cols ! j))"

lemma build_column_map_eq:
  assumes "list_all valid_attr (map column_attr_size cols)" and "length offsets = 5" and "distinct (map column_oid cols)"
  shows "\<exists>m'. build_column_map cols offsets m = Some m'
    \<and> (\<forall>x. x \<notin> column_oid ` set cols \<longrightarrow> m' x = m x)
    \<and> (\<forall>j < length cols. m' (column_oid (cols ! j)) =
          Some (offsets ! the (size_class (column_attr_size (cols ! j)))
                + of_nat (count_list (map column_attr_size (take j cols)) (column_attr_size (cols ! j)))))"
  using assms
proof (induction cols arbitrary: offsets m)
  case (Cons c cols)
  obtain k where k: "k < 5" "size_class (column_attr_size c) = Some k" "class_sizes ! k = column_attr_size c"
    using valid_attr_class [of "column_attr_size c"] Cons.prems(1) by auto
  let ?m = "m(column_oid c \<mapsto> offsets ! k)"
  have "\<exists>m'. build_column_map cols (bump k offsets) ?m = Some m'
    \<and> (\<forall>x. x \<notin> column_oid ` set cols \<longrightarrow> m' x = ?m x)
    \<and> (\<forall>j < length cols. m' (column_oid (cols ! j)) =
          Some (bump k offsets ! the (size_class (column_attr_size (cols ! j)))
                + of_nat (count_list (map column_attr_size (take j cols)) (column_attr_size (cols ! j)))))"
    by (rule Cons.IH) (use Cons.prems in \<open>simp_all add: bump_def\<close>)
  then obtain m' where m': "build_column_map cols (bump k offsets) ?m = Some m'"
      "\<And>x. x \<notin> column_oid ` set cols \<Longrightarrow> m' x = ?m x"
      "\<And>j. j < length cols \<Longrightarrow> m' (column_oid (cols ! j)) =
          Some (bump k offsets ! the (size_class (column_attr_size (cols ! j)))
                + of_nat (count_list (map column_attr_size (take j cols)) (column_attr_size (cols ! j))))"
    by blast
  have "m' (column_oid ((c # cols) ! j)) =
        Some (offsets ! the (size_class (column_attr_size ((c # cols) ! j)))
              + of_nat (count_list (map column_attr_size (take j (c # cols))) (column_attr_size ((c # cols) ! j))))"
    if j: "j < length (c # cols)" for j
  proof (cases j)
    case 0
    have "column_oid c \<notin> column_oid ` set cols" using Cons.prems(3) by simp
    from m'(2) [OF this] show ?thesis using 0 k(2) by simp
  next
    case (Suc i)
    have i: "i < length cols" using j Suc by simp
    then obtain k' where k': "k' < 5" "size_class (column_attr_size (cols ! i)) = Some k'" "class_sizes ! k' = column_attr_size (cols ! i)"
      using valid_attr_class [of "column_attr_size (cols ! i)"] Cons.prems(1) nth_mem [of i cols] by (auto simp: list_all_iff)
    have "k = k' \<longleftrightarrow> column_attr_size c = column_attr_size (cols ! i)" using k k' by auto
    then show ?thesis
      using m'(3) [OF i] Suc k(1) k' Cons.prems(2) by (auto simp: bump_def nth_list_update)
  qed
  then show ?case using m'(1,2) k(2) by auto
qed simp

lemma count_list_take_less: "j < length xs \<Longrightarrow> count_list (take j xs) (xs ! j) < count_list xs (xs ! j)"
  by (subst (2) append_take_drop_id [of j xs, symmetric], subst Cons_nth_drop_Suc [symmetric])
    (simp_all add: count_list_append)

lemma count_list_take_mono:
  assumes "i < j" and "j < length xs" and "xs ! i = xs ! j"
  shows "count_list (take i xs) (xs ! i) < count_list (take j xs) (xs ! j)"
  using count_list_take_less [of i "take j xs"] assms by (simp add: min_def)

lemma assigned_col_layout:
  assumes "list_all valid_attr (map column_attr_size cols)" and "j < length cols"
  shows "attr_sizes (make_BlockLayout (schema_attr_sizes cols)) ! assigned_col cols j = column_attr_size (cols ! j)"
    and "assigned_col cols j \<le> length cols" and "0 < assigned_col cols j"
proof -
  let ?szs = "map column_attr_size cols"
  have "valid_attr (column_attr_size (cols ! j))" using assms nth_mem [of j cols] by (auto simp: list_all_iff)
  then obtain k where k: "k < 5" "size_class (column_attr_size (cols ! j)) = Some k" "class_sizes ! k = column_attr_size (cols ! j)"
    using valid_attr_class by blast
  let ?m = "count_list (map column_attr_size (take j cols)) (column_attr_size (cols ! j))"
  have "?m < count_list ?szs (class_sizes ! k)"
    using count_list_take_less [of j ?szs] assms(2) k(3) by (simp add: take_map)
  from layout_class [OF assms(1) k(1) this] have L:
      "attr_sizes (make_BlockLayout (8 # ?szs)) ! assigned_col cols j = column_attr_size (cols ! j)"
      "assigned_col cols j < length (attr_sizes (make_BlockLayout (8 # ?szs)))"
    using k by (simp_all add: assigned_col_def)
  then show "attr_sizes (make_BlockLayout (schema_attr_sizes cols)) ! assigned_col cols j = column_attr_size (cols ! j)"
    by (simp add: schema_attr_sizes_def NUM_RESERVED_COLUMNS_def)
  show "assigned_col cols j \<le> length cols"
    using L(2) by (simp add: make_BlockLayout_def Let_def NUM_RESERVED_COLUMNS_def)
  show "0 < assigned_col cols j" by (simp add: assigned_col_def class_base_def)
qed

lemma assigned_col_inj:
  assumes "list_all valid_attr (map column_attr_size cols)" and "i < length cols" and "j < length cols"
    and "assigned_col cols i = assigned_col cols j"
  shows "i = j"
proof -
  have less: False if "i' < j'" "j' < length cols" "assigned_col cols i' = assigned_col cols j'" for i' j'
  proof -
    have "column_attr_size (cols ! i') = column_attr_size (cols ! j')"
      using assigned_col_layout(1) [OF assms(1), of i'] assigned_col_layout(1) [OF assms(1), of j'] that by simp
    then show False
      using count_list_take_mono [of i' j' "map column_attr_size cols"] that by (simp add: assigned_col_def take_map)
  qed
  show ?thesis using less [of i j] less [of j i] assms(2-4) by (metis linorder_neqE_nat)
qed

lemma make_SqlTable_map:
  assumes "list_all valid_attr (map column_attr_size cols)" and "distinct (map column_oid cols)"
  shows "\<exists>m. make_SqlTable i cols db = Some (case CreateTable i (make_BlockLayout (schema_attr_sizes cols)) 0 db of
        Inl e \<Rightarrow> Inl e
      | Inr db' \<Rightarrow> Inr (\<lparr>version_table = i, version_layout = make_BlockLayout (schema_attr_sizes cols), column_map = m\<rparr>, db'))
    \<and> dom m = column_oid ` set cols
    \<and> (\<forall>j < length cols. m (column_oid (cols ! j)) = Some (of_nat (assigned_col cols j)))"
proof -
  let ?off = "map (\<lambda>k. of_nat (class_base (map column_attr_size cols) k)) [0..<5] :: u16 list"
  have o: "ComputeBaseAttributeOffsets (schema_attr_sizes cols) (of_nat NUM_RESERVED_COLUMNS) = Some ?off"
    using ComputeBaseAttributeOffsets_eq [OF assms(1)] by (simp add: schema_attr_sizes_def NUM_RESERVED_COLUMNS_def)
  obtain m where m: "build_column_map cols ?off Map.empty = Some m"
      "\<And>x. x \<notin> column_oid ` set cols \<Longrightarrow> m x = None"
      "\<And>j. j < length cols \<Longrightarrow> m (column_oid (cols ! j)) =
          Some (?off ! the (size_class (column_attr_size (cols ! j)))
                + of_nat (count_list (map column_attr_size (take j cols)) (column_attr_size (cols ! j))))"
    using build_column_map_eq [OF assms(1) _ assms(2), of ?off Map.empty] by auto
  have eq: "m (column_oid (cols ! j)) = Some (of_nat (assigned_col cols j))" if j: "j < length cols" for j
  proof -
    have "valid_attr (column_attr_size (cols ! j))" using assms(1) nth_mem [OF j] by (auto simp: list_all_iff)
    then obtain k where "k < 5" "size_class (column_attr_size (cols ! j)) = Some k" using valid_attr_class by blast
    then show ?thesis using m(3) [OF j] by (simp add: assigned_col_def)
  qed
  then have "dom m = column_oid ` set cols" using m(2) by (fastforce simp: in_set_conv_nth)
  then show ?thesis using eq m(1) o by (intro exI [of _ m]) (simp add: make_SqlTable_def Let_def)
qed

text \<open>What the map says of a column.\<close>

lemma column_map_facts:
  assumes "list_all valid_attr (map column_attr_size cols)" and "distinct (map column_oid cols)" and "length cols < MAX_COL"
    and "dom m = column_oid ` set cols"
    and m: "\<And>j. j < length cols \<Longrightarrow> m (column_oid (cols ! j)) = Some (of_nat (assigned_col cols j) :: u16)"
  shows "inj_on m (dom m)"
    and "c \<in> set cols \<Longrightarrow> \<exists>col_id. m (column_oid c) = Some col_id \<and> col_id \<noteq> VERSION_POINTER_COLUMN_ID
      \<and> AttrSize (make_BlockLayout (schema_attr_sizes cols)) col_id = Some (AttrSizeBytes (column_attr_size c))
      \<and> (IsVarlen (make_BlockLayout (schema_attr_sizes cols)) col_id \<longleftrightarrow> column_attr_size c = VARLEN_COLUMN)"
proof -
  let ?layout = "make_BlockLayout (schema_attr_sizes cols)"
  have u: "unat (of_nat (assigned_col cols j) :: u16) = assigned_col cols j" if "j < length cols" for j
    using assigned_col_layout(2) [OF assms(1) that] assms(3) by (simp add: MAX_COL_def unat_of_nat)
  have len: "length (attr_sizes ?layout) = Suc (length cols)"
    by (simp add: make_BlockLayout_def Let_def schema_attr_sizes_def NUM_RESERVED_COLUMNS_def)
  show "inj_on m (dom m)"
  proof (rule inj_onI)
    fix x y assume "x \<in> dom m" "y \<in> dom m" and eq: "m x = m y"
    then obtain i j where ij: "i < length cols" "j < length cols" "x = column_oid (cols ! i)" "y = column_oid (cols ! j)"
      unfolding assms(4) by (auto simp: in_set_conv_nth)
    then have "assigned_col cols i = assigned_col cols j" using eq m u by (metis option.inject)
    then show "x = y" using assigned_col_inj [OF assms(1) ij(1,2)] ij by simp
  qed
  show "\<exists>col_id. m (column_oid c) = Some col_id \<and> col_id \<noteq> VERSION_POINTER_COLUMN_ID
      \<and> AttrSize ?layout col_id = Some (AttrSizeBytes (column_attr_size c))
      \<and> (IsVarlen ?layout col_id \<longleftrightarrow> column_attr_size c = VARLEN_COLUMN)" if c: "c \<in> set cols"
  proof -
    obtain j where j: "j < length cols" "c = cols ! j" using c by (auto simp: in_set_conv_nth)
    let ?id = "of_nat (assigned_col cols j) :: u16"
    note L = assigned_col_layout [OF assms(1) j(1)]
    have "unat ?id \<noteq> 0" using u [OF j(1)] L(3) by simp
    then have "?id \<noteq> VERSION_POINTER_COLUMN_ID" by (auto simp: VERSION_POINTER_COLUMN_ID_def)
    moreover have "valid_attr (column_attr_size c)" using assms(1) c by (auto simp: list_all_iff)
    then have "sint (column_attr_size c) < 0 \<longleftrightarrow> column_attr_size c = VARLEN_COLUMN"
      by (auto simp: valid_attr_def VARLEN_COLUMN_def)
    ultimately show ?thesis
      using m [OF j(1)] L(1,2) u [OF j(1)] len j(2) by (simp add: AttrSize_def IsVarlen_def)
  qed
qed

text \<open>
  C19. The columns of a table are well typed. For a schema with distinct column oids and attribute sizes
  that the system has, the constructor of \<open>SqlTable\<close> does not throw, and the column map it builds
  gives exactly the columns of the schema storage columns: different ones, never the version pointer
  column, and with the attribute size and the varlen flag of the schema column in the block layout.
\<close>

theorem column_map_well_typed:
  assumes "list_all valid_attr (map column_attr_size cols)" and "distinct (map column_oid cols)" and "length cols < MAX_COL"
  shows "\<exists>r. make_SqlTable i cols db = Some r \<and>
    (\<forall>tab db'. r = Inr (tab, db') \<longrightarrow>
       dom (column_map tab) = column_oid ` set cols \<and> inj_on (column_map tab) (dom (column_map tab))
       \<and> (\<forall>c \<in> set cols. \<exists>col_id. column_map tab (column_oid c) = Some col_id \<and> col_id \<noteq> VERSION_POINTER_COLUMN_ID
            \<and> AttrSize (version_layout tab) col_id = Some (AttrSizeBytes (column_attr_size c))
            \<and> (IsVarlen (version_layout tab) col_id \<longleftrightarrow> column_attr_size c = VARLEN_COLUMN)))"
proof -
  obtain m where m: "make_SqlTable i cols db = Some (case CreateTable i (make_BlockLayout (schema_attr_sizes cols)) 0 db of
        Inl e \<Rightarrow> Inl e
      | Inr db' \<Rightarrow> Inr (\<lparr>version_table = i, version_layout = make_BlockLayout (schema_attr_sizes cols), column_map = m\<rparr>, db'))"
      "dom m = column_oid ` set cols"
      "\<And>j. j < length cols \<Longrightarrow> m (column_oid (cols ! j)) = Some (of_nat (assigned_col cols j))"
    using make_SqlTable_map [OF assms(1,2)] by blast
  note W = column_map_facts [OF assms m(2,3)]
  show ?thesis
    unfolding m(1) using W m(2) by (auto split: sum.splits)
qed

theorem column_map_well_typed_witness:
  "\<forall>db. make_SqlTable 0 [\<lparr>column_oid = 1, column_attr_size = 4\<rparr>, \<lparr>column_oid = 2, column_attr_size = VARLEN_COLUMN\<rparr>] db \<noteq> None"
proof
  fix db
  show "make_SqlTable 0 [\<lparr>column_oid = 1, column_attr_size = 4\<rparr>, \<lparr>column_oid = 2, column_attr_size = VARLEN_COLUMN\<rparr>] db \<noteq> None"
    using column_map_well_typed [of "[\<lparr>column_oid = 1, column_attr_size = 4\<rparr>, \<lparr>column_oid = 2, column_attr_size = VARLEN_COLUMN\<rparr>]" 0 db]
    by (auto simp: valid_attr_def MAX_COL_def)
qed

end
