(* ===== verification/SnapshotIsolation.thy ===== *)
theory SnapshotIsolation
  imports Timestamps ProjectedRow
begin

text \<open>
  The contract that the transactional storage layer promises to its clients: snapshot isolation in
  which the first transaction to write a tuple wins. The machine here knows nothing of version chains,
  undo records or garbage collection; the theory \<open>Database\<close> shows that the storage layer refines it.
\<close>

section \<open>The machine\<close>

type_synonym tuple_row = "col_id \<Rightarrow> bytes option"

text \<open>
  The committed tuples, what each running transaction sees in every slot, which slots it wrote, and
  which slots others wrote that committed after it began.
\<close>

record si_state =
  si_committed :: "TupleSlot \<Rightarrow> tuple_row option"
  si_view :: "timestamp \<Rightarrow> (TupleSlot \<Rightarrow> tuple_row option) option"
  si_written :: "timestamp \<Rightarrow> TupleSlot set"
  si_stale :: "timestamp \<Rightarrow> TupleSlot set"

datatype event =
    Begin timestamp
  | Updated timestamp TupleSlot ProjectedRow
  | Inserted timestamp TupleSlot ProjectedRow
  | Deleted timestamp TupleSlot
  | Committed_txn timestamp
  | Aborted_txn timestamp
  | Internal

definition si_init :: si_state where
  "si_init = \<lparr>si_committed = (\<lambda>_. None), si_view = (\<lambda>_. None), si_written = (\<lambda>_. {}), si_stale = (\<lambda>_. {})\<rparr>"

text \<open>
  A transaction may write a slot when no other running transaction wrote it, and no transaction that
  wrote it has committed since the transaction began, so that no committed update is lost.
\<close>

definition si_may_write :: "si_state \<Rightarrow> timestamp \<Rightarrow> TupleSlot \<Rightarrow> bool" where
  "si_may_write a t s \<longleftrightarrow>
     (\<forall>u. u \<noteq> t \<and> si_view a u \<noteq> None \<longrightarrow> s \<notin> si_written a u)
     \<and> (s \<in> si_written a t \<or> s \<notin> si_stale a t)"

definition si_write :: "timestamp \<Rightarrow> TupleSlot \<Rightarrow> tuple_row option \<Rightarrow> si_state \<Rightarrow> si_state" where
  "si_write t s r a =
     a\<lparr>si_view := (si_view a)(t := map_option (\<lambda>f. f(s := r)) (si_view a t)),
       si_written := (si_written a)(t := insert s (si_written a t))\<rparr>"

definition si_finish :: "timestamp \<Rightarrow> si_state \<Rightarrow> si_state" where
  "si_finish t a =
     a\<lparr>si_view := (si_view a)(t := None), si_written := (si_written a)(t := {}), si_stale := (si_stale a)(t := {})\<rparr>"

definition has_columns :: "ProjectedRow \<Rightarrow> tuple_row \<Rightarrow> bool" where
  "has_columns row r \<longleftrightarrow> (\<forall>c v. row_map row c = Some v \<longrightarrow> r c = v)"

inductive si_step :: "si_state \<Rightarrow> event \<Rightarrow> si_state \<Rightarrow> bool" where
  si_begin: "si_view a t = None \<Longrightarrow>
     si_step a (Begin t) (a\<lparr>si_view := (si_view a)(t \<mapsto> si_committed a), si_written := (si_written a)(t := {}),
       si_stale := (si_stale a)(t := {})\<rparr>)"
| si_update: "si_view a t = Some f \<Longrightarrow> f s = Some r \<Longrightarrow> si_may_write a t s \<Longrightarrow>
     si_step a (Updated t s row) (si_write t s (Some (overwrite r row)) a)"
| si_insert: "si_view a t = Some f \<Longrightarrow> f s = None \<Longrightarrow> si_may_write a t s \<Longrightarrow> has_columns row r \<Longrightarrow>
     si_step a (Inserted t s row) (si_write t s (Some r) a)"
| si_delete: "si_view a t = Some f \<Longrightarrow> f s = Some r \<Longrightarrow> si_may_write a t s \<Longrightarrow>
     si_step a (Deleted t s) (si_write t s None a)"
| si_commit: "si_view a t = Some f \<Longrightarrow>
     si_step a (Committed_txn t) (si_finish t
       (a\<lparr>si_committed := (\<lambda>s. if s \<in> si_written a t then f s else si_committed a s),
          si_stale := (\<lambda>u. if si_view a u = None then {} else si_stale a u \<union> si_written a t)\<rparr>))"
| si_abort: "si_view a t = Some f \<Longrightarrow> si_step a (Aborted_txn t) (si_finish t a)"
| si_internal: "si_step a Internal a"

inductive_cases si_step_cases [elim]:
  "si_step a (Begin t) a'"
  "si_step a (Updated t s row) a'"
  "si_step a (Inserted t s row) a'"
  "si_step a (Deleted t s) a'"
  "si_step a (Committed_txn t) a'"
  "si_step a (Aborted_txn t) a'"
  "si_step a Internal a'"

text \<open>A run of a system takes its events one after the other.\<close>

inductive run :: "('s \<Rightarrow> 'e \<Rightarrow> 's \<Rightarrow> bool) \<Rightarrow> 's \<Rightarrow> 'e list \<Rightarrow> 's \<Rightarrow> bool" for step where
  run_nil: "run step s [] s"
| run_cons: "step s e s' \<Longrightarrow> run step s' es s'' \<Longrightarrow> run step s (e # es) s''"

inductive_cases run_elims: "run step s [] s'" "run step s (e # es) s'"

lemma run_append: "run step s (es @ es') s'' \<longleftrightarrow> (\<exists>s'. run step s es s' \<and> run step s' es' s'')"
proof (induction es arbitrary: s)
  case (Cons e es)
  show ?case
  proof
    assume "run step s ((e # es) @ es') s''"
    then obtain s1 where "step s e s1" "run step s1 (es @ es') s''" by (auto elim: run_elims)
    then show "\<exists>s'. run step s (e # es) s' \<and> run step s' es' s''" using Cons.IH by (blast intro: run.intros)
  next
    assume "\<exists>s'. run step s (e # es) s' \<and> run step s' es' s''"
    then obtain s1 s2 where "step s e s1" "run step s1 es s2" "run step s2 es' s''" by (auto elim: run_elims)
    then show "run step s ((e # es) @ es') s''" using Cons.IH by (auto intro: run.intros)
  qed
qed (auto intro: run.intros elim: run_elims)

section \<open>What the machine guarantees\<close>

fun event_txn :: "event \<Rightarrow> timestamp option" where
  "event_txn (Begin t) = Some t"
| "event_txn (Updated t s row) = Some t"
| "event_txn (Inserted t s row) = Some t"
| "event_txn (Deleted t s) = Some t"
| "event_txn (Committed_txn t) = Some t"
| "event_txn (Aborted_txn t) = Some t"
| "event_txn Internal = None"

text \<open>Steps of others do not change what a transaction sees.\<close>

lemma si_step_view: "si_step a e b \<Longrightarrow> event_txn e \<noteq> Some t \<Longrightarrow> si_view b t = si_view a t \<and> si_written b t = si_written a t"
  by (induction rule: si_step.induct) (auto simp: si_write_def si_finish_def)

lemma si_run_view: "run si_step a es b \<Longrightarrow> Some t \<notin> event_txn ` set es \<Longrightarrow>
  si_view b t = si_view a t \<and> si_written b t = si_written a t"
proof (induction rule: run.induct)
  case (run_cons a e b es c)
  then show ?case using si_step_view [of a e b t] by auto
qed simp

text \<open>Only commits change the committed tuples.\<close>

lemma si_step_committed: "si_step a e b \<Longrightarrow> (\<And>t. e \<noteq> Committed_txn t) \<Longrightarrow> si_committed b = si_committed a"
  by (induction rule: si_step.induct) (auto simp: si_write_def si_finish_def)

lemma si_run_committed:
  "run si_step a es b \<Longrightarrow> (\<And>t. Committed_txn t \<notin> set es) \<Longrightarrow> si_committed b = si_committed a"
proof (induction rule: run.induct)
  case (run_cons a e b es c)
  then show ?case using si_step_committed [of a e b] by (metis list.set_intros)
qed simp

text \<open>A slot that a transaction wrote, or that was overtaken, stays so until the transaction finishes.\<close>

lemma si_step_kept:
  "si_step a e b \<Longrightarrow> si_view a t \<noteq> None \<Longrightarrow> e \<noteq> Committed_txn t \<Longrightarrow> e \<noteq> Aborted_txn t \<Longrightarrow>
   si_view b t \<noteq> None \<and> si_written a t \<subseteq> si_written b t \<and> si_stale a t \<subseteq> si_stale b t"
  by (induction rule: si_step.induct) (auto simp: si_write_def si_finish_def)

lemma si_run_kept:
  "run si_step a es b \<Longrightarrow> si_view a t \<noteq> None \<Longrightarrow> Committed_txn t \<notin> set es \<Longrightarrow> Aborted_txn t \<notin> set es \<Longrightarrow>
   si_view b t \<noteq> None \<and> si_written a t \<subseteq> si_written b t \<and> si_stale a t \<subseteq> si_stale b t"
proof (induction rule: run.induct)
  case (run_cons a e b es c)
  then show ?case using si_step_kept [of a e b t] by auto
qed simp

text \<open>Two running transactions never write the same slot, and nobody writes a slot that was overtaken.\<close>

definition si_exclusive :: "si_state \<Rightarrow> bool" where
  "si_exclusive a \<longleftrightarrow>
     (\<forall>t u. t \<noteq> u \<and> si_view a t \<noteq> None \<and> si_view a u \<noteq> None \<longrightarrow> si_written a t \<inter> si_written a u = {})
     \<and> (\<forall>t. si_view a t \<noteq> None \<longrightarrow> si_written a t \<inter> si_stale a t = {})"

lemma si_exclusive_write:
  "si_exclusive a \<Longrightarrow> si_may_write a t s \<Longrightarrow> si_view a t = Some f \<Longrightarrow> si_exclusive (si_write t s r a)"
  by (auto simp: si_exclusive_def si_may_write_def si_write_def; blast)

lemma si_step_exclusive: "si_step a e b \<Longrightarrow> si_exclusive a \<Longrightarrow> si_exclusive b"
proof (induction rule: si_step.induct)
  case (si_commit a t f)
  then show ?case by (auto simp: si_exclusive_def si_finish_def; blast)
qed (auto simp: si_exclusive_write, auto simp: si_exclusive_def si_finish_def)

lemma si_run_exclusive: "run si_step a es b \<Longrightarrow> si_exclusive a \<Longrightarrow> si_exclusive b"
  by (induction rule: run.induct) (auto intro: si_step_exclusive)

text \<open>The transaction, the slot and the new row of an event that writes.\<close>

fun write_of :: "event \<Rightarrow> (timestamp \<times> TupleSlot \<times> ProjectedRow option) option" where
  "write_of (Updated t s row) = Some (t, s, Some row)"
| "write_of (Inserted t s row) = Some (t, s, Some row)"
| "write_of (Deleted t s) = Some (t, s, None)"
| "write_of _ = None"

fun shows_write :: "ProjectedRow option \<Rightarrow> tuple_row option \<Rightarrow> bool" where
  "shows_write None r = (r = None)"
| "shows_write (Some row) r = (\<exists>r'. r = Some r' \<and> has_columns row r')"

lemma si_write_event:
  assumes "si_step a e b" and "write_of e = Some (t, s, x)"
  shows "\<exists>f. si_view b t = Some f \<and> s \<in> si_written b t \<and> shows_write x (f s)"
    and "si_view a t \<noteq> None \<and> si_may_write a t s"
  using assms
  by (induction rule: si_step.induct)
     (auto simp: si_write_def has_columns_def overwrite_def)

text \<open>A running transaction sees in a slot what it saw before, until it writes the slot.\<close>

lemma si_step_row:
  "si_step a e b \<Longrightarrow> si_view a t = Some f \<Longrightarrow> e \<noteq> Committed_txn t \<Longrightarrow> e \<noteq> Aborted_txn t \<Longrightarrow>
   (\<And>y. write_of e \<noteq> Some (t, s, y)) \<Longrightarrow> \<exists>f'. si_view b t = Some f' \<and> f' s = f s"
  by (induction rule: si_step.induct) (auto simp: si_write_def si_finish_def)

lemma si_run_row:
  "run si_step a es b \<Longrightarrow> si_view a t = Some f \<Longrightarrow> Committed_txn t \<notin> set es \<Longrightarrow> Aborted_txn t \<notin> set es \<Longrightarrow>
   (\<And>e y. e \<in> set es \<Longrightarrow> write_of e \<noteq> Some (t, s, y)) \<Longrightarrow> \<exists>f'. si_view b t = Some f' \<and> f' s = f s"
proof (induction arbitrary: f rule: run.induct)
  case (run_cons a e b es c)
  have "e \<noteq> Committed_txn t" "e \<noteq> Aborted_txn t" "\<And>y. write_of e \<noteq> Some (t, s, y)" using run_cons.prems by auto
  then obtain f' where f': "si_view b t = Some f'" "f' s = f s" using si_step_row [OF run_cons.hyps(1) run_cons.prems(1)] by blast
  from run_cons.IH [OF f'(1)] run_cons.prems f'(2) show ?case by auto
qed simp

lemma si_commit_event:
  assumes "si_step a (Committed_txn t) b" and "s \<in> si_written a t"
  shows "si_view a t = Some f \<Longrightarrow> si_committed b s = f s"
    and "u \<noteq> t \<Longrightarrow> si_view a u \<noteq> None \<Longrightarrow> s \<in> si_stale b u \<and> si_view b u \<noteq> None \<and> si_written b u = si_written a u"
  using assms by (auto simp: si_finish_def)

section \<open>Refinement\<close>

text \<open>What a read of some columns returns of a write: nothing of a delete, the values of the row otherwise.\<close>

fun shows_read :: "ProjectedRow option \<Rightarrow> col_id list \<Rightarrow> bytes option list option \<Rightarrow> bool" where
  "shows_read None cols r = (r = None)"
| "shows_read (Some row) cols r =
     (set cols \<subseteq> set (col_ids row) \<longrightarrow> r = Some (map (\<lambda>c. the (row_map row c)) cols))"

lemma shows_write_read:
  assumes "shows_write x r"
  shows "shows_read x cols (map_option (\<lambda>row. map row cols) r)"
proof (cases x)
  case (Some row)
  have "r' c = the (row_map row c)" if "has_columns row r'" "c \<in> set (col_ids row)" for r' c
    using that row_map_None [of row c] by (auto simp: has_columns_def)
  then show ?thesis using assms Some by auto
qed (use assms in simp)

text \<open>
  An implementation with the same events: its steps are simulated by the machine, and its reads return
  what the machine says the transaction sees.
\<close>

locale si_refinement =
  fixes step :: "'s \<Rightarrow> event \<Rightarrow> 's \<Rightarrow> bool"
    and refines :: "'s \<Rightarrow> si_state \<Rightarrow> bool"
    and reads :: "'s \<Rightarrow> timestamp \<Rightarrow> TupleSlot \<Rightarrow> col_id list \<Rightarrow> bytes option list option \<Rightarrow> bool"
  assumes simulation: "refines s a \<Longrightarrow> step s e s' \<Longrightarrow> \<exists>a'. si_step a e a' \<and> refines s' a'"
    and reads_view: "refines s a \<Longrightarrow> reads s t slot cols r \<Longrightarrow>
      \<exists>f. si_view a t = Some f \<and> r = map_option (\<lambda>row. map row cols) (f slot)"
begin

lemma run_refines: "run step s es s' \<Longrightarrow> refines s a \<Longrightarrow> \<exists>a'. run si_step a es a' \<and> refines s' a'"
proof (induction arbitrary: a rule: run.induct)
  case (run_cons s e s' es s'')
  then show ?case using simulation by (meson run.intros(2))
qed (auto intro: run.intros)

lemma repeatable_read:
  assumes "run step s es s'" and "refines s a" and "Some t \<notin> event_txn ` set es"
    and "reads s t slot cols r" and "reads s' t slot cols r'"
  shows "r' = r"
proof -
  obtain a' where a': "run si_step a es a'" "refines s' a'" using run_refines assms(1,2) by blast
  then have "si_view a' t = si_view a t" using si_run_view assms(3) by blast
  then show ?thesis using reads_view [OF assms(2,4)] reads_view [OF a'(2) assms(5)] by auto
qed

text \<open>A transaction reads its own write, and so does one that begins after its commit.\<close>

lemma read_own_write:
  assumes "run step s (e # es) s'" and "refines s a" and "write_of e = Some (t, slot, x)"
    and "Committed_txn t \<notin> set es" and "Aborted_txn t \<notin> set es"
    and "\<And>e' y. e' \<in> set es \<Longrightarrow> write_of e' \<noteq> Some (t, slot, y)" and "reads s' t slot cols r"
  shows "shows_read x cols r"
proof -
  obtain b a' where b: "si_step a e b" "run si_step b es a'" "refines s' a'"
    using run_refines [OF assms(1,2)] by (auto elim: run_elims)
  obtain f where f: "si_view b t = Some f" "shows_write x (f slot)" using si_write_event(1) [OF b(1) assms(3)] by blast
  obtain f' where "si_view a' t = Some f'" "f' slot = f slot" using si_run_row [OF b(2) f(1) assms(4-6)] by blast
  then have "r = map_option (\<lambda>row. map row cols) (f slot)" using reads_view [OF b(3) assms(7)] by auto
  then show ?thesis by (simp add: shows_write_read [OF f(2)])
qed

lemma committed_write_visible:
  assumes "run step s (e # es @ Committed_txn u # es' @ [Begin t]) s'" and "refines s a"
    and "write_of e = Some (u, slot, x)" and "Committed_txn u \<notin> set es" and "Aborted_txn u \<notin> set es"
    and "\<And>e' y. e' \<in> set es \<Longrightarrow> write_of e' \<noteq> Some (u, slot, y)" and "\<And>v. Committed_txn v \<notin> set es'"
    and "reads s' t slot cols r"
  shows "shows_read x cols r"
proof -
  obtain a1 a2 a3 a4 a' where b: "si_step a e a1" "run si_step a1 es a2" "si_step a2 (Committed_txn u) a3" "run si_step a3 es' a4"
      "si_step a4 (Begin t) a'" "refines s' a'"
    using run_refines [OF assms(1,2)] by (auto simp: run_append elim!: run_elims)
  obtain f where f: "si_view a1 u = Some f" "slot \<in> si_written a1 u" "shows_write x (f slot)"
    using si_write_event(1) [OF b(1) assms(3)] by blast
  obtain f' where f': "si_view a2 u = Some f'" "f' slot = f slot" using si_run_row [OF b(2) f(1) assms(4-6)] by blast
  have "slot \<in> si_written a2 u" using si_run_kept [OF b(2), of u] assms(4,5) f(1,2) by auto
  then have "si_committed a4 slot = f slot"
    using si_commit_event(1) [OF b(3) _ f'(1)] si_run_committed [OF b(4) assms(7)] f'(2) by simp
  moreover have "si_view a' t = Some (si_committed a4)" using b(5) by auto
  ultimately have "r = map_option (\<lambda>row. map row cols) (f slot)" using reads_view [OF b(6) assms(8)] by auto
  then show ?thesis by (simp add: shows_write_read [OF f(3)])
qed

text \<open>Transactions that begin with no commit in between read the same, whatever runs or aborts.\<close>

lemma uncommitted_invisible:
  assumes "run step s (Begin t # es @ [Begin u]) s'" and "refines s a"
    and "\<And>v. Committed_txn v \<notin> set es" and "Some t \<notin> event_txn ` set es" and "u \<noteq> t"
    and "reads s' t slot cols r" and "reads s' u slot cols r'"
  shows "r' = r"
proof -
  obtain a1 a2 a' where b: "si_step a (Begin t) a1" "run si_step a1 es a2" "si_step a2 (Begin u) a'" "refines s' a'"
    using run_refines [OF assms(1,2)] by (auto simp: run_append elim!: run_elims)
  have "si_view a1 t = Some (si_committed a1)" using b(1) by auto
  then have "si_view a2 t = Some (si_committed a2)" using si_run_view [OF b(2) assms(4)] si_run_committed [OF b(2) assms(3)] by simp
  then have "si_view a' t = si_view a' u" using b(3) assms(5) by auto
  then show ?thesis using reads_view [OF b(4) assms(6)] reads_view [OF b(4) assms(7)] by auto
qed

text \<open>While a transaction that wrote a slot runs nobody else writes it; after its commit, only later ones.\<close>

lemma first_updater_wins:
  assumes "run step s (e # es @ [e']) s'" and "refines s a" and "write_of e = Some (t, slot, x)"
    and "Committed_txn t \<notin> set es" and "Aborted_txn t \<notin> set es" and "write_of e' = Some (u, slot, y)"
  shows "u = t"
proof (rule ccontr)
  assume "u \<noteq> t"
  obtain a1 a2 a' where b: "si_step a e a1" "run si_step a1 es a2" "si_step a2 e' a'"
    using run_refines [OF assms(1,2)] by (auto simp: run_append elim!: run_elims)
  obtain f where "si_view a1 t = Some f" "slot \<in> si_written a1 t" using si_write_event(1) [OF b(1) assms(3)] by blast
  then have "si_view a2 t \<noteq> None" "slot \<in> si_written a2 t" using si_run_kept [OF b(2), of t] assms(4,5) by auto
  then show False using si_write_event(2) [OF b(3) assms(6)] \<open>u \<noteq> t\<close> unfolding si_may_write_def by metis
qed

lemma no_lost_update:
  assumes "run step s (Begin t # es0 @ e # es @ Committed_txn u # es' @ [e']) s'" and "refines s a" and "si_exclusive a"
    and "write_of e = Some (u, slot, x)" and "Committed_txn u \<notin> set es" and "Aborted_txn u \<notin> set es" and "u \<noteq> t"
    and "\<And>e. e \<in> set (es0 @ es @ es') \<Longrightarrow> e \<noteq> Committed_txn t \<and> e \<noteq> Aborted_txn t"
  shows "write_of e' \<noteq> Some (t, slot, y)"
proof
  assume w: "write_of e' = Some (t, slot, y)"
  obtain a1 a2 a3 a4 a5 a6 a' where b: "si_step a (Begin t) a1" "run si_step a1 es0 a2" "si_step a2 e a3" "run si_step a3 es a4"
      "si_step a4 (Committed_txn u) a5" "run si_step a5 es' a6" "si_step a6 e' a'"
    using run_refines [OF assms(1,2)] by (auto simp: run_append elim!: run_elims)
  have "si_view a1 t \<noteq> None" using b(1) by auto
  then have t2: "si_view a2 t \<noteq> None" using si_run_kept [OF b(2), of t] assms(8) by auto
  moreover have "e \<noteq> Committed_txn t" "e \<noteq> Aborted_txn t" using assms(4) by auto
  ultimately have t3: "si_view a3 t \<noteq> None" using si_step_kept [OF b(3), of t] by auto
  then have t4: "si_view a4 t \<noteq> None" using si_run_kept [OF b(4), of t] assms(8) by auto
  obtain f where "si_view a3 u = Some f" "slot \<in> si_written a3 u" using si_write_event(1) [OF b(3) assms(4)] by blast
  then have "slot \<in> si_written a4 u" using si_run_kept [OF b(4), of u] assms(5,6) by auto
  then have t5: "slot \<in> si_stale a5 t" "si_view a5 t \<noteq> None" using si_commit_event(2) [OF b(5) _ _ t4] assms(7) by auto
  then have "slot \<in> si_stale a6 t" "si_view a6 t \<noteq> None" using si_run_kept [OF b(6), of t] assms(8) by auto
  moreover have "si_exclusive a6"
    using assms(3) b(1-6) by (blast intro: si_step_exclusive si_run_exclusive)
  ultimately show False
    using si_write_event(2) [OF b(7) w] unfolding si_may_write_def si_exclusive_def by blast
qed

end

end
