(* ===== verification/Database.thy ===== *)
theory Database
  imports SqlTable SnapshotIsolation
begin

text \<open>
  The storage engine as a whole: the calls of the table layer, the transaction manager and the
  garbage collector as steps on one state, in any order. Each call is one step. The invariant relates
  the version chains, the undo buffers, the clock and the queues of the collector; every step keeps it,
  and every step is simulated by the machine of the theory \<open>SnapshotIsolation\<close>.
\<close>

section \<open>The invariant\<close>

definition valid_slot :: "database \<Rightarrow> TupleSlot \<Rightarrow> bool" where
  "valid_slot db s \<longleftrightarrow>
     (\<exists>i. GetBlock s \<in> set (blocks (tables db i)) \<and> GetOffset s < num_slots (table_layout (tables db i)))"

definition active :: "database \<Rightarrow> timestamp \<Rightarrow> bool" where
  "active db t \<longleftrightarrow> (\<exists>c. contexts db t = Some c \<and> finish_time c = txn_id t)"

definition same_time :: "UndoRecord list \<Rightarrow> bool" where
  "same_time rs \<longleftrightarrow> (\<forall>r \<in> set rs. rec_timestamp r = rec_timestamp (hd rs))"

text \<open>The chain \<open>qs\<close> of a slot.\<close>

definition slot_inv :: "storage \<Rightarrow> TupleSlot \<Rightarrow> nat list \<Rightarrow> bool" where
  "slot_inv st s qs \<longleftrightarrow>
     slot_chain st s qs
     \<and> (\<forall>q \<in> set qs. q < undo_next st \<and> rec_slot (undo_recs st q) = s \<and> rec_table (undo_recs st q) \<noteq> None
          \<and> update_ok (undo_recs st q))
     \<and> chain_ok (map (undo_recs st) qs)
     \<and> (\<not> Allocated (memory st) s \<longrightarrow> qs = []
          \<or> rec_type (undo_recs st (last qs)) = INSERT \<and> same_time (map (undo_recs st) qs)
            \<and> Committed (rec_timestamp (undo_recs st (hd qs))))"

text \<open>A context: its times, and the records of its undo buffer.\<close>

definition times_inv :: "TimestampManager \<Rightarrow> timestamp \<Rightarrow> TransactionContext \<Rightarrow> bool" where
  "times_inv tm t c \<longleftrightarrow>
     start_time c = t \<and> t < time tm
     \<and> (finish_time c = txn_id t \<and> t \<in> set (curr_running_txns tm) \<and> \<not> aborted c
        \<or> Committed (finish_time c) \<and> finish_time c < time tm)"

definition installed :: "database \<Rightarrow> (TupleSlot \<Rightarrow> nat list) \<Rightarrow> nat \<Rightarrow> bool" where
  "installed db C p \<longleftrightarrow>
     (let s = rec_slot (undo_recs (store db) p) in valid_slot db s \<and> p \<in> set (C s))"

definition deletes :: "database \<Rightarrow> (TupleSlot \<Rightarrow> nat list) \<Rightarrow> nat \<Rightarrow> bool" where
  "deletes db C p \<longleftrightarrow>
     (let s = rec_slot (undo_recs (store db) p)
      in valid_slot db s \<and> IsNull (memory (store db)) s VERSION_POINTER_COLUMN_ID \<and> (C s = [] \<or> hd (C s) = p)
         \<and> GetOffset s < insert_head (memory (store db) (GetBlock s)))"

definition records_inv :: "database \<Rightarrow> (TupleSlot \<Rightarrow> nat list) \<Rightarrow> timestamp \<Rightarrow> TransactionContext \<Rightarrow> bool" where
  "records_inv db C t c \<longleftrightarrow>
     distinct (undo_buffer c)
     \<and> (\<forall>p \<in> set (undo_buffer c). p < undo_next (store db) \<and> rec_timestamp (undo_recs (store db) p) = finish_time c)
     \<and> sorted_wrt (\<lambda>p q. rec_table (undo_recs (store db) p) \<noteq> None) (undo_buffer c)
     \<and> (\<not> aborted c \<and> \<not> (must_abort c \<and> finish_time c = txn_id t) \<longrightarrow>
          (\<forall>p \<in> set (undo_buffer c). rec_table (undo_recs (store db) p) \<noteq> None))
     \<and> (\<forall>p \<in> set (undo_buffer c). rec_table (undo_recs (store db) p) \<noteq> None \<longrightarrow>
          valid_slot db (rec_slot (undo_recs (store db) p))
          \<and> (finish_time c = txn_id t \<longrightarrow> installed db C p)
          \<and> (\<not> aborted c \<and> rec_type (undo_recs (store db) p) = DELETE \<longrightarrow> deletes db C p))"

text \<open>The tables and the block store.\<close>

definition table_inv :: "database \<Rightarrow> nat \<Rightarrow> bool" where
  "table_inv db i \<longleftrightarrow>
     blocks (tables db i) \<noteq> [] \<longrightarrow>
       heads_ok (tables db i) (memory (store db)) \<and> insertion_head (tables db i) < length (blocks (tables db i))
       \<and> table_id (tables db i) = i \<and> (\<forall>b \<in> set (blocks (tables db i)). slot_asserts b 0 \<and> hot (memory (store db) b))"

definition blocks_inv :: "database \<Rightarrow> bool" where
  "blocks_inv db \<longleftrightarrow>
     (\<forall>i. table_inv db i)
     \<and> (\<forall>i j. i \<noteq> j \<longrightarrow> set (blocks (tables db i)) \<inter> set (blocks (tables db j)) = {})
     \<and> distinct (reuse_queue (block_pool (block_store db)))
     \<and> (\<forall>b \<in> set (reuse_queue (block_pool (block_store db))). slot_asserts b 0 \<and> (\<forall>i. b \<notin> set (blocks (tables db i))))
     \<and> (\<forall>n b. new_calls (block_store db) \<le> n \<longrightarrow> fresh (block_store db) n = Some b \<longrightarrow>
          slot_asserts b 0 \<and> b \<notin> set (reuse_queue (block_pool (block_store db)))
          \<and> (\<forall>i. b \<notin> set (blocks (tables db i)))
          \<and> (\<forall>m > n. fresh (block_store db) m \<noteq> Some b))"

text \<open>
  The chains of all slots, with an owner for every record that is linked; the contexts; the slots that
  were never handed out; and the queues of the collector, where a context that waits for its
  deallocation owns no linked record.
\<close>

definition chains_inv :: "database \<Rightarrow> (TupleSlot \<Rightarrow> nat list) \<Rightarrow> bool" where
  "chains_inv db C \<longleftrightarrow>
     (\<forall>s. valid_slot db s \<longrightarrow>
        slot_inv (store db) s (C s)
        \<and> (\<forall>q \<in> set (C s). \<exists>t c. contexts db t = Some c \<and> q \<in> set (undo_buffer c))
        \<and> (insert_head (memory (store db) (GetBlock s)) \<le> GetOffset s \<longrightarrow>
             \<not> Allocated (memory (store db)) s \<and> IsNull (memory (store db)) s VERSION_POINTER_COLUMN_ID \<and> C s = []))"

definition contexts_inv :: "database \<Rightarrow> (TupleSlot \<Rightarrow> nat list) \<Rightarrow> bool" where
  "contexts_inv db C \<longleftrightarrow>
     Committed (time (ts_manager db))
     \<and> (\<forall>t \<in> set (curr_running_txns (ts_manager db)). t < time (ts_manager db))
     \<and> (\<forall>t c. contexts db t = Some c \<longrightarrow> times_inv (ts_manager db) t c \<and> records_inv db C t c)
     \<and> (\<forall>t c t' c'. contexts db t = Some c \<longrightarrow> contexts db t' = Some c' \<longrightarrow> t \<noteq> t' \<longrightarrow>
          set (undo_buffer c) \<inter> set (undo_buffer c') = {})"

definition queues_inv :: "GarbageCollector \<Rightarrow> database \<Rightarrow> (TupleSlot \<Rightarrow> nat list) \<Rightarrow> bool" where
  "queues_inv gc db C \<longleftrightarrow>
     distinct (completed_txns db @ txns_to_unlink gc @ txns_to_deallocate gc)
     \<and> (\<forall>t \<in> set (completed_txns db @ txns_to_unlink gc @ txns_to_deallocate gc).
          \<exists>c. contexts db t = Some c \<and> Committed (finish_time c))
     \<and> (\<forall>t \<in> set (txns_to_deallocate gc). \<forall>s. valid_slot db s \<longrightarrow> set (undo_buffer (the (contexts db t))) \<inter> set (C s) = {})"

definition db_inv :: "GarbageCollector \<Rightarrow> database \<Rightarrow> (TupleSlot \<Rightarrow> nat list) \<Rightarrow> bool" where
  "db_inv gc db C \<longleftrightarrow> blocks_inv db \<and> chains_inv db C \<and> contexts_inv db C \<and> queues_inv gc db C"

section \<open>The abstraction\<close>

definition row_of :: "bool \<Rightarrow> tuple_value \<Rightarrow> tuple_row option" where
  "row_of alloc v = (if alloc \<and> fst v then Some (snd v) else None)"

definition committed_row :: "TupleSlot \<Rightarrow> nat list \<Rightarrow> storage \<Rightarrow> tuple_row option" where
  "committed_row s qs st =
     row_of (Allocated (memory st) s) (committed_value (map (undo_recs st) qs) (current_value (memory st) s))"

definition seen :: "database \<Rightarrow> (TupleSlot \<Rightarrow> nat list) \<Rightarrow> timestamp \<Rightarrow> TupleSlot \<Rightarrow> tuple_row option" where
  "seen db C t s =
     (if valid_slot db s
      then row_of (Allocated (memory (store db)) s)
             (read_value (txn_id t) t (map (undo_recs (store db)) (C s)) (current_value (memory (store db)) s))
      else None)"

definition written :: "database \<Rightarrow> timestamp \<Rightarrow> TupleSlot set" where
  "written db t = touched (undo_recs (store db)) [] (undo_buffer (the (contexts db t)))"

text \<open>A transaction that committed after \<open>t\<close> began has a version in the slot.\<close>

definition overtaken :: "database \<Rightarrow> (TupleSlot \<Rightarrow> nat list) \<Rightarrow> timestamp \<Rightarrow> TupleSlot \<Rightarrow> bool" where
  "overtaken db C t s \<longleftrightarrow> valid_slot db s
     \<and> (\<exists>q \<in> set (C s). \<exists>u c. contexts db u = Some c \<and> q \<in> set (undo_buffer c) \<and> \<not> aborted c
          \<and> Committed (finish_time c) \<and> NewerThan (finish_time c) t)"

definition si_abs :: "database \<Rightarrow> (TupleSlot \<Rightarrow> nat list) \<Rightarrow> si_state" where
  "si_abs db C =
     \<lparr>si_committed = (\<lambda>s. if valid_slot db s then committed_row s (C s) (store db) else None),
      si_view = (\<lambda>t. if active db t then Some (seen db C t) else None),
      si_written = (\<lambda>t. if active db t then written db t else {}),
      si_stale = (\<lambda>t. if active db t then {s. overtaken db C t s} else {})\<rparr>"

section \<open>Consequences of the invariant\<close>

lemma inv_parts:
  assumes "db_inv gc db C"
  shows "blocks_inv db" and "chains_inv db C" and "contexts_inv db C" and "queues_inv gc db C"
  using assms by (simp_all add: db_inv_def)

lemma inv_slot:
  assumes "db_inv gc db C" and "valid_slot db s"
  shows "slot_inv (store db) s (C s)"
    and "q \<in> set (C s) \<Longrightarrow> \<exists>t c. contexts db t = Some c \<and> q \<in> set (undo_buffer c)"
    and "insert_head (memory (store db) (GetBlock s)) \<le> GetOffset s \<Longrightarrow>
      \<not> Allocated (memory (store db)) s \<and> IsNull (memory (store db)) s VERSION_POINTER_COLUMN_ID \<and> C s = []"
  using assms by (simp_all add: db_inv_def chains_inv_def)

lemma inv_context:
  assumes "db_inv gc db C" and "contexts db t = Some c"
  shows "times_inv (ts_manager db) t c" and "records_inv db C t c" and "Committed t"
proof -
  show "times_inv (ts_manager db) t c" and "records_inv db C t c"
    using assms by (simp_all add: db_inv_def contexts_inv_def)
  moreover have "Committed (time (ts_manager db))" using assms(1) by (simp add: db_inv_def contexts_inv_def)
  ultimately show "Committed t" by (auto simp: times_inv_def Committed_iff word_less_nat_alt)
qed

lemma inv_record:
  assumes "db_inv gc db C" and "contexts db t = Some c" and "p \<in> set (undo_buffer c)"
  shows "p < undo_next (store db)" and "rec_timestamp (undo_recs (store db) p) = finish_time c"
  using inv_context(2) [OF assms(1,2)] assms(3) by (simp_all add: records_inv_def)

lemma inv_owner:
  assumes "db_inv gc db C" and "contexts db t = Some c" and "contexts db t' = Some c'"
    and "p \<in> set (undo_buffer c)" and "p \<in> set (undo_buffer c')"
  shows "t' = t"
proof (rule ccontr)
  assume "t' \<noteq> t"
  then have "set (undo_buffer c) \<inter> set (undo_buffer c') = {}"
    using inv_parts(3) [OF assms(1)] assms(2,3) unfolding contexts_inv_def by metis
  then show False using assms(4,5) by blast
qed

lemma inv_linked:
  assumes "db_inv gc db C" and "valid_slot db s" and "q \<in> set (C s)"
  shows "q < undo_next (store db)" and "rec_slot (undo_recs (store db) q) = s"
    and "rec_table (undo_recs (store db) q) \<noteq> None" and "update_ok (undo_recs (store db) q)"
  using inv_slot(1) [OF assms(1,2)] assms(3) by (auto simp: slot_inv_def)

text \<open>A linked record with the identifier of a running transaction is in its undo buffer.\<close>

lemma inv_own_record:
  assumes "db_inv gc db C" and "contexts db t = Some c" and "finish_time c = txn_id t"
    and "valid_slot db s" and "q \<in> set (C s)" and "rec_timestamp (undo_recs (store db) q) = txn_id t"
  shows "q \<in> set (undo_buffer c)"
proof -
  obtain u d where u: "contexts db u = Some d" "q \<in> set (undo_buffer d)" using inv_slot(2) [OF assms(1,4,5)] by blast
  then have "finish_time d = txn_id t" using inv_record(2) [OF assms(1)] assms(6) by metis
  moreover have "\<not> Committed (txn_id t)" using inv_context(3) [OF assms(1,2)] txn_id_uncommitted by blast
  ultimately have "u = t" using inv_context(1) [OF assms(1) u(1)] by (auto simp: times_inv_def txn_id_inj)
  then show ?thesis using u assms(2) by simp
qed

lemma active_not_queued:
  assumes "db_inv gc db C" and "contexts db t = Some c" and "finish_time c = txn_id t"
  shows "t \<notin> set (completed_txns db @ txns_to_unlink gc @ txns_to_deallocate gc)"
proof
  assume t: "t \<in> set (completed_txns db @ txns_to_unlink gc @ txns_to_deallocate gc)"
  then obtain d where "contexts db t = Some d" "Committed (finish_time d)"
    using inv_parts(4) [OF assms(1)] unfolding queues_inv_def by blast
  then have "Committed (txn_id t)" using assms(2,3) by simp
  then show False using inv_context(3) [OF assms(1,2)] txn_id_uncommitted by blast
qed

lemma blocks_inv_cong:
  assumes "blocks_inv db" and "tables db' = tables db" and "block_store db' = block_store db"
    and "\<And>b. insert_head (memory (store db') b) = insert_head (memory (store db) b)"
    and "\<And>b. hot (memory (store db) b) \<longrightarrow> hot (memory (store db') b)"
  shows "blocks_inv db'"
  using assms by (simp add: blocks_inv_def table_inv_def heads_ok_def idle_def)

lemma valid_slot_cong: "tables db' = tables db \<Longrightarrow> valid_slot db' s = valid_slot db s"
  by (simp add: valid_slot_def)

lemma slot_inv_cong:
  assumes "slot_inv st s qs" and "same_slot st st' s" and "\<And>q. q \<in> set qs \<Longrightarrow> undo_recs st' q = undo_recs st q"
    and "undo_next st \<le> undo_next st'"
  shows "slot_inv st' s qs"
  unfolding slot_inv_def
proof (intro conjI impI ballI)
  have m: "map (undo_recs st') qs = map (undo_recs st) qs" using assms(3) by simp
  have "chain (undo_recs st') (AtomicallyReadVersionPtr (memory st') s) qs
      = chain (undo_recs st) (AtomicallyReadVersionPtr (memory st) s) qs"
    using assms(2,3) chain_cong [of qs "undo_recs st'" "undo_recs st"] by (simp add: same_slot_def)
  then show "slot_chain st' s qs" using assms(1) by (simp add: slot_inv_def slot_chain_def)
  show "chain_ok (map (undo_recs st') qs)" unfolding m using assms(1) by (simp add: slot_inv_def)
  assume "\<not> Allocated (memory st') s"
  then have "\<not> Allocated (memory st) s" using assms(2) by (simp add: same_slot_def)
  then show "qs = [] \<or> rec_type (undo_recs st' (last qs)) = INSERT \<and> same_time (map (undo_recs st') qs)
            \<and> Committed (rec_timestamp (undo_recs st' (hd qs)))"
    unfolding m using assms(1,3) by (cases "qs = []") (simp_all add: slot_inv_def)
qed (use assms in \<open>auto simp: slot_inv_def\<close>)

section \<open>Installing a record\<close>

text \<open>A context after a write of its transaction: a new record at the end of its undo buffer.\<close>

definition pushes_record :: "nat \<Rightarrow> TransactionContext \<Rightarrow> TransactionContext \<Rightarrow> bool" where
  "pushes_record p c c' \<longleftrightarrow>
     undo_buffer c' = undo_buffer c @ [p] \<and> start_time c' = start_time c \<and> finish_time c' = finish_time c
     \<and> aborted c' = aborted c"

lemma slot_inv_push:
  assumes "slot_inv st slot qs" and "pushes st st' slot r v" and "rec_table r \<noteq> None" and "update_ok r"
    and "rec_type r = INSERT \<Longrightarrow> qs = []"
    and "qs = [] \<or> rec_timestamp (undo_recs st (hd qs)) = rec_timestamp r \<or> Committed (rec_timestamp (undo_recs st (hd qs)))"
    and unc: "\<not> Committed (rec_timestamp r)"
  shows "slot_inv st' slot (undo_next st # qs)"
proof -
  have p: "undo_next st \<notin> set qs" using assms(1) by (auto simp: slot_inv_def)
  have h: "undo_recs st' = (undo_recs st)(undo_next st := r)" and s: "rec_slot r = slot" and al: "Allocated (memory st') slot"
    and n: "undo_next st' = undo_next st + 1"
    using assms(2) by (simp_all add: pushes_def)
  have m: "map (undo_recs st') qs = map (undo_recs st) qs" using p by (auto simp: h)
  have "chain (undo_recs st') q qs = chain (undo_recs st) q qs" for q
    by (rule chain_cong) (use p in \<open>auto simp: h\<close>)
  then have "chain (undo_recs st') (rec_next r) qs"
    using assms(1,2) by (simp add: slot_inv_def slot_chain_def pushes_def)
  then have c: "slot_chain st' slot (undo_next st # qs)"
    using assms(2) by (simp add: slot_chain_def pushes_def h)
  have old: "chain_ok (map (undo_recs st) qs)" using assms(1) by (simp add: slot_inv_def)
  have own: "rec_timestamp r' = rec_timestamp r" if "r' \<in> set (map (undo_recs st) qs)" "\<not> Committed (rec_timestamp r')" for r'
  proof -
    have ne: "qs \<noteq> []" using that(1) by auto
    then have "rec_timestamp (undo_recs st (hd qs)) = rec_timestamp r'"
      using chain_ok_uncommitted [OF old _ that] by (simp add: hd_map)
    then show ?thesis using assms(6) that(2) ne by auto
  qed
  have "rec_timestamp r' \<le> rec_timestamp r" if "r' \<in> set (map (undo_recs st) qs)" for r'
    using own [OF that] uncommitted_ge [OF unc, of "rec_timestamp r'"] by (cases "Committed (rec_timestamp r')") simp_all
  then have "chain_ok (map (undo_recs st') (undo_next st # qs))"
    using old assms(5) own unfolding list.map m by (auto simp: h)
  moreover have "q < undo_next st' \<and> rec_slot (undo_recs st' q) = slot \<and> rec_table (undo_recs st' q) \<noteq> None
      \<and> update_ok (undo_recs st' q)" if "q \<in> set (undo_next st # qs)" for q
  proof (cases "q = undo_next st")
    case True
    then show ?thesis using assms(3,4) s n by (simp add: h)
  next
    case False
    then have "q \<in> set qs" using that by simp
    then have "q < undo_next st \<and> rec_slot (undo_recs st q) = slot \<and> rec_table (undo_recs st q) \<noteq> None \<and> update_ok (undo_recs st q)"
      using assms(1) by (simp add: slot_inv_def)
    then show ?thesis using False n by (simp add: h)
  qed
  ultimately show ?thesis using c al unfolding slot_inv_def by blast
qed

text \<open>A write by a running transaction: the shared assumptions of the three operations.\<close>

definition writes_slot ::
  "GarbageCollector \<Rightarrow> database \<Rightarrow> (TupleSlot \<Rightarrow> nat list) \<Rightarrow> timestamp \<Rightarrow> TransactionContext \<Rightarrow> TupleSlot
     \<Rightarrow> UndoRecord \<Rightarrow> tuple_value \<Rightarrow> database \<Rightarrow> bool" where
  "writes_slot gc db C t c slot r v db' \<longleftrightarrow>
     db_inv gc db C \<and> contexts db t = Some c \<and> finish_time c = txn_id t \<and> \<not> must_abort c
     \<and> valid_slot db slot
     \<and> GetOffset slot < insert_head (memory (store db) (GetBlock slot))
     \<and> pushes (store db) (store db') slot r v
     \<and> rec_timestamp r = txn_id t \<and> rec_table r \<noteq> None \<and> update_ok r
     \<and> (rec_type r = INSERT \<longrightarrow> C slot = [])
     \<and> (rec_type r = DELETE \<longrightarrow> IsNull (memory (store db')) slot VERSION_POINTER_COLUMN_ID)
     \<and> (C slot = [] \<or> rec_timestamp (undo_recs (store db) (hd (C slot))) = txn_id t
        \<or> Committed (rec_timestamp (undo_recs (store db) (hd (C slot))))
          \<and> \<not> NewerThan (rec_timestamp (undo_recs (store db) (hd (C slot)))) t)
     \<and> (\<forall>u d q. contexts db u = Some d \<and> q \<in> set (undo_buffer d) \<and> \<not> aborted d
          \<and> rec_table (undo_recs (store db) q) \<noteq> None \<and> rec_type (undo_recs (store db) q) = DELETE \<longrightarrow>
          rec_slot (undo_recs (store db) q) \<noteq> slot)
     \<and> (\<exists>c'. contexts db' = (contexts db)(t \<mapsto> c') \<and> pushes_record (undo_next (store db)) c c' \<and> \<not> must_abort c')
     \<and> tables db' = tables db \<and> block_store db' = block_store db \<and> ts_manager db' = ts_manager db
     \<and> completed_txns db' = completed_txns db"

lemma writes_slotD:
  assumes "writes_slot gc db C t c slot r v db'"
  shows "db_inv gc db C" and "contexts db t = Some c" and "finish_time c = txn_id t" and "\<not> must_abort c"
    and "valid_slot db slot" and "GetOffset slot < insert_head (memory (store db) (GetBlock slot))"
    and "pushes (store db) (store db') slot r v"
    and "rec_timestamp r = txn_id t" and "rec_table r \<noteq> None" and "update_ok r"
    and "rec_type r = INSERT \<Longrightarrow> C slot = []"
    and "rec_type r = DELETE \<Longrightarrow> IsNull (memory (store db')) slot VERSION_POINTER_COLUMN_ID"
    and "C slot = [] \<or> rec_timestamp (undo_recs (store db) (hd (C slot))) = txn_id t
        \<or> Committed (rec_timestamp (undo_recs (store db) (hd (C slot))))
          \<and> \<not> NewerThan (rec_timestamp (undo_recs (store db) (hd (C slot)))) t"
    and "contexts db u = Some d \<Longrightarrow> q \<in> set (undo_buffer d) \<Longrightarrow> \<not> aborted d \<Longrightarrow>
      rec_table (undo_recs (store db) q) \<noteq> None \<Longrightarrow> rec_type (undo_recs (store db) q) = DELETE \<Longrightarrow>
      rec_slot (undo_recs (store db) q) \<noteq> slot"
    and "\<exists>c'. contexts db' = (contexts db)(t \<mapsto> c') \<and> pushes_record (undo_next (store db)) c c' \<and> \<not> must_abort c'"
    and "tables db' = tables db" and "block_store db' = block_store db" and "ts_manager db' = ts_manager db"
    and "completed_txns db' = completed_txns db"
  using assms unfolding writes_slot_def by blast+

lemma pushesD:
  assumes "pushes st st' slot r v"
  shows "undo_next st' = undo_next st + 1" and "undo_recs st' = (undo_recs st)(undo_next st := r)"
    and "rec_next r = AtomicallyReadVersionPtr (memory st) slot" and "rec_slot r = slot"
    and "AtomicallyReadVersionPtr (memory st') slot = Some (undo_next st)" and "Allocated (memory st') slot"
    and "current_value (memory st') slot = v" and "s \<noteq> slot \<Longrightarrow> same_slot st st' s"
    and "insert_head (memory st' b) = insert_head (memory st b)" and "hot (memory st b) \<longrightarrow> hot (memory st' b)"
  using assms by (simp_all add: pushes_def)

text \<open>The parts of the invariant after a step that only adds a record at the next pointer.\<close>

lemma push_chains:
  assumes w: "writes_slot gc db C t c slot r v db'"
  shows "chains_inv db' (C(slot := undo_next (store db) # C slot))"
  unfolding chains_inv_def
proof (intro allI impI)
  let ?p = "undo_next (store db)" and ?C = "C(slot := undo_next (store db) # C slot)"
  note W = writes_slotD [OF w]
  note P = pushesD [OF W(7)]
  obtain c' where c': "contexts db' = (contexts db)(t \<mapsto> c')" "pushes_record ?p c c'" using W(15) by blast
  have own: "\<exists>u d. contexts db' u = Some d \<and> q \<in> set (undo_buffer d)"
    if ex: "\<exists>u d. contexts db u = Some d \<and> q \<in> set (undo_buffer d)" for q
  proof -
    obtain u d where u: "contexts db u = Some d" "q \<in> set (undo_buffer d)" using ex by blast
    show ?thesis
    proof (cases "u = t")
      case True
      then have "q \<in> set (undo_buffer c')" using u W(2) c'(2) by (simp add: pushes_record_def)
      then show ?thesis using c'(1) by auto
    qed (use u c'(1) in auto)
  qed
  have new: "\<exists>u d. contexts db' u = Some d \<and> ?p \<in> set (undo_buffer d)"
    using c' by (intro exI [of _ t] exI [of _ c']) (simp add: pushes_record_def)
  fix s assume "valid_slot db' s"
  then have v: "valid_slot db s" using valid_slot_cong [OF W(16)] by simp
  note S = inv_slot [OF W(1) v]
  show "slot_inv (store db') s (?C s)
    \<and> (\<forall>q \<in> set (?C s). \<exists>t c. contexts db' t = Some c \<and> q \<in> set (undo_buffer c))
    \<and> (insert_head (memory (store db') (GetBlock s)) \<le> GetOffset s \<longrightarrow>
        \<not> Allocated (memory (store db')) s \<and> IsNull (memory (store db')) s VERSION_POINTER_COLUMN_ID \<and> ?C s = [])"
  proof (cases "s = slot")
    case True
    have "slot_inv (store db') slot (?p # C slot)"
      using slot_inv_push [OF S(1) [unfolded True] W(7,9,10,11)] W(8,13) txn_id_uncommitted [OF inv_context(3) [OF W(1,2)]] by auto
    moreover have "\<not> insert_head (memory (store db') (GetBlock s)) \<le> GetOffset s" using W(6) True P(9) by simp
    ultimately show ?thesis using True S(2) own new by simp
  next
    case False
    have "q < ?p" if "q \<in> set (C s)" for q using S(1) that by (simp add: slot_inv_def)
    then have "slot_inv (store db') s (C s)"
      using P(1) by (intro slot_inv_cong [OF S(1) P(8) [OF False]]) (auto simp: P(2))
    then show ?thesis
      using False S(2,3) own P(8) [OF False] P(9) [of "GetBlock s"] by (simp add: same_slot_def)
  qed
qed

text \<open>A context that differs from another in ways that the invariant allows.\<close>

definition same_ctx :: "TransactionContext \<Rightarrow> TransactionContext \<Rightarrow> bool" where
  "same_ctx c c' \<longleftrightarrow>
     undo_buffer c' = undo_buffer c \<and> start_time c' = start_time c \<and> finish_time c' = finish_time c
     \<and> aborted c' = aborted c \<and> (must_abort c \<longrightarrow> must_abort c')"

lemma same_ctx_refl [simp]: "same_ctx c c"
  by (simp add: same_ctx_def)

lemma records_inv_frame:
  assumes "records_inv db C t c" and "same_ctx c c'"
    and "\<And>p. p \<in> set (undo_buffer c) \<Longrightarrow> undo_recs (store db') p = undo_recs (store db) p"
    and "undo_next (store db) \<le> undo_next (store db')" and "\<And>s. valid_slot db s \<Longrightarrow> valid_slot db' s"
    and "\<And>p. p \<in> set (undo_buffer c) \<Longrightarrow> finish_time c = txn_id t \<Longrightarrow> installed db C p \<Longrightarrow> installed db' C' p"
    and "\<And>p. p \<in> set (undo_buffer c) \<Longrightarrow> \<not> aborted c \<Longrightarrow> rec_table (undo_recs (store db) p) \<noteq> None \<Longrightarrow>
      rec_type (undo_recs (store db) p) = DELETE \<Longrightarrow> deletes db C p \<Longrightarrow> deletes db' C' p"
  shows "records_inv db' C' t c'"
proof -
  have eq: "undo_buffer c' = undo_buffer c" "finish_time c' = finish_time c" "aborted c' = aborted c"
    and ma: "must_abort c \<longrightarrow> must_abort c'"
    using assms(2) by (simp_all add: same_ctx_def)
  note R = assms(1) [unfolded records_inv_def]
  have "sorted_wrt (\<lambda>p q. rec_table (undo_recs (store db') p) \<noteq> None) (undo_buffer c)"
    by (rule sorted_wrt_mono_rel [OF _ conjunct1 [OF conjunct2 [OF conjunct2 [OF R]]]]) (simp add: assms(3))
  then show ?thesis
    unfolding records_inv_def eq
    using R ma assms(3-7) by (intro conjI impI ballI) (simp_all, (metis order_less_le_trans)?)
qed

lemma push_contexts:
  assumes w: "writes_slot gc db C t c slot r v db'"
  shows "contexts_inv db' (C(slot := undo_next (store db) # C slot))"
proof -
  let ?p = "undo_next (store db)" and ?C = "C(slot := undo_next (store db) # C slot)"
  note W = writes_slotD [OF w]
  note P = pushesD [OF W(7)]
  obtain c' where c': "contexts db' = (contexts db)(t \<mapsto> c')" "pushes_record ?p c c'" "\<not> must_abort c'"
    using W(15) by blast
  have new: "undo_buffer c' = undo_buffer c @ [?p]" "finish_time c' = finish_time c" "start_time c' = start_time c"
      "aborted c' = aborted c"
    using c'(2) by (simp_all add: pushes_record_def)
  have old: "undo_recs (store db') q = undo_recs (store db) q" "q < ?p" if "contexts db u = Some d" "q \<in> set (undo_buffer d)" for u d q
    using inv_record(1) [OF W(1) that] by (simp_all add: P(2))
  have "records_inv db' ?C u d" if u: "contexts db u = Some d" for u d
  proof (rule records_inv_frame [OF inv_context(2) [OF W(1) u]])
    show "same_ctx d d" "?p \<le> undo_next (store db')" "\<And>s. valid_slot db s \<Longrightarrow> valid_slot db' s"
      by (simp_all add: P(1) valid_slot_cong [OF W(16)])
    fix q assume q: "q \<in> set (undo_buffer d)"
    show "undo_recs (store db') q = undo_recs (store db) q" by (rule old(1) [OF u q])
    show "installed db C q \<Longrightarrow> installed db' ?C q"
      using old(1) [OF u q] valid_slot_cong [OF W(16)] by (auto simp: installed_def Let_def)
    assume "\<not> aborted d" "rec_table (undo_recs (store db) q) \<noteq> None" "rec_type (undo_recs (store db) q) = DELETE"
    then have "rec_slot (undo_recs (store db) q) \<noteq> slot" by (rule W(14) [OF u q])
    then show "deletes db C q \<Longrightarrow> deletes db' ?C q"
      using old(1) [OF u q] valid_slot_cong [OF W(16)] P(8) [of "rec_slot (undo_recs (store db) q)"] P(9)
      by (simp add: deletes_def Let_def same_slot_def)
  qed
  note R = this
  have "records_inv db' ?C t c'"
  proof -
    note Rt = R [OF W(2), unfolded records_inv_def] and Tt = inv_context(1) [OF W(1,2)]
    have p: "valid_slot db' (rec_slot r)" "installed db' ?C ?p" "rec_type r = DELETE \<Longrightarrow> deletes db' ?C ?p"
      using P(2,4,9) valid_slot_cong [OF W(16)] W(5,6,12) by (simp_all add: installed_def deletes_def Let_def)
    have "?p \<notin> set (undo_buffer c)" using old(2) [OF W(2)] by blast
    moreover have "\<not> aborted c" using Tt W(3) txn_id_uncommitted [OF inv_context(3) [OF W(1,2)]] by (auto simp: times_inv_def)
    ultimately show ?thesis
      unfolding records_inv_def new sorted_wrt_append set_append
      using Rt p W(3,4,8,9) P(1,2) c'(3) by (intro conjI impI ballI) auto
  qed
  moreover have "times_inv (ts_manager db) t c'"
    using inv_context(1) [OF W(1,2)] new by (simp add: times_inv_def)
  moreover have "Committed (time (ts_manager db))" "\<forall>t \<in> set (curr_running_txns (ts_manager db)). t < time (ts_manager db)"
    using inv_parts(3) [OF W(1)] by (simp_all add: contexts_inv_def)
  moreover have "set (undo_buffer d) \<inter> set (undo_buffer d') = {}"
    if "contexts db' u = Some d" "contexts db' u' = Some d'" "u \<noteq> u'" for u d u' d'
  proof -
    have "set (undo_buffer d) \<inter> set (undo_buffer d') = {}" if "contexts db u = Some d" "contexts db u' = Some d'" for d d'
      using inv_owner [OF W(1) that] \<open>u \<noteq> u'\<close> by blast
    moreover have "?p \<notin> set (undo_buffer d)" if "contexts db u = Some d" for u d using old(2) [OF that] by blast
    ultimately show ?thesis using that c'(1) new(1) W(2) by (cases "u = t"; cases "u' = t") auto
  qed
  ultimately show ?thesis
    unfolding contexts_inv_def W(18) using R c'(1) inv_context(1) [OF W(1)] by simp
qed

lemma push_inv:
  assumes w: "writes_slot gc db C t c slot r v db'"
  shows "db_inv gc db' (C(slot := undo_next (store db) # C slot))"
proof -
  let ?p = "undo_next (store db)"
  note W = writes_slotD [OF w]
  note Q = inv_parts(4) [OF W(1), unfolded queues_inv_def]
  obtain c' where c': "contexts db' = (contexts db)(t \<mapsto> c')" using W(15) by blast
  have "blocks_inv db'"
    using blocks_inv_cong [OF inv_parts(1) [OF W(1)] W(16,17)] pushesD(9,10) [OF W(7)] by blast
  moreover have "queues_inv gc db' (C(slot := ?p # C slot))"
  proof -
    have nt: "contexts db' u = contexts db u" if "u \<in> set (completed_txns db @ txns_to_unlink gc @ txns_to_deallocate gc)" for u
      using active_not_queued [OF W(1,2,3)] that c' by auto
    have "?p \<notin> set (undo_buffer (the (contexts db u)))" if u: "u \<in> set (txns_to_deallocate gc)" for u
    proof -
      have "u \<in> set (completed_txns db @ txns_to_unlink gc @ txns_to_deallocate gc)" using u by simp
      then obtain d where "contexts db u = Some d" using Q by blast
      then show ?thesis using inv_record(1) [OF W(1)] by fastforce
    qed
    then show ?thesis
      unfolding queues_inv_def W(19) using Q nt valid_slot_cong [OF W(16)] by auto
  qed
  ultimately show ?thesis using push_chains [OF w] push_contexts [OF w] by (simp add: db_inv_def)
qed

section \<open>What others see of a write\<close>

lemma active_iff: "contexts db t = Some c \<Longrightarrow> active db t \<longleftrightarrow> finish_time c = txn_id t"
  by (simp add: active_def)

lemma seen_frame:
  assumes "same_slot (store db) (store db') s" and "map (undo_recs (store db')) (C' s) = map (undo_recs (store db)) (C s)"
    and "valid_slot db' s = valid_slot db s"
  shows "seen db' C' t s = seen db C t s"
  using assms same_slot_value [OF assms(1)] by (simp add: seen_def same_slot_def)

lemma committed_frame:
  assumes "same_slot (store db) (store db') s" and "map (undo_recs (store db')) (C' s) = map (undo_recs (store db)) (C s)"
  shows "committed_row s (C' s) (store db') = committed_row s (C s) (store db)"
  using assms same_slot_value [OF assms(1)] by (simp add: committed_row_def same_slot_def)

lemma push_records:
  assumes "writes_slot gc db C t c slot r v db'" and "valid_slot db s"
  shows "map (undo_recs (store db')) (C s) = map (undo_recs (store db)) (C s)"
proof -
  note W = writes_slotD [OF assms(1)]
  have "undo_next (store db) \<notin> set (C s)" using inv_linked(1) [OF W(1) assms(2)] by blast
  then show ?thesis using pushesD(2) [OF W(7)] by auto
qed

text \<open>The written slot: its writer reads the new value, everyone else what the record restores.\<close>

lemma push_seen:
  assumes w: "writes_slot gc db C t c slot r v db'"
    and undo: "row_of True (undo_value r v) = row_of (Allocated (memory (store db)) slot) (current_value (memory (store db)) slot)"
    and old: "C slot \<noteq> [] \<longrightarrow> Allocated (memory (store db)) slot \<and> undo_value r v = current_value (memory (store db)) slot"
  defines "C' \<equiv> C(slot := undo_next (store db) # C slot)"
  shows "seen db' C' t slot = row_of True v"
    and "active db u \<Longrightarrow> u \<noteq> t \<Longrightarrow> seen db' C' u slot = seen db C u slot"
    and "committed_row slot (C' slot) (store db') = committed_row slot (C slot) (store db)"
proof -
  note W = writes_slotD [OF w]
  note P = pushesD [OF W(7)]
  let ?rs = "map (undo_recs (store db)) (C slot)"
  have val: "valid_slot db' slot" using valid_slot_cong [OF W(16)] W(5) by simp
  have rs': "map (undo_recs (store db')) (C' slot) = r # ?rs"
    using push_records [OF w W(5)] P(2) by (simp add: C'_def)
  show "seen db' C' t slot = row_of True v"
    using val P(6,7) W(8) unfolding seen_def rs' by (simp add: read_value_def)
  have unc: "\<not> Committed (txn_id t)" using txn_id_uncommitted [OF inv_context(3) [OF W(1,2)]] .
  show "committed_row slot (C' slot) (store db') = committed_row slot (C slot) (store db)"
    using undo old P(6,7) unc W(8) unfolding committed_row_def rs'
    by (cases "C slot = []") (simp_all add: committed_push committed_value_def)
  assume u: "active db u" "u \<noteq> t"
  then obtain d where d: "contexts db u = Some d" by (auto simp: active_def)
  have "Committed u" by (rule inv_context(3) [OF W(1) d])
  then have new: "NewerThan (txn_id t) u" "\<not> Committed (txn_id u)" "txn_id t \<noteq> txn_id u"
    using unc u(2) uncommitted_newer txn_id_uncommitted by (auto simp: txn_id_inj)
  moreover have "?rs = [] \<or> rec_timestamp (hd ?rs) \<noteq> txn_id u"
    using W(13) new(2,3) by (cases "C slot") auto
  ultimately have "read_value (txn_id u) u (r # ?rs) v = read_value (txn_id u) u ?rs (undo_value r v)"
    using W(8) by (intro read_push) simp_all
  then show "seen db' C' u slot = seen db C u slot"
    using undo old P(6,7) val W(5) unfolding seen_def rs'
    by (cases "C slot = []") (simp_all add: read_value_def newer_def)
qed

text \<open>The writer sees the committed tuple, or its own.\<close>

lemma writer_sees:
  assumes "db_inv gc db C" and "contexts db t = Some c" and "finish_time c = txn_id t" and "valid_slot db slot"
    and "C slot = [] \<or> rec_timestamp (undo_recs (store db) (hd (C slot))) = txn_id t
        \<or> Committed (rec_timestamp (undo_recs (store db) (hd (C slot))))
          \<and> \<not> NewerThan (rec_timestamp (undo_recs (store db) (hd (C slot)))) t"
  shows "seen db C t slot = row_of (Allocated (memory (store db)) slot) (current_value (memory (store db)) slot)"
    and "slot \<in> written db t \<or> \<not> overtaken db C t slot"
    and "active db u \<Longrightarrow> u \<noteq> t \<Longrightarrow> slot \<notin> written db u"
proof -
  let ?rs = "map (undo_recs (store db)) (C slot)" and ?v = "current_value (memory (store db)) slot"
  have ok: "chain_ok ?rs" using inv_slot(1) [OF assms(1,4)] by (simp add: slot_inv_def)
  have "read_value (txn_id t) t ?rs ?v = ?v"
    using assms(5) by (cases "C slot") (auto simp: read_value_def newer_def)
  then show s: "seen db C t slot = row_of (Allocated (memory (store db)) slot) ?v"
    using assms(4) by (simp add: seen_def)
  show "slot \<in> written db t \<or> \<not> overtaken db C t slot"
  proof (cases "C slot \<noteq> [] \<and> rec_timestamp (undo_recs (store db) (hd (C slot))) = txn_id t")
    case True
    then have h: "hd (C slot) \<in> set (C slot)" by simp
    then have "hd (C slot) \<in> set (undo_buffer c)" using inv_own_record [OF assms(1-4)] True by blast
    then have "slot \<in> written db t"
      using inv_linked(2,3) [OF assms(1,4) h] assms(2) by (auto simp: written_def touched_def image_iff)
    then show ?thesis ..
  next
    case False
    have "\<not> NewerThan (finish_time d) t" if q: "q \<in> set (C slot)" "contexts db u = Some d" "q \<in> set (undo_buffer d)" for q u d
    proof -
      have ne: "C slot \<noteq> []" using q(1) by auto
      have "rec_timestamp (undo_recs (store db) q) \<le> rec_timestamp (undo_recs (store db) (hd (C slot)))"
        using chain_ok_hd [OF ok, of "undo_recs (store db) q"] q(1) ne by (simp add: hd_map)
      then show ?thesis using False assms(5) ne inv_record(2) [OF assms(1) q(2,3)] by (auto simp: NewerThan_def)
    qed
    then show ?thesis by (auto simp: overtaken_def)
  qed
  assume u: "active db u" "u \<noteq> t"
  show "slot \<notin> written db u"
  proof
    assume "slot \<in> written db u"
    obtain d where d: "contexts db u = Some d" "finish_time d = txn_id u" using u by (auto simp: active_def)
    then obtain q where q: "q \<in> set (undo_buffer d)" "rec_table (undo_recs (store db) q) \<noteq> None"
        "rec_slot (undo_recs (store db) q) = slot"
      using \<open>slot \<in> written db u\<close> by (auto simp: written_def touched_def)
    have qC: "q \<in> set (C slot)"
      using inv_context(2) [OF assms(1) d(1)] q d(2) by (auto simp: records_inv_def installed_def Let_def)
    then have ne: "C slot \<noteq> []" by auto
    have ts: "rec_timestamp (undo_recs (store db) q) = txn_id u" using inv_record(2) [OF assms(1) d(1) q(1)] d(2) by simp
    have unc: "\<not> Committed (txn_id u)" using txn_id_uncommitted [OF inv_context(3) [OF assms(1) d(1)]] .
    then have "rec_timestamp (undo_recs (store db) (hd (C slot))) = txn_id u"
      using chain_ok_uncommitted [OF ok, of "undo_recs (store db) q"] qC ne ts by (simp add: hd_map)
    then show False using assms(5) unc u(2) ne by (auto simp: txn_id_inj)
  qed
qed

lemma touched_append: "touched h D (ps @ qs) = touched h D ps \<union> touched h D qs"
  by (auto simp: touched_def)

lemma touched_cong:
  assumes "\<And>p. p \<in> set ps \<Longrightarrow> rec_slot (h' p) = rec_slot (h p) \<and> rec_table (h' p) = rec_table (h p)"
  shows "touched h' D ps = touched h D ps"
proof -
  have "{p \<in> set ps. rec_table (h' p) \<noteq> None} = {p \<in> set ps. rec_table (h p) \<noteq> None}" using assms by auto
  moreover have "rec_slot ` h' ` X = rec_slot ` h ` X" if "X \<subseteq> set ps" for X
    unfolding image_image using that assms by (intro image_cong) auto
  ultimately show ?thesis by (simp add: touched_def)
qed

text \<open>Which slots were overtaken depends on the chains and on the contexts of finished transactions.\<close>

lemma overtaken_mono:
  assumes "overtaken db C t s" and "valid_slot db' s" and "set (C s) \<subseteq> set (C' s)"
    and "\<And>u c. contexts db u = Some c \<Longrightarrow> Committed (finish_time c) \<Longrightarrow> \<not> aborted c \<Longrightarrow>
      \<exists>c'. contexts db' u = Some c' \<and> undo_buffer c' = undo_buffer c \<and> finish_time c' = finish_time c \<and> \<not> aborted c'"
  shows "overtaken db' C' t s"
proof -
  obtain q u c where q: "q \<in> set (C s)" "contexts db u = Some c" "q \<in> set (undo_buffer c)" "\<not> aborted c"
      "Committed (finish_time c)" "NewerThan (finish_time c) t"
    using assms(1) by (auto simp: overtaken_def)
  then show ?thesis using assms(2,3) assms(4) [OF q(2,5,4)] unfolding overtaken_def by (metis subsetD)
qed

lemma overtaken_frame:
  assumes "valid_slot db' s = valid_slot db s" and "valid_slot db s \<Longrightarrow> C' s = C s"
    and "\<And>u. rel_option same_ctx (contexts db u) (contexts db' u)"
  shows "overtaken db' C' t s = overtaken db C t s"
proof (cases "valid_slot db s")
  case True
  have fwd: "\<exists>d'. contexts db' u = Some d' \<and> undo_buffer d' = undo_buffer d \<and> finish_time d' = finish_time d \<and> aborted d' = aborted d"
    if "contexts db u = Some d" for u d using assms(3) [of u] that by (auto simp: same_ctx_def elim: option.rel_cases)
  have bwd: "\<exists>d. contexts db u = Some d \<and> undo_buffer d = undo_buffer d' \<and> finish_time d = finish_time d' \<and> aborted d = aborted d'"
    if "contexts db' u = Some d'" for u d' using assms(3) [of u] that by (auto simp: same_ctx_def elim: option.rel_cases)
  show ?thesis
    using True assms(1,2) overtaken_mono [of db C t s db' C'] overtaken_mono [of db' C' t s db C] fwd bwd by fastforce
qed (simp add: overtaken_def assms(1))

lemma push_overtaken:
  assumes w: "writes_slot gc db C t c slot r v db'"
  shows "overtaken db' (C(slot := undo_next (store db) # C slot)) u s = overtaken db C u s"
proof -
  let ?p = "undo_next (store db)" and ?C = "C(slot := undo_next (store db) # C slot)"
  note W = writes_slotD [OF w]
  obtain c' where c': "contexts db' = (contexts db)(t \<mapsto> c')" "finish_time c' = txn_id t"
    using W(3,15) by (auto simp: pushes_record_def)
  have unc: "\<not> Committed (txn_id t)" using txn_id_uncommitted [OF inv_context(3) [OF W(1,2)]] .
  have vs: "valid_slot db' s = valid_slot db s" by (rule valid_slot_cong [OF W(16)])
  have same: "contexts db' x = Some d \<longleftrightarrow> contexts db x = Some d" if "Committed (finish_time d)" for x d
    using that unc c' W(2,3) by auto
  have "?p \<notin> set (undo_buffer d)" if "contexts db x = Some d" for x d using inv_record(1) [OF W(1) that] by blast
  then show ?thesis unfolding overtaken_def vs using same by (auto split: if_splits) metis+
qed

lemma push_abs:
  assumes w: "writes_slot gc db C t c slot r v db'"
    and undo: "row_of True (undo_value r v) = row_of (Allocated (memory (store db)) slot) (current_value (memory (store db)) slot)"
    and old: "C slot \<noteq> [] \<longrightarrow> Allocated (memory (store db)) slot \<and> undo_value r v = current_value (memory (store db)) slot"
  defines "C' \<equiv> C(slot := undo_next (store db) # C slot)"
  shows "si_abs db' C' = si_write t slot (row_of True v) (si_abs db C)" and "si_may_write (si_abs db C) t slot"
    and "si_view (si_abs db C) t = Some (seen db C t)"
    and "seen db C t slot = row_of (Allocated (memory (store db)) slot) (current_value (memory (store db)) slot)"
proof -
  note W = writes_slotD [OF w]
  note P = pushesD [OF W(7)]
  note S = push_seen [OF w undo old, folded C'_def]
  note V = writer_sees [OF W(1-3,5,13)]
  obtain c' where c': "contexts db' = (contexts db)(t \<mapsto> c')" "pushes_record (undo_next (store db)) c c'" using W(15) by blast
  have act: "active db' u = active db u" "active db t" for u
    using c' W(2,3) by (auto simp: active_def pushes_record_def)
  have vs: "valid_slot db' s = valid_slot db s" for s by (rule valid_slot_cong [OF W(16)])
  have other: "seen db' C' u s = seen db C u s" "valid_slot db s \<Longrightarrow> committed_row s (C' s) (store db') = committed_row s (C s) (store db)"
    if "s \<noteq> slot" for u s
  proof -
    show "seen db' C' u s = seen db C u s"
    proof (cases "valid_slot db s")
      case True
      then show ?thesis
        using seen_frame [OF P(8) [OF that] _ vs, of C' C u] push_records [OF w True] that by (simp add: C'_def)
    qed (simp add: seen_def vs)
    show "committed_row s (C' s) (store db') = committed_row s (C s) (store db)" if "valid_slot db s"
      using committed_frame [OF P(8) [OF \<open>s \<noteq> slot\<close>], of C' C] push_records [OF w that] \<open>s \<noteq> slot\<close> by (simp add: C'_def)
  qed
  have kept: "undo_recs (store db') q = undo_recs (store db) q" if "contexts db u = Some d" "q \<in> set (undo_buffer d)" for u d q
    using inv_record(1) [OF W(1) that] by (simp add: P(2))
  have wr: "written db' u = (if u = t then insert slot (written db t) else written db u)" if a: "active db u" for u
  proof (cases "u = t")
    case True
    have b: "undo_buffer c' = undo_buffer c @ [undo_next (store db)]" using c'(2) by (simp add: pushes_record_def)
    have "written db' t = touched (undo_recs (store db')) [] (undo_buffer c) \<union> touched (undo_recs (store db')) [] [undo_next (store db)]"
      by (simp add: written_def c'(1) b touched_append)
    also have "touched (undo_recs (store db')) [] (undo_buffer c) = written db t"
      using touched_cong [of "undo_buffer c" "undo_recs (store db')" "undo_recs (store db)"] kept [OF W(2)] W(2)
      by (simp add: written_def)
    also have "touched (undo_recs (store db')) [] [undo_next (store db)] = {slot}"
      using P(2,4) W(9) by (auto simp: touched_def)
    finally show ?thesis using True by simp
  next
    case False
    obtain d where d: "contexts db u = Some d" using a by (auto simp: active_def)
    then show ?thesis
      using touched_cong [of "undo_buffer d" "undo_recs (store db')" "undo_recs (store db)"] kept [OF d] False c'(1)
      by (simp add: written_def)
  qed
  have "si_view (si_abs db' C') u = si_view (si_write t slot (row_of True v) (si_abs db C)) u" for u
  proof (cases "active db u")
    case True
    have "seen db' C' u = (if u = t then (seen db C t)(slot := row_of True v) else seen db C u)"
    proof
      fix s show "seen db' C' u s = (if u = t then (seen db C t)(slot := row_of True v) else seen db C u) s"
        using S(1) S(2) [OF True] other(1) by (cases "s = slot") auto
    qed
    then show ?thesis using act True by (simp add: si_abs_def si_write_def)
  qed (use act in \<open>auto simp: si_abs_def si_write_def\<close>)
  moreover have "si_committed (si_abs db' C') s = si_committed (si_write t slot (row_of True v) (si_abs db C)) s" for s
    using S(3) other(2) vs by (cases "s = slot") (simp_all add: si_abs_def si_write_def)
  moreover have "si_written (si_abs db' C') u = si_written (si_write t slot (row_of True v) (si_abs db C)) u" for u
    using wr act by (simp add: si_abs_def si_write_def)
  moreover have "si_stale (si_abs db' C') u = si_stale (si_write t slot (row_of True v) (si_abs db C)) u" for u
  proof -
    have "overtaken db' C' = overtaken db C" unfolding C'_def by (intro ext) (rule push_overtaken [OF w])
    then show ?thesis using act by (simp add: si_abs_def si_write_def)
  qed
  ultimately show "si_abs db' C' = si_write t slot (row_of True v) (si_abs db C)"
    by (simp add: fun_eq_iff)
  show "si_may_write (si_abs db C) t slot"
    using V(2,3) act(2) W(5) by (simp add: si_may_write_def si_abs_def)
  show "si_view (si_abs db C) t = Some (seen db C t)" using act(2) by (simp add: si_abs_def)
  show "seen db C t slot = row_of (Allocated (memory (store db)) slot) (current_value (memory (store db)) slot)" by (rule V(1))
qed

section \<open>Update, delete and insert\<close>

lemma slot_pointer:
  assumes "db_inv gc db C" and "valid_slot db s"
  shows "AtomicallyReadVersionPtr (memory (store db)) s = (if C s = [] then None else Some (hd (C s)))"
    and "AtomicallyReadVersionPtr (memory (store db)) s \<noteq> Some (undo_next (store db))"
proof -
  have "slot_chain (store db) s (C s)" using inv_slot(1) [OF assms] by (simp add: slot_inv_def)
  then show p: "AtomicallyReadVersionPtr (memory (store db)) s = (if C s = [] then None else Some (hd (C s)))"
    by (cases "C s") (simp_all add: slot_chain_def)
  show "AtomicallyReadVersionPtr (memory (store db)) s \<noteq> Some (undo_next (store db))"
    using inv_linked(1) [OF assms, of "hd (C s)"] unfolding p by (cases "C s") auto
qed

lemma no_conflict:
  assumes "db_inv gc db C" and "contexts db t = Some c" and "finish_time c = txn_id t" and "valid_slot db s"
    and "\<not> HasConflict (undo_recs (store db)) c (AtomicallyReadVersionPtr (memory (store db)) s)"
  shows "C s = [] \<or> rec_timestamp (undo_recs (store db) (hd (C s))) = txn_id t
        \<or> Committed (rec_timestamp (undo_recs (store db) (hd (C s))))
          \<and> \<not> NewerThan (rec_timestamp (undo_recs (store db) (hd (C s)))) t"
  using assms(5) slot_pointer(1) [OF assms(1,4)] assms(3) inv_context(1) [OF assms(1,2)]
  by (auto simp: HasConflict_def Let_def FinishTime_def StartTime_def times_inv_def split: if_splits)

lemma visible_slot:
  assumes "db_inv gc db C" and "valid_slot db s" and "Visible (memory (store db)) s"
  shows "GetOffset s < insert_head (memory (store db) (GetBlock s))" and "Allocated (memory (store db)) s"
    and "contexts db u = Some d \<Longrightarrow> q \<in> set (undo_buffer d) \<Longrightarrow> \<not> aborted d \<Longrightarrow>
      rec_table (undo_recs (store db) q) \<noteq> None \<Longrightarrow> rec_type (undo_recs (store db) q) = DELETE \<Longrightarrow>
      rec_slot (undo_recs (store db) q) \<noteq> s"
proof -
  show al: "Allocated (memory (store db)) s" using assms(3) by (simp add: Visible_def Let_def)
  then show "GetOffset s < insert_head (memory (store db) (GetBlock s))"
    using inv_slot(3) [OF assms(1,2)] by (meson not_le)
  assume "contexts db u = Some d" "q \<in> set (undo_buffer d)" "\<not> aborted d"
      "rec_table (undo_recs (store db) q) \<noteq> None" "rec_type (undo_recs (store db) q) = DELETE"
  then have "deletes db C q" using inv_context(2) [OF assms(1)] by (simp add: records_inv_def)
  then show "rec_slot (undo_recs (store db) q) \<noteq> s"
    using assms(3) by (auto simp: deletes_def Let_def Visible_def)
qed

text \<open>A transaction that may write: running, and not marked to abort.\<close>

definition may_write :: "database \<Rightarrow> timestamp \<Rightarrow> TransactionContext \<Rightarrow> bool" where
  "may_write db t c \<longleftrightarrow> contexts db t = Some c \<and> finish_time c = txn_id t \<and> \<not> must_abort c"

definition good_row :: "ProjectedRow \<Rightarrow> bool" where
  "good_row row \<longleftrightarrow> sorted_row row \<and> VERSION_POINTER_COLUMN_ID \<notin> set (col_ids row)"

lemma Update_step:
  assumes inv: "db_inv gc db C" and mw: "may_write db t c" and v: "valid_slot db slot" and row: "good_row delta"
    and up: "SqlTable_Update i t slot delta db = Some (True, db')"
  shows "\<exists>C'. db_inv gc db' C' \<and> si_step (si_abs db C) (Updated t slot delta) (si_abs db' C')"
proof -
  have M: "contexts db t = Some c" "finish_time c = txn_id t" "\<not> must_abort c" using mw by (simp_all add: may_write_def)
  obtain c' st' where u: "Update (tables db i) slot delta c (store db) = Some (True, c', st')"
      and db': "db' = db\<lparr>contexts := (contexts db)(t \<mapsto> c'), store := st'\<rparr>"
    using up M(1) by (auto simp: SqlTable_Update_def Let_def split: option.splits prod.splits)
  obtain r where r: "pushes (store db) st' slot r (True, overwrite (attrs (memory (store db)) slot) delta)"
      "rec_type r = UPDATE" "rec_timestamp r = finish_time c" "rec_table r = Some (table_id (tables db i))"
      "sorted_row (rec_delta r)" "VERSION_POINTER_COLUMN_ID \<notin> set (col_ids (rec_delta r))"
      "undo_value r (True, overwrite (attrs (memory (store db)) slot) delta) = current_value (memory (store db)) slot"
      "c' = push_undo (undo_next (store db)) c"
      "\<not> HasConflict (undo_recs (store db)) c (AtomicallyReadVersionPtr (memory (store db)) slot)"
      "Visible (memory (store db)) slot"
    using Update_success [OF u] row slot_pointer(2) [OF inv v] unfolding good_row_def by blast
  note V = visible_slot [OF inv v r(10)]
  let ?v = "(True, overwrite (attrs (memory (store db)) slot) delta)"
  have w: "writes_slot gc db C t c slot r ?v db'"
    unfolding writes_slot_def
    using inv M v V(1) r no_conflict [OF inv M(1,2) v r(9)] V(3)
    by (auto simp: db' update_ok_def pushes_record_def)
  have al: "Allocated (memory (store db)) slot" by (rule V(2))
  have undo: "row_of True (undo_value r ?v) = row_of (Allocated (memory (store db)) slot) (current_value (memory (store db)) slot)"
    by (simp add: r(7) al)
  have re: "C slot \<noteq> [] \<longrightarrow> Allocated (memory (store db)) slot \<and> undo_value r ?v = current_value (memory (store db)) slot"
    using al by (simp add: r(7))
  note A = push_abs [OF w undo re]
  have "current_value (memory (store db)) slot = (True, attrs (memory (store db)) slot)"
    using r(10) by (simp add: current_value_def)
  then have "seen db C t slot = Some (attrs (memory (store db)) slot)"
    using A(4) al by (simp add: row_of_def)
  then have "si_step (si_abs db C) (Updated t slot delta)
      (si_write t slot (Some (overwrite (attrs (memory (store db)) slot) delta)) (si_abs db C))"
    using si_update [OF A(3) _ A(2)] by blast
  then show ?thesis
    using push_inv [OF w] A(1) by (auto simp: row_of_def)
qed

lemma Delete_step:
  assumes inv: "db_inv gc db C" and mw: "may_write db t c" and v: "valid_slot db slot"
    and up: "SqlTable_Delete i t slot db = Some (True, db')"
  shows "\<exists>C'. db_inv gc db' C' \<and> si_step (si_abs db C) (Deleted t slot) (si_abs db' C')"
proof -
  have M: "contexts db t = Some c" "finish_time c = txn_id t" "\<not> must_abort c" using mw by (simp_all add: may_write_def)
  obtain c' st' where u: "Delete (tables db i) slot c (store db) = Some (True, c', st')"
      and db': "db' = db\<lparr>contexts := (contexts db)(t \<mapsto> c'), store := st'\<rparr>"
    using up M(1) by (auto simp: SqlTable_Delete_def Let_def split: option.splits prod.splits)
  obtain r where r: "pushes (store db) st' slot r (False, attrs (memory (store db)) slot)"
      "rec_type r = DELETE" "rec_timestamp r = finish_time c" "rec_table r = Some (table_id (tables db i))"
      "undo_value r (False, attrs (memory (store db)) slot) = current_value (memory (store db)) slot"
      "c' = push_undo (undo_next (store db)) c"
      "\<not> HasConflict (undo_recs (store db)) c (AtomicallyReadVersionPtr (memory (store db)) slot)"
      "Visible (memory (store db)) slot" "IsNull (memory st') slot VERSION_POINTER_COLUMN_ID"
    using Delete_success [OF u] slot_pointer(2) [OF inv v] by blast
  note V = visible_slot [OF inv v r(8)]
  let ?v = "(False, attrs (memory (store db)) slot)"
  have w: "writes_slot gc db C t c slot r ?v db'"
    unfolding writes_slot_def
    using inv M v V(1) r no_conflict [OF inv M(1,2) v r(7)] V(3)
    by (auto simp: db' update_ok_def pushes_record_def)
  have al: "Allocated (memory (store db)) slot" by (rule V(2))
  have undo: "row_of True (undo_value r ?v) = row_of (Allocated (memory (store db)) slot) (current_value (memory (store db)) slot)"
    by (simp add: r(5) al)
  have re: "C slot \<noteq> [] \<longrightarrow> Allocated (memory (store db)) slot \<and> undo_value r ?v = current_value (memory (store db)) slot"
    using al by (simp add: r(5))
  note A = push_abs [OF w undo re]
  have "current_value (memory (store db)) slot = (True, attrs (memory (store db)) slot)"
    using r(8) by (simp add: current_value_def)
  then have "seen db C t slot = Some (attrs (memory (store db)) slot)"
    using A(4) al by (simp add: row_of_def)
  then have "si_step (si_abs db C) (Deleted t slot) (si_write t slot None (si_abs db C))"
    using si_delete [OF A(3) _ A(2)] by blast
  then show ?thesis
    using push_inv [OF w] A(1) by (auto simp: row_of_def)
qed

section \<open>Steps that change no linked record\<close>

text \<open>Storage that only gains undo records.\<close>

definition extends :: "storage \<Rightarrow> storage \<Rightarrow> bool" where
  "extends st st' \<longleftrightarrow>
     undo_next st \<le> undo_next st' \<and> (\<forall>p < undo_next st. undo_recs st' p = undo_recs st p)
     \<and> (\<forall>s. same_slot st st' s) \<and> (\<forall>b. insert_head (memory st' b) = insert_head (memory st b))
     \<and> (\<forall>b. hot (memory st b) \<longrightarrow> hot (memory st' b))"

lemma extends_refl: "extends st st"
  by (simp add: extends_def same_slot_def)

lemma chains_frame:
  assumes inv: "db_inv gc db C" and ex: "extends (store db) (store db')" and tb: "tables db' = tables db"
    and own: "\<And>u d. contexts db u = Some d \<Longrightarrow> \<exists>d'. contexts db' u = Some d' \<and> set (undo_buffer d) \<subseteq> set (undo_buffer d')"
  shows "chains_inv db' C"
  unfolding chains_inv_def
proof (intro allI impI)
  fix s assume "valid_slot db' s"
  then have v: "valid_slot db s" using valid_slot_cong [OF tb] by simp
  note S = inv_slot [OF inv v]
  have E: "same_slot (store db) (store db') s" "insert_head (memory (store db') (GetBlock s)) = insert_head (memory (store db) (GetBlock s))"
    "undo_next (store db) \<le> undo_next (store db')"
    using ex by (simp_all add: extends_def)
  have "slot_inv (store db') s (C s)"
    using inv_linked(1) [OF inv v] ex by (intro slot_inv_cong [OF S(1) E(1) _ E(3)]) (simp add: extends_def)
  moreover have "\<exists>t c. contexts db' t = Some c \<and> q \<in> set (undo_buffer c)" if "q \<in> set (C s)" for q
    using S(2) [OF that] own by (meson subsetD)
  ultimately show "slot_inv (store db') s (C s) \<and> (\<forall>q \<in> set (C s). \<exists>t c. contexts db' t = Some c \<and> q \<in> set (undo_buffer c))
    \<and> (insert_head (memory (store db') (GetBlock s)) \<le> GetOffset s \<longrightarrow>
        \<not> Allocated (memory (store db')) s \<and> IsNull (memory (store db')) s VERSION_POINTER_COLUMN_ID \<and> C s = [])"
    using S(3) E by (simp add: same_slot_def)
qed

lemma records_frame:
  assumes inv: "db_inv gc db C" and ex: "extends (store db) (store db')" and tb: "tables db' = tables db"
    and c: "contexts db t = Some c" "same_ctx c c'"
  shows "records_inv db' C t c'"
proof (rule records_inv_frame [OF inv_context(2) [OF inv c(1)] c(2)])
  show "undo_next (store db) \<le> undo_next (store db')" "\<And>s. valid_slot db s \<Longrightarrow> valid_slot db' s"
    using ex by (simp_all add: extends_def valid_slot_cong [OF tb])
  fix p assume p: "p \<in> set (undo_buffer c)"
  show eq: "undo_recs (store db') p = undo_recs (store db) p"
    using ex inv_record(1) [OF inv c(1) p] by (simp add: extends_def)
  show "installed db C p \<Longrightarrow> installed db' C p" by (simp add: installed_def eq valid_slot_cong [OF tb])
  show "deletes db C p \<Longrightarrow> deletes db' C p"
    using ex by (simp add: deletes_def eq valid_slot_cong [OF tb] extends_def same_slot_def)
qed

lemma seen_extends:
  assumes inv: "db_inv gc db C" and ex: "extends (store db) (store db')" and tb: "tables db' = tables db"
  shows "seen db' C t s = seen db C t s"
    and "valid_slot db s \<Longrightarrow> committed_row s (C s) (store db') = committed_row s (C s) (store db)"
proof -
  have same: "same_slot (store db) (store db') s" using ex by (simp add: extends_def)
  have m: "map (undo_recs (store db')) (C s) = map (undo_recs (store db)) (C s)" if "valid_slot db s"
    using inv_linked(1) [OF inv that] ex by (simp add: extends_def)
  show "seen db' C t s = seen db C t s"
  proof (cases "valid_slot db s")
    case True
    show ?thesis by (rule seen_frame [of db db' s C C, OF same m [OF True] valid_slot_cong [OF tb]])
  qed (simp add: seen_def valid_slot_cong [OF tb])
  show "valid_slot db s \<Longrightarrow> committed_row s (C s) (store db') = committed_row s (C s) (store db)"
    using committed_frame [of db db' s C C, OF same m] .
qed

lemma blocks_extends:
  "blocks_inv db \<Longrightarrow> extends (store db) (store db') \<Longrightarrow> tables db' = tables db \<Longrightarrow> block_store db' = block_store db \<Longrightarrow>
   blocks_inv db'"
  using blocks_inv_cong [of db db'] by (simp add: extends_def)

text \<open>A write that fails: its record is never linked, and the transaction must abort.\<close>

lemma leave_inv:
  assumes inv: "db_inv gc db C" and mw: "may_write db t c" and lv: "leaves (store db) (store db') r"
    and ts: "rec_timestamp r = txn_id t"
    and c': "contexts db' = (contexts db)(t \<mapsto> c')" "pushes_record (undo_next (store db)) c c'" "must_abort c'"
    and same: "tables db' = tables db" "block_store db' = block_store db" "ts_manager db' = ts_manager db"
      "completed_txns db' = completed_txns db"
  shows "db_inv gc db' C" and "si_abs db' C = si_abs db C"
proof -
  let ?p = "undo_next (store db)"
  have M: "contexts db t = Some c" "finish_time c = txn_id t" "\<not> must_abort c" using mw by (simp_all add: may_write_def)
  have L: "undo_recs (store db') = (undo_recs (store db))(?p := r)" "undo_next (store db') = ?p + 1" "rec_table r = None"
    using lv by (simp_all add: leaves_def)
  have ex: "extends (store db) (store db')" using lv by (simp add: leaves_def extends_def)
  have new: "undo_buffer c' = undo_buffer c @ [?p]" "finish_time c' = finish_time c" "start_time c' = start_time c"
      "aborted c' = aborted c"
    using c'(2) by (simp_all add: pushes_record_def)
  have R: "records_inv db' C u d" if "contexts db u = Some d" for u d
    using records_frame [OF inv ex same(1) that] by simp
  have notp: "?p \<notin> set (undo_buffer d)" if "contexts db u = Some d" for u d
    using inv_record(1) [OF inv that] by blast
  have nab: "\<not> aborted c" using inv_context(1) [OF inv M(1)] M(2) txn_id_uncommitted [OF inv_context(3) [OF inv M(1)]]
    by (auto simp: times_inv_def)
  have "records_inv db' C t c'"
    unfolding records_inv_def new sorted_wrt_append set_append
    using R [OF M(1), unfolded records_inv_def] notp [OF M(1)] nab M L ts c'(3) by (intro conjI impI ballI) auto
  moreover have "times_inv (ts_manager db) t c'" using inv_context(1) [OF inv M(1)] new by (simp add: times_inv_def)
  moreover have "set (undo_buffer d) \<inter> set (undo_buffer d') = {}"
    if "contexts db' u = Some d" "contexts db' u' = Some d'" "u \<noteq> u'" for u d u' d'
  proof -
    have "set (undo_buffer d) \<inter> set (undo_buffer d') = {}" if "contexts db u = Some d" "contexts db u' = Some d'" for d d'
      using inv_owner [OF inv that] \<open>u \<noteq> u'\<close> by blast
    then show ?thesis using that c'(1) new(1) M(1) notp by (cases "u = t"; cases "u' = t") auto
  qed
  ultimately have cx: "contexts_inv db' C"
    unfolding contexts_inv_def same using R c'(1) inv_context(1) [OF inv] inv_parts(3) [OF inv] by (simp add: contexts_inv_def)
  have "contexts db' u = contexts db u" if "u \<in> set (completed_txns db @ txns_to_unlink gc @ txns_to_deallocate gc)" for u
    using active_not_queued [OF inv M(1,2)] that c'(1) by auto
  then have "queues_inv gc db' C"
    unfolding queues_inv_def same using inv_parts(4) [OF inv, unfolded queues_inv_def] valid_slot_cong [OF same(1)] by auto
  moreover have "chains_inv db' C"
    by (rule chains_frame [OF inv ex same(1)]) (use c'(1) new(1) M(1) in auto)
  ultimately show "db_inv gc db' C"
    using cx blocks_extends [OF inv_parts(1) [OF inv] ex same(1,2)] by (simp add: db_inv_def)
  have act: "active db' u = active db u" for u using c'(1) new(2) M by (auto simp: active_def)
  have "written db' u = written db u" if a: "active db u" for u
  proof -
    obtain d where d: "contexts db u = Some d" using a by (auto simp: active_def)
    have "touched (undo_recs (store db')) [] (undo_buffer d) = touched (undo_recs (store db)) [] (undo_buffer d)"
      by (rule touched_cong) (use L(1) notp [OF d] in auto)
    then have "touched (undo_recs (store db')) [] (undo_buffer d) = written db u" by (simp add: written_def d)
    moreover have "touched (undo_recs (store db')) [] [?p] = {}" using L by (auto simp: touched_def)
    ultimately show ?thesis using d M(1) c'(1) new(1) by (cases "u = t") (simp_all add: written_def touched_append)
  qed
  moreover have "overtaken db' C u s = overtaken db C u s" for u s
  proof -
    have ctx: "contexts db' x = Some d \<longleftrightarrow> contexts db x = Some d" if "Committed (finish_time d)" for x d
      using that c'(1) new(2) M txn_id_uncommitted [OF inv_context(3) [OF inv M(1)]] by auto
    show ?thesis unfolding overtaken_def using valid_slot_cong [OF same(1)] ctx by auto metis+
  qed
  ultimately show "si_abs db' C = si_abs db C"
    using seen_extends [OF inv ex same(1)] act valid_slot_cong [OF same(1)]
    by (auto simp: si_abs_def fun_eq_iff)
qed

lemma same_ctx_frame:
  assumes inv: "db_inv gc db C"
    and st: "store db' = store db" "tables db' = tables db" "block_store db' = block_store db"
      "completed_txns db' = completed_txns db"
    and cx: "\<And>u. rel_option same_ctx (contexts db u) (contexts db' u)"
    and tm: "time (ts_manager db) \<le> time (ts_manager db')" "Committed (time (ts_manager db'))"
      "\<And>u. active db u \<Longrightarrow> u \<in> set (curr_running_txns (ts_manager db'))"
      "\<forall>u \<in> set (curr_running_txns (ts_manager db')). u < time (ts_manager db')"
  shows "db_inv gc db' C" and "si_abs db' C = si_abs db C"
proof -
  have ex: "extends (store db) (store db')" by (simp add: st(1) extends_refl)
  have fwd: "\<exists>d'. contexts db' u = Some d' \<and> same_ctx d d'" if "contexts db u = Some d" for u d
    using cx [of u] that by (auto elim: option.rel_cases)
  have bwd: "\<exists>d. contexts db u = Some d \<and> same_ctx d d'" if "contexts db' u = Some d'" for u d'
    using cx [of u] that by (auto elim: option.rel_cases)
  have "times_inv (ts_manager db') u d' \<and> records_inv db' C u d'" if u: "contexts db' u = Some d'" for u d'
  proof -
    obtain d where d: "contexts db u = Some d" "same_ctx d d'" using bwd [OF u] by blast
    have "u < time (ts_manager db')" "finish_time d < time (ts_manager db) \<Longrightarrow> finish_time d < time (ts_manager db')"
      using inv_context(1) [OF inv d(1)] tm(1) by (auto simp: times_inv_def)
    then have "times_inv (ts_manager db') u d'"
      using inv_context(1) [OF inv d(1)] d tm(3) [of u] by (auto simp: times_inv_def same_ctx_def active_def)
    then show ?thesis using records_frame [OF inv ex st(2) d] by simp
  qed
  moreover have "set (undo_buffer d) \<inter> set (undo_buffer e) = {}"
    if u: "contexts db' u = Some d" "contexts db' v = Some e" "u \<noteq> v" for u v d e
  proof -
    obtain d0 e0 where "contexts db u = Some d0" "same_ctx d0 d" "contexts db v = Some e0" "same_ctx e0 e"
      using bwd [OF u(1)] bwd [OF u(2)] by blast
    then show ?thesis using inv_owner [OF inv, of u d0 v e0] u(3) by (auto simp: same_ctx_def)
  qed
  ultimately have "contexts_inv db' C" unfolding contexts_inv_def using tm(2,4) by blast
  moreover have "chains_inv db' C"
    by (rule chains_frame [OF inv ex st(2)]) (use fwd in \<open>fastforce simp: same_ctx_def\<close>)
  moreover have "queues_inv gc db' C"
  proof -
    note Q = inv_parts(4) [OF inv, unfolded queues_inv_def]
    have q: "\<exists>d d'. contexts db u = Some d \<and> contexts db' u = Some d' \<and> same_ctx d d' \<and> Committed (finish_time d)"
      if u: "u \<in> set (completed_txns db @ txns_to_unlink gc @ txns_to_deallocate gc)" for u
    proof -
      obtain d where "contexts db u = Some d" "Committed (finish_time d)" using Q u by blast
      then show ?thesis using fwd by blast
    qed
    have "undo_buffer (the (contexts db' u)) = undo_buffer (the (contexts db u))" if "u \<in> set (txns_to_deallocate gc)" for u
      using q [of u] that by (auto simp: same_ctx_def)
    moreover have "\<exists>d. contexts db' u = Some d \<and> Committed (finish_time d)"
      if "u \<in> set (completed_txns db @ txns_to_unlink gc @ txns_to_deallocate gc)" for u
      using q [OF that] by (auto simp: same_ctx_def)
    ultimately show ?thesis
      unfolding queues_inv_def st(4) using Q valid_slot_cong [OF st(2)] by simp
  qed
  ultimately show "db_inv gc db' C"
    using blocks_extends [OF inv_parts(1) [OF inv] ex st(2,3)] by (simp add: db_inv_def)
  have act: "active db' u = active db u" for u
    using fwd bwd by (fastforce simp: active_def same_ctx_def)
  moreover have "written db' u = written db u" if "active db u" for u
    using that fwd by (fastforce simp: written_def active_def same_ctx_def st(1))
  moreover have "overtaken db' C u s = overtaken db C u s" for u s
    by (rule overtaken_frame) (simp_all add: valid_slot_cong [OF st(2)] cx)
  ultimately show "si_abs db' C = si_abs db C"
    using seen_extends [OF inv ex st(2)] valid_slot_cong [OF st(2)] by (auto simp: si_abs_def fun_eq_iff)
qed

lemma Update_failed:
  assumes inv: "db_inv gc db C" and mw: "may_write db t c" and v: "valid_slot db slot"
    and up: "SqlTable_Update i t slot delta db = Some (False, db')"
  shows "db_inv gc db' C \<and> si_step (si_abs db C) Internal (si_abs db' C)"
proof -
  have M: "contexts db t = Some c" "finish_time c = txn_id t" using mw by (simp_all add: may_write_def)
  obtain c' st' where u: "Update (tables db i) slot delta c (store db) = Some (False, c', st')"
      and db': "db' = db\<lparr>contexts := (contexts db)(t \<mapsto> SetMustAbort c'), store := st'\<rparr>"
    using up M(1) by (auto simp: SqlTable_Update_def Let_def split: option.splits prod.splits)
  obtain r where r: "leaves (store db) st' r" "rec_timestamp r = finish_time c" "c' = push_undo (undo_next (store db)) c"
    using Update_failure [OF u slot_pointer(2) [OF inv v]] by blast
  have l: "leaves (store db) (store db') r" "rec_timestamp r = txn_id t" using r M(2) by (simp_all add: db')
  have p: "pushes_record (undo_next (store db)) c (SetMustAbort c')" "must_abort (SetMustAbort c')"
    by (simp_all add: r(3) pushes_record_def SetMustAbort_def)
  note L = leave_inv [OF inv mw l _ p]
  show ?thesis using L(1) L(2) si_internal by (simp add: db')
qed

lemma Delete_failed:
  assumes inv: "db_inv gc db C" and mw: "may_write db t c" and v: "valid_slot db slot"
    and up: "SqlTable_Delete i t slot db = Some (False, db')"
  shows "db_inv gc db' C \<and> si_step (si_abs db C) Internal (si_abs db' C)"
proof -
  have M: "contexts db t = Some c" "finish_time c = txn_id t" using mw by (simp_all add: may_write_def)
  obtain c' st' where u: "Delete (tables db i) slot c (store db) = Some (False, c', st')"
      and db': "db' = db\<lparr>contexts := (contexts db)(t \<mapsto> SetMustAbort c'), store := st'\<rparr>"
    using up M(1) by (auto simp: SqlTable_Delete_def Let_def split: option.splits prod.splits)
  obtain r where r: "leaves (store db) st' r" "rec_timestamp r = finish_time c" "c' = push_undo (undo_next (store db)) c"
    using Delete_failure [OF u slot_pointer(2) [OF inv v]] by blast
  have l: "leaves (store db) (store db') r" "rec_timestamp r = txn_id t" using r M(2) by (simp_all add: db')
  have p: "pushes_record (undo_next (store db)) c (SetMustAbort c')" "must_abort (SetMustAbort c')"
    by (simp_all add: r(3) pushes_record_def SetMustAbort_def)
  note L = leave_inv [OF inv mw l _ p]
  show ?thesis using L(1) L(2) si_internal by (simp add: db')
qed

section \<open>Begin\<close>

text \<open>Timestamps of linked records: committed ones are in the past, others name a running transaction.\<close>

lemma linked_times:
  assumes inv: "db_inv gc db C" and v: "valid_slot db s" and q: "q \<in> set (C s)"
  defines "ts \<equiv> rec_timestamp (undo_recs (store db) q)"
  shows "Committed ts \<and> ts < time (ts_manager db) \<or> (\<exists>t. active db t \<and> ts = txn_id t \<and> t < time (ts_manager db) \<and> \<not> Committed ts)"
proof -
  obtain t c where c: "contexts db t = Some c" "q \<in> set (undo_buffer c)" using inv_slot(2) [OF inv v q] by blast
  then have "ts = finish_time c" using inv_record(2) [OF inv c] by (simp add: ts_def)
  then show ?thesis
    using inv_context(1) [OF inv c(1)] c(1) txn_id_uncommitted [OF inv_context(3) [OF inv c(1)]]
    by (auto simp: times_inv_def active_def)
qed

lemma begin_reads_committed:
  assumes inv: "db_inv gc db C" and v: "valid_slot db s"
  defines "now \<equiv> time (ts_manager db)"
  shows "read_value (txn_id now) now (map (undo_recs (store db)) (C s)) val = committed_value (map (undo_recs (store db)) (C s)) val"
proof -
  let ?rs = "map (undo_recs (store db)) (C s)"
  have com: "Committed now" using inv_parts(3) [OF inv] by (simp add: contexts_inv_def now_def)
  have r: "(NewerThan (rec_timestamp r) now \<longleftrightarrow> \<not> Committed (rec_timestamp r)) \<and> rec_timestamp r \<noteq> txn_id now"
    if rr: "r \<in> set ?rs" for r
  proof -
    obtain q where q: "q \<in> set (C s)" "r = undo_recs (store db) q" using rr by auto
    from linked_times [OF inv v q(1)] show ?thesis
      using com uncommitted_newer [OF _ com] txn_id_uncommitted [OF com] unfolding q(2)
      by (auto simp: NewerThan_def now_def txn_id_inj)
  qed
  have "newer now ?rs = takeWhile (\<lambda>r. \<not> Committed (rec_timestamp r)) ?rs"
    unfolding newer_def by (rule takeWhile_cong) (use r in auto)
  moreover have "?rs = [] \<or> rec_timestamp (hd ?rs) \<noteq> txn_id now" using r [of "hd ?rs"] by (cases "C s") auto
  ultimately show ?thesis by (auto simp: read_value_def committed_value_def)
qed

lemma Begin_step:
  assumes inv: "db_inv gc db C" and b: "BeginTransaction db = (t, db')" and clock: "Committed (time (ts_manager db) + 1)"
  shows "db_inv gc db' C" and "si_step (si_abs db C) (Begin t) (si_abs db' C)"
proof -
  let ?c = "new_TransactionContext t (t + INT64_MIN)"
  have com: "Committed (time (ts_manager db))" using inv_parts(3) [OF inv] by (simp add: contexts_inv_def)
  have t: "t = time (ts_manager db)" and
    db': "db' = db\<lparr>ts_manager := (ts_manager db)\<lparr>time := t + 1, curr_running_txns := List.insert t (curr_running_txns (ts_manager db))\<rparr>,
      contexts := (contexts db)(t \<mapsto> ?c)\<rparr>"
    using b by (auto simp: BeginTransaction_def TimestampManager_BeginTransaction_def)
  have lt: "x < t + 1 \<longleftrightarrow> x \<le> t" for x
    using com unfolding t by (simp add: Committed_iff word_less_nat_alt word_le_nat_alt unat_word_ariths)
       (simp add: less_Suc_eq_le)
  have none: "contexts db t = None"
    using inv_context(1) [OF inv, of t] unfolding t by (cases "contexts db (time (ts_manager db))") (auto simp: times_inv_def)
  have run: "\<forall>u \<in> set (curr_running_txns (ts_manager db')). u < time (ts_manager db')"
    using inv_parts(3) [OF inv] lt by (auto simp: db' contexts_inv_def t dest: less_imp_le)
  have ex: "extends (store db) (store db')" by (simp add: db' extends_refl)
  have cx: "contexts db' u = (if u = t then Some ?c else contexts db u)" for u by (simp add: db')
  have st: "store db' = store db" "tables db' = tables db" "block_store db' = block_store db" "completed_txns db' = completed_txns db"
    by (simp_all add: db')
  have "times_inv (ts_manager db') u d \<and> records_inv db' C u d" if u: "contexts db' u = Some d" for u d
  proof (cases "u = t")
    case True
    then have "d = ?c" using u cx by simp
    then show ?thesis
      using True lt by (simp add: db' times_inv_def records_inv_def new_TransactionContext_def txn_id_def)
  next
    case False
    then have d: "contexts db u = Some d" using u cx by simp
    have tm: "time (ts_manager db') = t + 1" "set (curr_running_txns (ts_manager db)) \<subseteq> set (curr_running_txns (ts_manager db'))"
      by (auto simp: db')
    have "x < t + 1" if "x < time (ts_manager db)" for x using lt [of x] less_imp_le [OF that] t by simp
    then have "times_inv (ts_manager db') u d"
      using inv_context(1) [OF inv d] tm unfolding times_inv_def by auto
    then show ?thesis using records_frame [OF inv ex st(2) d] by simp
  qed
  moreover have "set (undo_buffer d) \<inter> set (undo_buffer e) = {}"
    if "contexts db' u = Some d" "contexts db' v = Some e" "u \<noteq> v" for u v d e
    using that inv_owner [OF inv, of u d v e] cx by (auto simp: new_TransactionContext_def split: if_splits)
  ultimately have "contexts_inv db' C" unfolding contexts_inv_def using clock run by (simp add: db' t)
  moreover have "chains_inv db' C"
    by (rule chains_frame [OF inv ex st(2)]) (use cx none in auto)
  moreover have "queues_inv gc db' C"
  proof -
    note Q = inv_parts(4) [OF inv, unfolded queues_inv_def]
    have "t \<notin> set (completed_txns db @ txns_to_unlink gc @ txns_to_deallocate gc)" using Q none by fastforce
    then show ?thesis unfolding queues_inv_def st using Q valid_slot_cong [OF st(2)] cx by auto
  qed
  ultimately show "db_inv gc db' C"
    using blocks_extends [OF inv_parts(1) [OF inv] ex st(2,3)] by (simp add: db_inv_def)
  have act: "active db' u = (u = t \<or> active db u)" for u
    using cx [of u] none by (auto simp: active_def new_TransactionContext_def txn_id_def)
  have nact: "\<not> active db t" using none by (simp add: active_def)
  have "seen db' C t s = (if valid_slot db s then committed_row s (C s) (store db) else None)" for s
    using begin_reads_committed [OF inv, of s] valid_slot_cong [OF st(2)] t
    by (simp add: seen_def committed_row_def st(1))
  moreover have "written db' t = {}" by (simp add: written_def cx touched_def new_TransactionContext_def)
  moreover have "written db' u = written db u" if "u \<noteq> t" for u using that by (simp add: written_def cx st(1))
  moreover have "overtaken db' C u s = overtaken db C u s" for u s
  proof -
    have "q \<in> set (undo_buffer d) \<Longrightarrow> contexts db' x = Some d \<longleftrightarrow> contexts db x = Some d" for x q d
      using none by (auto simp: cx new_TransactionContext_def)
    then show ?thesis unfolding overtaken_def using valid_slot_cong [OF st(2)] by auto metis+
  qed
  moreover have "\<not> overtaken db C t s" for s
    using inv_context(1) [OF inv] com txn_id_uncommitted [OF inv_context(3) [OF inv]] unfolding t
    by (fastforce simp: overtaken_def times_inv_def NewerThan_def)
  ultimately have "si_abs db' C = (si_abs db C)\<lparr>si_view := (si_view (si_abs db C))(t \<mapsto> si_committed (si_abs db C)),
      si_written := (si_written (si_abs db C))(t := {}), si_stale := (si_stale (si_abs db C))(t := {})\<rparr>"
    using seen_extends(1) [OF inv ex st(2)] act nact valid_slot_cong [OF st(2)] by (auto simp: si_abs_def fun_eq_iff st(1))
  then show "si_step (si_abs db C) (Begin t) (si_abs db' C)"
    using si_begin [of "si_abs db C" t] nact by (simp add: si_abs_def)
qed

end
