(* ===== verification/DatabaseFinish.thy ===== *)
theory DatabaseFinish
  imports Database
begin

text \<open>
  Commit and abort of a running transaction keep the invariant of the engine, and the machine of the
  theory \<open>SnapshotIsolation\<close> simulates them.
\<close>

section \<open>Commit and abort\<close>

definition retimed :: "database \<Rightarrow> TransactionContext \<Rightarrow> undo_heap" where
  "retimed db c p =
     (if p \<in> set (undo_buffer c) then (undo_recs (store db) p)\<lparr>rec_timestamp := time (ts_manager db)\<rparr>
      else undo_recs (store db) p)"

text \<open>The slots that a running transaction wrote are those it holds the lock of.\<close>

lemma written_iff:
  assumes inv: "db_inv gc db C" and c: "contexts db t = Some c" "finish_time c = txn_id t" and v: "valid_slot db s"
  shows "s \<in> written db t \<longleftrightarrow> C s \<noteq> [] \<and> rec_timestamp (undo_recs (store db) (hd (C s))) = txn_id t"
    and "s \<in> written db t \<Longrightarrow> q \<in> set (C s) \<Longrightarrow> Committed (rec_timestamp (undo_recs (store db) q)) \<or> q \<in> set (undo_buffer c)"
    and "s \<notin> written db t \<Longrightarrow> q \<in> set (C s) \<Longrightarrow> q \<notin> set (undo_buffer c)"
    and "q \<in> set (undo_buffer c) \<Longrightarrow> q \<in> set (C s) \<Longrightarrow> \<not> Committed (rec_timestamp (undo_recs (store db) q))"
proof -
  have ok: "chain_ok (map (undo_recs (store db)) (C s))" using inv_slot(1) [OF inv v] by (simp add: slot_inv_def)
  have unc: "\<not> Committed (txn_id t)" using txn_id_uncommitted [OF inv_context(3) [OF inv c(1)]] .
  have in_written: "s \<in> written db t" if q: "q \<in> set (C s)" "q \<in> set (undo_buffer c)" for q
    using inv_linked(2,3) [OF inv v q(1)] q(2) c(1) by (auto simp: written_def touched_def image_iff)
  have ts: "rec_timestamp (undo_recs (store db) q) = txn_id t" if "q \<in> set (undo_buffer c)" for q
    using inv_record(2) [OF inv c(1) that] c(2) by simp
  have head: "rec_timestamp (undo_recs (store db) (hd (C s))) = rec_timestamp (undo_recs (store db) q)"
    if "q \<in> set (C s)" "\<not> Committed (rec_timestamp (undo_recs (store db) q))" for q
  proof -
    have "C s \<noteq> []" using that by auto
    then show ?thesis using chain_ok_uncommitted [OF ok, of "undo_recs (store db) q"] that by (simp add: hd_map)
  qed
  show "s \<in> written db t \<longleftrightarrow> C s \<noteq> [] \<and> rec_timestamp (undo_recs (store db) (hd (C s))) = txn_id t"
  proof
    assume "s \<in> written db t"
    then obtain q where q: "q \<in> set (undo_buffer c)" "rec_table (undo_recs (store db) q) \<noteq> None" "rec_slot (undo_recs (store db) q) = s"
      using c(1) by (auto simp: written_def touched_def)
    then have "q \<in> set (C s)"
      using inv_context(2) [OF inv c(1)] c(2) by (auto simp: records_inv_def installed_def Let_def)
    then show "C s \<noteq> [] \<and> rec_timestamp (undo_recs (store db) (hd (C s))) = txn_id t"
      using head [of q] ts [OF q(1)] unc by auto
  next
    assume a: "C s \<noteq> [] \<and> rec_timestamp (undo_recs (store db) (hd (C s))) = txn_id t"
    then have h: "hd (C s) \<in> set (C s)" by simp
    then show "s \<in> written db t" using in_written [OF h] inv_own_record [OF inv c v h] a by blast
  qed
  note this [symmetric]
  then show "s \<in> written db t \<Longrightarrow> q \<in> set (C s) \<Longrightarrow> Committed (rec_timestamp (undo_recs (store db) q)) \<or> q \<in> set (undo_buffer c)"
    using head [of q] inv_own_record [OF inv c v, of q] by metis
  show "s \<notin> written db t \<Longrightarrow> q \<in> set (C s) \<Longrightarrow> q \<notin> set (undo_buffer c)" using in_written by blast
  show "q \<in> set (undo_buffer c) \<Longrightarrow> q \<in> set (C s) \<Longrightarrow> \<not> Committed (rec_timestamp (undo_recs (store db) q))"
    using ts unc by simp
qed

lemma retimed_fields:
  "rec_next (retimed db c p) = rec_next (undo_recs (store db) p)"
  "rec_slot (retimed db c p) = rec_slot (undo_recs (store db) p)"
  "rec_table (retimed db c p) = rec_table (undo_recs (store db) p)"
  "rec_type (retimed db c p) = rec_type (undo_recs (store db) p)"
  "update_ok (retimed db c p) = update_ok (undo_recs (store db) p)"
  "undo_value (retimed db c p) = undo_value (undo_recs (store db) p)"
  by (simp_all add: retimed_def update_ok_def)

lemma retimed_unwritten:
  assumes "db_inv gc db C" and "contexts db t = Some c" "finish_time c = txn_id t" and "valid_slot db s" and "s \<notin> written db t"
  shows "map (retimed db c) (C s) = map (undo_recs (store db)) (C s)"
  using written_iff(3) [OF assms(1-4), OF assms(5)] by (simp add: retimed_def)

lemma retimed_written:
  assumes inv: "db_inv gc db C" and c: "contexts db t = Some c" "finish_time c = txn_id t" and v: "valid_slot db s"
    and w: "s \<in> written db t"
  shows "\<forall>r \<in> set (map (retimed db c) (C s)). Committed (rec_timestamp r)"
proof -
  have "Committed (time (ts_manager db))" using inv_parts(3) [OF inv] by (simp add: contexts_inv_def)
  then show ?thesis using written_iff(2) [OF inv c v w] by (auto simp: retimed_def)
qed

lemma retimed_mono:
  assumes inv: "db_inv gc db C" and c: "contexts db t = Some c" "finish_time c = txn_id t" and v: "valid_slot db s"
    and w: "s \<in> written db t" and pq: "p \<in> set (C s)" "q \<in> set (C s)"
    and le: "rec_timestamp (undo_recs (store db) q) \<le> rec_timestamp (undo_recs (store db) p)"
  shows "rec_timestamp (retimed db c q) \<le> rec_timestamp (retimed db c p)"
proof -
  have unc: "\<not> Committed (txn_id t)" using txn_id_uncommitted [OF inv_context(3) [OF inv c(1)]] .
  have own: "rec_timestamp (undo_recs (store db) x) = txn_id t" if "x \<in> set (undo_buffer c)" for x
    using inv_record(2) [OF inv c(1) that] c(2) by simp
  have past: "Committed (rec_timestamp (undo_recs (store db) x)) \<and> rec_timestamp (undo_recs (store db) x) < time (ts_manager db)"
    if "x \<in> set (C s)" "x \<notin> set (undo_buffer c)" for x
    using linked_times [OF inv v that(1)] written_iff(2) [OF inv c v w that(1)] that(2) by blast
  consider "p \<in> set (undo_buffer c)" | "p \<notin> set (undo_buffer c)" "q \<notin> set (undo_buffer c)"
    | "p \<notin> set (undo_buffer c)" "q \<in> set (undo_buffer c)" by blast
  then show ?thesis
  proof cases
    case 1 then show ?thesis using past [OF pq(2)] by (auto simp: retimed_def intro: less_imp_le)
  next
    case 2 then show ?thesis using le by (simp add: retimed_def)
  next
    case 3
    have "Committed (txn_id t)"
      using le own [OF 3(2)] conjunct1 [OF past [OF pq(1) 3(1)]] by (simp add: Committed_iff word_le_nat_alt)
    then show ?thesis using unc by simp
  qed
qed

lemma retimed_chain_ok:
  assumes inv: "db_inv gc db C" and c: "contexts db t = Some c" "finish_time c = txn_id t" and v: "valid_slot db s"
  shows "chain_ok (map (retimed db c) (C s))"
proof (cases "s \<in> written db t")
  case False
  then show ?thesis
    unfolding retimed_unwritten [OF inv c v False] using inv_slot(1) [OF inv v] by (simp add: slot_inv_def)
next
  case True
  have "chain_ok (map (undo_recs (store db)) (C s))" using inv_slot(1) [OF inv v] by (simp add: slot_inv_def)
  then have "sorted_wrt (\<lambda>p q. rec_type (undo_recs (store db) p) \<noteq> INSERT
      \<and> rec_timestamp (undo_recs (store db) q) \<le> rec_timestamp (undo_recs (store db) p)) (C s)"
    by (auto simp: chain_ok_def sorted_wrt_map elim: sorted_wrt_mono_rel [rotated])
  then have "sorted_wrt (\<lambda>p q. rec_type (retimed db c p) \<noteq> INSERT
      \<and> rec_timestamp (retimed db c q) \<le> rec_timestamp (retimed db c p)
      \<and> (\<not> Committed (rec_timestamp (retimed db c q)) \<longrightarrow> rec_timestamp (retimed db c q) = rec_timestamp (retimed db c p))) (C s)"
  proof (rule sorted_wrt_mono_rel [rotated])
    fix p q assume pq: "p \<in> set (C s)" "q \<in> set (C s)"
      and r: "rec_type (undo_recs (store db) p) \<noteq> INSERT
        \<and> rec_timestamp (undo_recs (store db) q) \<le> rec_timestamp (undo_recs (store db) p)"
    show "rec_type (retimed db c p) \<noteq> INSERT \<and> rec_timestamp (retimed db c q) \<le> rec_timestamp (retimed db c p)
      \<and> (\<not> Committed (rec_timestamp (retimed db c q)) \<longrightarrow> rec_timestamp (retimed db c q) = rec_timestamp (retimed db c p))"
      using r retimed_written [OF inv c v True] pq retimed_mono [OF inv c v True pq] by (auto simp: retimed_fields)
  qed
  then show ?thesis by (simp add: chain_ok_def sorted_wrt_map)
qed

lemma retimed_read:
  assumes inv: "db_inv gc db C" and c: "contexts db t = Some c" "finish_time c = txn_id t" and v: "valid_slot db s"
    and u: "active db u" "u \<noteq> t"
  shows "read_value (txn_id u) u (map (retimed db c) (C s)) x = read_value (txn_id u) u (map (undo_recs (store db)) (C s)) x"
proof (rule read_retime)
  obtain d where d: "contexts db u = Some d" using u(1) by (auto simp: active_def)
  have cu: "Committed u" and ct: "Committed t" and now: "Committed (time (ts_manager db))" "u < time (ts_manager db)"
    using inv_context [OF inv d] inv_context(3) [OF inv c(1)] inv_parts(3) [OF inv] by (simp_all add: times_inv_def contexts_inv_def)
  fix p
  show "undo_value (retimed db c p) = undo_value (undo_recs (store db) p)" by (rule retimed_fields(6))
  have ts: "rec_timestamp (undo_recs (store db) p) = txn_id t" if "p \<in> set (undo_buffer c)"
    using inv_record(2) [OF inv c(1) that] c(2) by simp
  show "NewerThan (rec_timestamp (retimed db c p)) u = NewerThan (rec_timestamp (undo_recs (store db) p)) u"
    using ts now(2) uncommitted_newer [OF txn_id_uncommitted [OF ct] cu] by (auto simp: retimed_def NewerThan_def)
  show "(rec_timestamp (retimed db c p) = txn_id u) = (rec_timestamp (undo_recs (store db) p) = txn_id u)"
    using ts now(1) txn_id_uncommitted [OF cu] u(2) by (auto simp: retimed_def txn_id_inj)
qed

text \<open>What commit and abort leave of the storage: the records are retimed, and abort undoes its slots.\<close>

definition finish_store :: "database \<Rightarrow> (TupleSlot \<Rightarrow> nat list) \<Rightarrow> timestamp \<Rightarrow> TransactionContext \<Rightarrow> bool \<Rightarrow> database \<Rightarrow> bool" where
  "finish_store db C t c abort db' \<longleftrightarrow>
     finishes t c abort (store db) db (db'\<lparr>store := set_timestamps (time (ts_manager db)) (undo_buffer c) (store db)\<rparr>)
     \<and> undo_recs (store db') = retimed db c \<and> undo_next (store db') = undo_next (store db)
     \<and> (\<forall>s. AtomicallyReadVersionPtr (memory (store db')) s = AtomicallyReadVersionPtr (memory (store db)) s)
     \<and> (\<forall>b. block_header (memory (store db')) b = block_header (memory (store db)) b)
     \<and> (\<forall>s. \<not> (abort \<and> s \<in> written db t) \<longrightarrow>
          Allocated (memory (store db')) s = Allocated (memory (store db)) s
          \<and> IsNull (memory (store db')) s VERSION_POINTER_COLUMN_ID = IsNull (memory (store db)) s VERSION_POINTER_COLUMN_ID
          \<and> attrs (memory (store db')) s = attrs (memory (store db)) s)
     \<and> (\<forall>s. abort \<and> s \<in> written db t \<longrightarrow>
          current_value (memory (store db')) s
            = undo_values (own_records c (map (undo_recs (store db)) (C s))) (current_value (memory (store db)) s)
          \<and> Allocated (memory (store db')) s = (Allocated (memory (store db)) s
              \<and> (\<forall>r \<in> set (own_records c (map (undo_recs (store db)) (C s))). rec_type r \<noteq> INSERT)))"

lemma finish_storeD:
  assumes "finish_store db C t c abort db'"
  shows "undo_recs (store db') = retimed db c" and "undo_next (store db') = undo_next (store db)"
    and "AtomicallyReadVersionPtr (memory (store db')) s = AtomicallyReadVersionPtr (memory (store db)) s"
    and "insert_head (memory (store db') b) = insert_head (memory (store db) b)"
    and "\<not> (abort \<and> s \<in> written db t) \<Longrightarrow> Allocated (memory (store db')) s = Allocated (memory (store db)) s
        \<and> IsNull (memory (store db')) s VERSION_POINTER_COLUMN_ID = IsNull (memory (store db)) s VERSION_POINTER_COLUMN_ID
        \<and> attrs (memory (store db')) s = attrs (memory (store db)) s"
    and "abort \<Longrightarrow> s \<in> written db t \<Longrightarrow> current_value (memory (store db')) s
            = undo_values (own_records c (map (undo_recs (store db)) (C s))) (current_value (memory (store db)) s)"
    and "abort \<Longrightarrow> s \<in> written db t \<Longrightarrow> Allocated (memory (store db')) s = (Allocated (memory (store db)) s
              \<and> (\<forall>r \<in> set (own_records c (map (undo_recs (store db)) (C s))). rec_type r \<noteq> INSERT))"
    and "tables db' = tables db" and "block_store db' = block_store db" and "gc_enabled db' = gc_enabled db"
    and "completed_txns db' = (if gc_enabled db then t # completed_txns db else completed_txns db)"
    and "time (ts_manager db') = time (ts_manager db) + 1"
    and "curr_running_txns (ts_manager db') \<in>
         {curr_running_txns (ts_manager db), remove1 (start_time c) (curr_running_txns (ts_manager db))}"
    and "\<exists>c'. contexts db' = (contexts db)(t \<mapsto> c') \<and> start_time c' = start_time c \<and> finish_time c' = time (ts_manager db)
      \<and> undo_buffer c' = undo_buffer c \<and> must_abort c' = must_abort c \<and> aborted c' = (abort \<or> aborted c)"
    and "hot (memory (store db) b) \<longrightarrow> hot (memory (store db') b)"
proof -
  show "undo_recs (store db') = retimed db c" and "undo_next (store db') = undo_next (store db)"
    and "AtomicallyReadVersionPtr (memory (store db')) s = AtomicallyReadVersionPtr (memory (store db)) s"
    using assms unfolding finish_store_def by blast+
  have "block_header (memory (store db')) b = block_header (memory (store db)) b" for b
    using assms unfolding finish_store_def by blast
  then show "insert_head (memory (store db') b) = insert_head (memory (store db) b)"
    and "hot (memory (store db) b) \<longrightarrow> hot (memory (store db') b)"
    using insert_head_block_header hot_block_header by blast+
  show "\<not> (abort \<and> s \<in> written db t) \<Longrightarrow> Allocated (memory (store db')) s = Allocated (memory (store db)) s
        \<and> IsNull (memory (store db')) s VERSION_POINTER_COLUMN_ID = IsNull (memory (store db)) s VERSION_POINTER_COLUMN_ID
        \<and> attrs (memory (store db')) s = attrs (memory (store db)) s"
    and "abort \<Longrightarrow> s \<in> written db t \<Longrightarrow> current_value (memory (store db')) s
            = undo_values (own_records c (map (undo_recs (store db)) (C s))) (current_value (memory (store db)) s)"
    and "abort \<Longrightarrow> s \<in> written db t \<Longrightarrow> Allocated (memory (store db')) s = (Allocated (memory (store db)) s
              \<and> (\<forall>r \<in> set (own_records c (map (undo_recs (store db)) (C s))). rec_type r \<noteq> INSERT))"
    using assms unfolding finish_store_def by blast+
  have f: "finishes t c abort (store db) db (db'\<lparr>store := set_timestamps (time (ts_manager db)) (undo_buffer c) (store db)\<rparr>)"
    using assms by (simp add: finish_store_def)
  then show "tables db' = tables db" and "block_store db' = block_store db" and "gc_enabled db' = gc_enabled db"
    and "completed_txns db' = (if gc_enabled db then t # completed_txns db else completed_txns db)"
    and "time (ts_manager db') = time (ts_manager db) + 1"
    and "curr_running_txns (ts_manager db') \<in>
         {curr_running_txns (ts_manager db), remove1 (start_time c) (curr_running_txns (ts_manager db))}"
    and "\<exists>c'. contexts db' = (contexts db)(t \<mapsto> c') \<and> start_time c' = start_time c \<and> finish_time c' = time (ts_manager db)
      \<and> undo_buffer c' = undo_buffer c \<and> must_abort c' = must_abort c \<and> aborted c' = (abort \<or> aborted c)"
    by (auto simp: finishes_def)
qed

lemma finish_not_written:
  assumes "finish_store db C t c abort db'" and "\<not> (abort \<and> s \<in> written db t)"
  shows "current_value (memory (store db')) s = current_value (memory (store db)) s"
  using finish_storeD(5) [OF assms] by (simp add: current_value_def Visible_def)

lemma own_all_insert:
  assumes "chain_ok rs" and "r \<in> set (takeWhile P rs)" and "rec_type r = INSERT"
  shows "takeWhile P rs = rs"
  using assms
proof (induction rs)
  case (Cons a rs)
  show ?case
  proof (cases "r = a")
    case True
    then show ?thesis using Cons.prems by (cases rs) (auto split: if_splits)
  next
    case False
    then show ?thesis using Cons by (auto split: if_splits)
  qed
qed simp

lemma finish_chains:
  assumes inv: "db_inv gc db C" and c: "contexts db t = Some c" "finish_time c = txn_id t"
    and f: "finish_store db C t c abort db'"
  shows "chains_inv db' C"
  unfolding chains_inv_def
proof (intro allI impI)
  note F = finish_storeD [OF f]
  let ?h = "undo_recs (store db)"
  obtain c' where c': "contexts db' = (contexts db)(t \<mapsto> c')" "undo_buffer c' = undo_buffer c" using F(14) by blast
  have own: "\<exists>u d. contexts db' u = Some d \<and> q \<in> set (undo_buffer d)"
    if ex: "\<exists>u d. contexts db u = Some d \<and> q \<in> set (undo_buffer d)" for q
  proof -
    obtain u d where u: "contexts db u = Some d" "q \<in> set (undo_buffer d)" using ex by blast
    then show ?thesis
      using c' c(1) by (cases "u = t") (auto intro!: exI [of _ u])
  qed
  fix s assume "valid_slot db' s"
  then have v: "valid_slot db s" using valid_slot_cong [OF F(8)] by simp
  note S = inv_slot [OF inv v]
  have I: "slot_chain (store db) s (C s)" "chain_ok (map ?h (C s))"
    "\<not> Allocated (memory (store db)) s \<longrightarrow> C s = [] \<or> rec_type (?h (last (C s))) = INSERT \<and> same_time (map ?h (C s))
       \<and> Committed (rec_timestamp (?h (hd (C s))))"
    using S(1) by (simp_all add: slot_inv_def)
  have "chain (retimed db c) p (C s) = chain ?h p (C s)" for p by (rule chain_cong) (simp add: retimed_fields)
  then have ch: "slot_chain (store db') s (C s)" using I(1) F(1,3) by (simp add: slot_chain_def)
  have un: "C s = [] \<or> rec_type (undo_recs (store db') (last (C s))) = INSERT
      \<and> same_time (map (undo_recs (store db')) (C s)) \<and> Committed (rec_timestamp (undo_recs (store db') (hd (C s))))"
    if al: "\<not> Allocated (memory (store db')) s"
  proof (cases "Allocated (memory (store db)) s")
    case False
    have "s \<notin> written db t"
    proof
      assume "s \<in> written db t"
      then have "C s \<noteq> []" "rec_timestamp (?h (hd (C s))) = txn_id t" using written_iff(1) [OF inv c v] by auto
      then show False using I(3) False txn_id_uncommitted [OF inv_context(3) [OF inv c(1)]] by auto
    qed
    then have m: "map (undo_recs (store db')) (C s) = map ?h (C s)" unfolding F(1) by (rule retimed_unwritten [OF inv c v])
    then have "q \<in> set (C s) \<Longrightarrow> undo_recs (store db') q = ?h q" for q by simp
    then show ?thesis unfolding m using I(3) False by (cases "C s = []") auto
  next
    case True
    then have ab: "abort" "s \<in> written db t" using al F(5) [of s] by auto
    then obtain r where r: "r \<in> set (own_records c (map ?h (C s)))" "rec_type r = INSERT" using F(7) True al by blast
    have all: "takeWhile (\<lambda>r. rec_timestamp r = finish_time c) (map ?h (C s)) = map ?h (C s)"
      using own_all_insert [OF I(2)] r unfolding own_records_def by blast
    have "q \<in> set (undo_buffer c)" if q: "q \<in> set (C s)" for q
    proof -
      have "?h q \<in> set (takeWhile (\<lambda>r. rec_timestamp r = finish_time c) (map ?h (C s)))" unfolding all using q by simp
      then show ?thesis using inv_own_record [OF inv c v q] c(2) by (auto dest: set_takeWhileD)
    qed
    then have ts: "rec_timestamp (undo_recs (store db') q) = time (ts_manager db)" if "q \<in> set (C s)" for q
      using that by (simp add: F(1) retimed_def)
    have "r \<in> set (map ?h (C s))" using r(1) unfolding own_records_def by (rule set_takeWhileD [THEN conjunct1])
    then have ne: "C s \<noteq> []" and "last (map ?h (C s)) = r" using chain_ok_insert_last [OF I(2) _ r(2)] by auto
    then have "rec_type (undo_recs (store db') (last (C s))) = INSERT" using r(2) by (simp add: F(1) retimed_fields last_map)
    moreover have "Committed (time (ts_manager db))" using inv_parts(3) [OF inv] by (simp add: contexts_inv_def)
    ultimately show ?thesis using ts ne by (simp add: same_time_def hd_map)
  qed
  have stat: "\<forall>q \<in> set (C s). q < undo_next (store db') \<and> rec_slot (undo_recs (store db') q) = s
      \<and> rec_table (undo_recs (store db') q) \<noteq> None \<and> update_ok (undo_recs (store db') q)"
    using inv_linked [OF inv v] F(2) by (simp add: F(1) retimed_fields)
  have si: "slot_inv (store db') s (C s)"
    unfolding slot_inv_def using ch stat un retimed_chain_ok [OF inv c v] by (simp add: F(1))
  have fresh: "\<not> Allocated (memory (store db')) s \<and> IsNull (memory (store db')) s VERSION_POINTER_COLUMN_ID \<and> C s = []"
    if "insert_head (memory (store db') (GetBlock s)) \<le> GetOffset s"
  proof -
    have "C s = []" "\<not> Allocated (memory (store db)) s" "IsNull (memory (store db)) s VERSION_POINTER_COLUMN_ID"
      using S(3) that F(4) [of "GetBlock s"] by simp_all
    then show ?thesis using F(5) [of s] written_iff(1) [OF inv c v] by simp
  qed
  show "slot_inv (store db') s (C s) \<and> (\<forall>q \<in> set (C s). \<exists>t c. contexts db' t = Some c \<and> q \<in> set (undo_buffer c))
    \<and> (insert_head (memory (store db') (GetBlock s)) \<le> GetOffset s \<longrightarrow>
        \<not> Allocated (memory (store db')) s \<and> IsNull (memory (store db')) s VERSION_POINTER_COLUMN_ID \<and> C s = [])"
    using si S(2) own fresh by blast
qed

lemma inv_disjoint:
  assumes "db_inv gc db C" and "contexts db t = Some c" and "contexts db u = Some d" and "t \<noteq> u"
  shows "set (undo_buffer c) \<inter> set (undo_buffer d) = {}"
  using inv_owner [OF assms(1-3)] assms(4) by blast

lemma clock_step:
  assumes "Committed now"
  shows "now < now + 1" and "x < now \<Longrightarrow> x < now + 1"
proof -
  have "unat (now + 1) = unat now + 1" using assms by (simp add: Committed_iff unat_word_ariths)
  then show "now < now + 1" and "x < now \<Longrightarrow> x < now + 1" by (simp_all add: word_less_nat_alt)
qed

lemma finish_contexts:
  assumes inv: "db_inv gc db C" and c: "contexts db t = Some c" "finish_time c = txn_id t"
    and f: "finish_store db C t c abort db'" and m: "abort \<or> \<not> must_abort c" and clock: "Committed (time (ts_manager db) + 1)"
  shows "contexts_inv db' C"
proof -
  note F = finish_storeD [OF f]
  let ?h = "undo_recs (store db)" and ?now = "time (ts_manager db)"
  have com: "Committed ?now" using inv_parts(3) [OF inv] by (simp add: contexts_inv_def)
  obtain c' where c': "contexts db' = (contexts db)(t \<mapsto> c')" "start_time c' = start_time c" "finish_time c' = ?now"
      "undo_buffer c' = undo_buffer c" "must_abort c' = must_abort c" "aborted c' = (abort \<or> aborted c)"
    using F(14) by blast
  note T = inv_context(1) [OF inv c(1), unfolded times_inv_def]
  have unc: "\<not> Committed (txn_id t)" using txn_id_uncommitted [OF inv_context(3) [OF inv c(1)]] .
  then have nab: "\<not> aborted c" using T c(2) by auto
  have other: "undo_recs (store db') q = ?h q" if "contexts db u = Some d" "u \<noteq> t" "q \<in> set (undo_buffer d)" for u d q
    using inv_owner [OF inv c(1) that(1) _ that(3)] that(2) by (auto simp: F(1) retimed_def)
  have del: "deletes db' C q" if d: "deletes db C q" and u: "contexts db u = Some d" "q \<in> set (undo_buffer d)"
      and ns: "undo_recs (store db') q = ?h q \<or> rec_slot (undo_recs (store db') q) = rec_slot (?h q)"
      and nw: "u \<noteq> t \<or> \<not> abort" for q u d
  proof -
    let ?s = "rec_slot (?h q)"
    have D: "valid_slot db ?s" "C ?s = [] \<or> hd (C ?s) = q" using d by (auto simp: deletes_def Let_def)
    have "\<not> (abort \<and> ?s \<in> written db t)"
    proof
      assume a: "abort \<and> ?s \<in> written db t"
      then have "C ?s \<noteq> []" "rec_timestamp (?h (hd (C ?s))) = txn_id t" using written_iff(1) [OF inv c D(1)] by auto
      moreover from this D(2) have "q \<in> set (C ?s)" by (metis hd_in_set)
      ultimately have "q \<in> set (undo_buffer c)" using inv_own_record [OF inv c D(1)] D(2) by metis
      then show False using inv_owner [OF inv c(1) u(1) _ u(2)] nw a by blast
    qed
    then show ?thesis
      using d ns F(4,5) valid_slot_cong [OF F(8)] by (auto simp: deletes_def Let_def)
  qed
  have R: "records_inv db' C u d" if u: "contexts db u = Some d" "u \<noteq> t" for u d
  proof (rule records_inv_frame [OF inv_context(2) [OF inv u(1)]])
    show "same_ctx d d" "undo_next (store db) \<le> undo_next (store db')" "\<And>s. valid_slot db s \<Longrightarrow> valid_slot db' s"
      by (simp_all add: F(2) valid_slot_cong [OF F(8)])
    fix q assume q: "q \<in> set (undo_buffer d)"
    show eq: "undo_recs (store db') q = ?h q" by (rule other [OF u q])
    show "installed db C q \<Longrightarrow> installed db' C q" by (simp add: installed_def eq valid_slot_cong [OF F(8)])
    show "deletes db C q \<Longrightarrow> deletes db' C q" using del [OF _ u(1) q] eq u(2) by blast
  qed
  have "records_inv db' C t c'"
  proof -
    note Rc = inv_context(2) [OF inv c(1), unfolded records_inv_def]
    have eq: "rec_table (undo_recs (store db') q) = rec_table (?h q)" "rec_type (undo_recs (store db') q) = rec_type (?h q)"
      "rec_slot (undo_recs (store db') q) = rec_slot (?h q)" for q by (simp_all add: F(1) retimed_fields)
    have fin: "?now \<noteq> txn_id t" using com unc by auto
    have "q \<in> set (undo_buffer c) \<Longrightarrow> rec_timestamp (undo_recs (store db') q) = ?now" for q by (simp add: F(1) retimed_def)
    then show ?thesis
      unfolding records_inv_def c'(3-6) eq
      using Rc m nab c(2) F(2) fin del [OF _ c(1)] eq(3) valid_slot_cong [OF F(8)] by (intro conjI impI ballI) auto
  qed
  moreover have "times_inv (ts_manager db') t c'"
    unfolding times_inv_def F(12) c'(2,3) using T com clock_step [OF com] by blast
  moreover have "times_inv (ts_manager db') u d" if u: "contexts db u = Some d" "u \<noteq> t" for u d
  proof -
    note Tu = inv_context(1) [OF inv u(1), unfolded times_inv_def]
    have "u \<in> set (curr_running_txns (ts_manager db)) \<Longrightarrow> u \<in> set (curr_running_txns (ts_manager db'))"
      using F(13) u(2) T by auto
    then show ?thesis unfolding times_inv_def F(12) using Tu clock_step(2) [OF com] by blast
  qed
  moreover have "set (undo_buffer d) \<inter> set (undo_buffer e) = {}"
    if u: "contexts db' u = Some d" "contexts db' v = Some e" "u \<noteq> v" for u v d e
  proof -
    have "\<exists>d0. contexts db u = Some d0 \<and> undo_buffer d0 = undo_buffer d" "\<exists>e0. contexts db v = Some e0 \<and> undo_buffer e0 = undo_buffer e"
      using u c' c(1) by (auto split: if_splits)
    then obtain d0 e0 where "contexts db u = Some d0" "undo_buffer d0 = undo_buffer d" "contexts db v = Some e0" "undo_buffer e0 = undo_buffer e"
      by (elim exE conjE)
    then show ?thesis using inv_disjoint [OF inv, of u d0 v e0] u(3) by simp
  qed
  moreover have "\<forall>u \<in> set (curr_running_txns (ts_manager db')). u < time (ts_manager db')"
  proof
    fix u assume "u \<in> set (curr_running_txns (ts_manager db'))"
    then have "u \<in> set (curr_running_txns (ts_manager db))" using F(13) set_remove1_subset by fastforce
    then have "u < ?now" using inv_parts(3) [OF inv] by (simp add: contexts_inv_def)
    then show "u < time (ts_manager db')" unfolding F(12) by (rule clock_step(2) [OF com])
  qed
  ultimately show ?thesis unfolding contexts_inv_def using clock R c'(1) by (auto simp: F(12))
qed

lemma finish_inv:
  assumes inv: "db_inv gc db C" and c: "contexts db t = Some c" "finish_time c = txn_id t"
    and f: "finish_store db C t c abort db'" and m: "abort \<or> \<not> must_abort c" and clock: "Committed (time (ts_manager db) + 1)"
  shows "db_inv gc db' C"
proof -
  note F = finish_storeD [OF f]
  note Q = inv_parts(4) [OF inv, unfolded queues_inv_def]
  have com: "Committed (time (ts_manager db))" using inv_parts(3) [OF inv] by (simp add: contexts_inv_def)
  obtain c' where c': "contexts db' = (contexts db)(t \<mapsto> c')" "finish_time c' = time (ts_manager db)" "undo_buffer c' = undo_buffer c"
    using F(14) by blast
  have "queues_inv gc db' C"
    unfolding queues_inv_def F(11)
    using Q active_not_queued [OF inv c] c' com valid_slot_cong [OF F(8)] by auto
  moreover have "blocks_inv db'" using blocks_inv_cong [OF inv_parts(1) [OF inv] F(8,9,4,15)] .
  ultimately show ?thesis
    using finish_chains [OF inv c f] finish_contexts [OF inv c f m clock] by (simp add: db_inv_def)
qed

section \<open>What others see of a commit or an abort\<close>

lemma insert_hides:
  assumes "rs \<noteq> []" and "rec_type (last rs) = INSERT"
  shows "fst (undo_values rs v) = False"
proof -
  have "undo_values rs v = undo_value (last rs) (undo_values (butlast rs) v)"
    using undo_values_simps(3) [of "butlast rs" "[last rs]" v] assms(1) by simp
  then show ?thesis by (simp add: undo_value_def assms(2))
qed

lemma written_valid:
  assumes "db_inv gc db C" and "contexts db t = Some c" "finish_time c = txn_id t" and "s \<in> written db t"
  shows "valid_slot db s"
proof -
  obtain q where q: "q \<in> set (undo_buffer c)" "rec_table (undo_recs (store db) q) \<noteq> None" "rec_slot (undo_recs (store db) q) = s"
    using assms(2,4) by (auto simp: written_def touched_def)
  then have "installed db C q" using inv_context(2) [OF assms(1,2)] assms(3) by (simp add: records_inv_def)
  then show ?thesis using q(3) by (simp add: installed_def)
qed

text \<open>The rolled back value of a slot, as the others and the committed state see it.\<close>

lemma rollback_views:
  assumes inv: "db_inv gc db C" and c: "contexts db t = Some c" "finish_time c = txn_id t" and v: "valid_slot db s"
    and w: "s \<in> written db t"
  defines "rs \<equiv> map (undo_recs (store db)) (C s)"
  defines "own \<equiv> own_records c rs"
  defines "alloc' \<equiv> Allocated (memory (store db)) s \<and> (\<forall>r \<in> set own. rec_type r \<noteq> INSERT)"
  shows "row_of alloc' (undo_values own x) = row_of (Allocated (memory (store db)) s) (committed_value rs x)"
    and "active db u \<Longrightarrow> u \<noteq> t \<Longrightarrow>
      row_of alloc' (read_value (txn_id u) u rs (undo_values own x)) = row_of (Allocated (memory (store db)) s) (read_value (txn_id u) u rs x)"
proof -
  have ok: "chain_ok rs" using inv_slot(1) [OF inv v] by (simp add: slot_inv_def rs_def)
  have ne: "rs \<noteq> []" and hd: "rec_timestamp (hd rs) = txn_id t"
    using written_iff(1) [OF inv c v] w by (simp_all add: rs_def hd_map)
  have own: "own = takeWhile (\<lambda>r. rec_timestamp r = txn_id t) rs" by (simp add: own_def own_records_def c(2))
  have unc: "\<not> Committed (txn_id t)" using txn_id_uncommitted [OF inv_context(3) [OF inv c(1)]] .
  have com: "committed_value rs x = undo_values own x" unfolding own by (rule committed_own [OF ok ne hd unc])
  have ins: "own = rs \<and> rec_type (last rs) = INSERT" if i: "\<not> (\<forall>r \<in> set own. rec_type r \<noteq> INSERT)"
  proof -
    obtain r where r: "r \<in> set own" "rec_type r = INSERT" using i by blast
    have "own = rs" using own_all_insert [OF ok] r unfolding own by blast
    then show ?thesis using chain_ok_insert_last [OF ok _ r(2)] r by simp
  qed
  show "row_of alloc' (undo_values own x) = row_of (Allocated (memory (store db)) s) (committed_value rs x)"
  proof (cases "\<forall>r \<in> set own. rec_type r \<noteq> INSERT")
    case False
    then show ?thesis using ins insert_hides [OF ne] com by (simp add: row_of_def alloc'_def)
  qed (simp add: alloc'_def com)
  assume u: "active db u" "u \<noteq> t"
  then obtain d where d: "contexts db u = Some d" by (auto simp: active_def)
  have cu: "Committed u" by (rule inv_context(3) [OF inv d])
  have new: "NewerThan (txn_id t) u" "txn_id t \<noteq> txn_id u" using uncommitted_newer [OF unc cu] u(2) by (auto simp: txn_id_inj)
  have rb: "read_value (txn_id u) u rs (undo_values own x) = read_value (txn_id u) u rs x"
    unfolding own by (rule read_rollback [OF new ne hd])
  show "row_of alloc' (read_value (txn_id u) u rs (undo_values own x)) = row_of (Allocated (memory (store db)) s) (read_value (txn_id u) u rs x)"
  proof (cases "\<forall>r \<in> set own. rec_type r \<noteq> INSERT")
    case False
    note I = ins [OF False]
    have "newer u rs = rs"
      unfolding newer_def using I own new(1) by (metis (mono_tags, lifting) takeWhile_eq_all_conv)
    then have "read_value (txn_id u) u rs x = undo_values rs x" using ne hd new(2) by (simp add: read_value_def)
    then show ?thesis using insert_hides [OF ne] I False by (simp add: row_of_def alloc'_def)
  qed (simp add: alloc'_def rb)
qed

lemma finish_abs_frame:
  assumes inv: "db_inv gc db C" and c: "contexts db t = Some c" "finish_time c = txn_id t"
    and f: "finish_store db C t c abort db'"
  shows "active db' u \<longleftrightarrow> active db u \<and> u \<noteq> t"
    and "u \<noteq> t \<Longrightarrow> written db' u = written db u"
    and "active db u \<Longrightarrow> u \<noteq> t \<Longrightarrow> seen db' C u s = seen db C u s"
proof -
  note F = finish_storeD [OF f]
  obtain c' where c': "contexts db' = (contexts db)(t \<mapsto> c')" "finish_time c' = time (ts_manager db)" using F(14) by blast
  have "Committed (time (ts_manager db))" using inv_parts(3) [OF inv] by (simp add: contexts_inv_def)
  then show "active db' u \<longleftrightarrow> active db u \<and> u \<noteq> t"
    using c' txn_id_uncommitted [OF inv_context(3) [OF inv c(1)]] by (auto simp: active_def)
  show "u \<noteq> t \<Longrightarrow> written db' u = written db u"
    unfolding written_def F(1) c'(1) by (simp add: touched_cong [of _ "retimed db c" "undo_recs (store db)"] retimed_fields)
  assume u: "active db u" "u \<noteq> t"
  show "seen db' C u s = seen db C u s"
  proof (cases "valid_slot db s")
    case True
    note R = retimed_read [OF inv c True u]
    show ?thesis
    proof (cases "abort \<and> s \<in> written db t")
      case w: True
      then show ?thesis
        using rollback_views(2) [OF inv c True _ u] F(6,7) [of s] R True valid_slot_cong [OF F(8)] by (simp add: seen_def F(1))
    next
      case False
      then show ?thesis
        using R F(5) [OF False] finish_not_written [OF f False] True valid_slot_cong [OF F(8)] by (simp add: seen_def F(1))
    qed
  qed (simp add: seen_def valid_slot_cong [OF F(8)])
qed

text \<open>A commit overtakes the transactions that run in the slots it wrote; an abort overtakes nobody.\<close>

lemma finish_overtaken:
  assumes inv: "db_inv gc db C" and c: "contexts db t = Some c" "finish_time c = txn_id t"
    and f: "finish_store db C t c abort db'" and u: "active db u" "u \<noteq> t"
  shows "overtaken db' C u s \<longleftrightarrow> overtaken db C u s \<or> \<not> abort \<and> s \<in> written db t"
proof -
  note F = finish_storeD [OF f]
  let ?now = "time (ts_manager db)"
  obtain c' where c': "contexts db' = (contexts db)(t \<mapsto> c')" "finish_time c' = ?now" "undo_buffer c' = undo_buffer c"
      "aborted c' = (abort \<or> aborted c)"
    using F(14) by blast
  have unc: "\<not> Committed (finish_time c)" using txn_id_uncommitted [OF inv_context(3) [OF inv c(1)]] c(2) by simp
  then have nab: "\<not> aborted c" using inv_context(1) [OF inv c(1)] by (auto simp: times_inv_def)
  have now: "Committed ?now" "NewerThan ?now u"
    using inv_parts(3) [OF inv] inv_context(1) [OF inv] u(1) by (auto simp: contexts_inv_def times_inv_def active_def NewerThan_def)
  have vs: "valid_slot db' s = valid_slot db s" by (rule valid_slot_cong [OF F(8)])
  show ?thesis
  proof (cases "valid_slot db s")
    case True
    define P where "P q d \<longleftrightarrow> q \<in> set (undo_buffer d) \<and> \<not> aborted d \<and> Committed (finish_time d) \<and> NewerThan (finish_time d) u" for q and d :: TransactionContext
    let ?others = "\<exists>q \<in> set (C s). \<exists>x d. x \<noteq> t \<and> contexts db x = Some d \<and> P q d"
    have "\<not> P q c" "P q c' \<longleftrightarrow> q \<in> set (undo_buffer c) \<and> \<not> abort" for q
      using c' unc nab now by (auto simp: P_def)
    moreover have "s \<in> written db t \<longleftrightarrow> (\<exists>q \<in> set (C s). q \<in> set (undo_buffer c))"
      using written_iff(1,3) [OF inv c True] inv_own_record [OF inv c True] by (metis hd_in_set)
    moreover have "overtaken db C u s \<longleftrightarrow> (\<exists>q \<in> set (C s). \<exists>x d. contexts db x = Some d \<and> P q d)"
      using True by (simp add: overtaken_def P_def)
    moreover have "overtaken db' C u s \<longleftrightarrow> (\<exists>q \<in> set (C s). P q c') \<or> ?others"
      using True vs c'(1) by (auto simp: overtaken_def P_def split: if_splits)
    ultimately show ?thesis using c(1) by (metis option.inject)
  next
    case False
    then show ?thesis using written_valid [OF inv c] by (auto simp: overtaken_def vs)
  qed
qed

lemma commit_abs:
  assumes inv: "db_inv gc db C" and c: "contexts db t = Some c" "finish_time c = txn_id t"
    and f: "finish_store db C t c False db'"
  shows "si_step (si_abs db C) (Committed_txn t) (si_abs db' C)"
proof -
  note F = finish_storeD [OF f] and A = finish_abs_frame [OF inv c f]
  have act: "active db t" using c by (simp add: active_def)
  have com: "committed_row s (C s) (store db') = (if s \<in> written db t then seen db C t s else committed_row s (C s) (store db))"
    if v: "valid_slot db s" for s
  proof -
    have same: "Allocated (memory (store db')) s = Allocated (memory (store db)) s"
      "current_value (memory (store db')) s = current_value (memory (store db)) s"
      using F(5) [of s] finish_not_written [OF f] by simp_all
    show ?thesis
    proof (cases "s \<in> written db t")
      case True
      then have "C s \<noteq> []" "rec_timestamp (undo_recs (store db) (hd (C s))) = txn_id t" using written_iff(1) [OF inv c v] by auto
      then show ?thesis
        using True same v committed_all [OF retimed_written [OF inv c v True]]
        by (simp add: committed_row_def seen_def read_value_def F(1) hd_map)
    next
      case False
      then show ?thesis using same unfolding committed_row_def F(1) retimed_unwritten [OF inv c v False] by simp
    qed
  qed
  have "si_abs db' C = si_finish t ((si_abs db C)\<lparr>si_committed :=
      (\<lambda>s. if s \<in> si_written (si_abs db C) t then seen db C t s else si_committed (si_abs db C) s),
      si_stale := (\<lambda>u. if si_view (si_abs db C) u = None then {} else si_stale (si_abs db C) u \<union> si_written (si_abs db C) t)\<rparr>)"
    using A com act written_valid [OF inv c] valid_slot_cong [OF F(8)] finish_overtaken [OF inv c f]
    by (auto simp: si_abs_def si_finish_def fun_eq_iff)
  then show ?thesis
    using si_commit [of "si_abs db C" t "seen db C t"] act by (simp add: si_abs_def)
qed

lemma abort_abs:
  assumes inv: "db_inv gc db C" and c: "contexts db t = Some c" "finish_time c = txn_id t"
    and f: "finish_store db C t c True db'"
  shows "si_step (si_abs db C) (Aborted_txn t) (si_abs db' C)"
proof -
  note F = finish_storeD [OF f] and A = finish_abs_frame [OF inv c f]
  have act: "active db t" using c by (simp add: active_def)
  have com: "committed_row s (C s) (store db') = committed_row s (C s) (store db)" if v: "valid_slot db s" for s
  proof (cases "s \<in> written db t")
    case True
    then show ?thesis
      using rollback_views(1) [OF inv c v True] F(6,7) [of s] committed_all [OF retimed_written [OF inv c v True]]
      by (simp add: committed_row_def F(1))
  next
    case False
    then show ?thesis
      using F(5) [of s] finish_not_written [OF f]
      unfolding committed_row_def F(1) retimed_unwritten [OF inv c v False] by simp
  qed
  have "si_abs db' C = si_finish t (si_abs db C)"
    using A com valid_slot_cong [OF F(8)] finish_overtaken [OF inv c f] by (auto simp: si_abs_def si_finish_def fun_eq_iff)
  then show ?thesis
    using si_abort [of "si_abs db C" t "seen db C t"] act by (simp add: si_abs_def)
qed

lemma Commit_step:
  assumes inv: "db_inv gc db C" and mw: "may_write db t c" and cm: "Commit t db = (ts, db')"
    and clock: "Committed (time (ts_manager db) + 1)"
  shows "db_inv gc db' C" and "si_step (si_abs db C) (Committed_txn t) (si_abs db' C)"
proof -
  have c: "contexts db t = Some c" "finish_time c = txn_id t" "\<not> must_abort c" using mw by (simp_all add: may_write_def)
  have f: "finishes t c False (store db) db db'" using Commit_effect [OF cm c(1)] by simp
  then have st: "store db' = set_timestamps (time (ts_manager db)) (undo_buffer c) (store db)" by (simp add: finishes_def)
  have "finishes t c False (store db) db (db'\<lparr>store := set_timestamps (time (ts_manager db)) (undo_buffer c) (store db)\<rparr>)"
    using f by (simp add: finishes_def)
  then have "finish_store db C t c False db'"
    unfolding finish_store_def by (simp add: st fun_eq_iff retimed_def)
  then show "db_inv gc db' C" and "si_step (si_abs db C) (Committed_txn t) (si_abs db' C)"
    using finish_inv [OF inv c(1,2) _ _ clock] commit_abs [OF inv c(1,2)] c(3) by blast+
qed

text \<open>The rollback of a running transaction always succeeds.\<close>

lemma rollback_ready:
  assumes inv: "db_inv gc db C" and c: "contexts db t = Some c" "finish_time c = txn_id t"
    and c1: "undo_buffer c1 = undo_buffer c" "finish_time c1 = finish_time c"
  shows "\<exists>txn' st'. rollback_all (tables db) (undo_buffer c) [] c1 (store db) = Some (txn', st') \<and> same_txn c1 txn'
    \<and> rolled_back c1 (written db t) C (store db) st'"
proof -
  have w: "touched (undo_recs (store db)) [] (undo_buffer c) = written db t" using c(1) by (simp add: written_def)
  have "can_rollback c1 (store db) s (C s)" if s: "s \<in> written db t" for s
  proof -
    have v: "valid_slot db s" by (rule written_valid [OF inv c s])
    note S = inv_slot(1) [OF inv v, unfolded slot_inv_def]
    have "Allocated (memory (store db)) s"
    proof (rule ccontr)
      assume "\<not> Allocated (memory (store db)) s"
      then show False
        using S written_iff(1) [OF inv c v] s txn_id_uncommitted [OF inv_context(3) [OF inv c(1)]] by auto
    qed
    moreover have "insert_last (map (undo_recs (store db)) (C s))"
    proof -
      have "chain_ok (map (undo_recs (store db)) (C s))" using S by blast
      then show ?thesis unfolding insert_last_def chain_ok_def by (rule sorted_wrt_mono_rel [rotated]) blast
    qed
    ultimately show ?thesis using S by (simp add: can_rollback_def)
  qed
  moreover have "sorted_wrt (\<lambda>p q. rec_table (undo_recs (store db) p) \<noteq> None) (undo_buffer c)"
    using inv_context(2) [OF inv c(1)] by (simp add: records_inv_def)
  ultimately show ?thesis
    using rollback_all_runs [where C = C and slots_done = "[]" and txn = c1 and st = "store db" and ps = "undo_buffer c"] w by auto
qed

lemma Abort_step:
  assumes inv: "db_inv gc db C" and c: "contexts db t = Some c" "finish_time c = txn_id t" and ab: "Abort t db = Some (ts, db')"
    and clock: "Committed (time (ts_manager db) + 1)"
  shows "db_inv gc db' C" and "si_step (si_abs db C) (Aborted_txn t) (si_abs db' C)"
proof -
  let ?c1 = "c\<lparr>abort_actions := []\<rparr>" and ?now = "time (ts_manager db)"
  obtain txn1 st1 where rb: "rollback_all (tables db) (undo_buffer c) [] ?c1 (store db) = Some (txn1, st1)" "same_txn ?c1 txn1"
      "rolled_back ?c1 (written db t) C (store db) st1"
    using rollback_ready [OF inv c, of ?c1] by auto
  have f: "finishes t c True st1 db db'" using Abort_effect [OF ab c(1) rb(1,2)] by simp
  then have st: "store db' = set_timestamps ?now (undo_buffer c) st1" by (simp add: finishes_def)
  note RB = rb(3) [unfolded rolled_back_def]
  have own: "own_records ?c1 rs = own_records c rs" for rs by (simp add: own_records_def)
  have "finishes t c True (store db) db (db'\<lparr>store := set_timestamps ?now (undo_buffer c) (store db)\<rparr>)"
    using f by (simp add: finishes_def)
  moreover have "undo_recs (store db') = retimed db c"
    using RB by (simp add: st fun_eq_iff retimed_def)
  moreover have "block_header (memory (store db')) b = block_header (memory (store db)) b" for b
    using RB by (simp add: st)
  ultimately have "finish_store db C t c True db'"
    using RB unfolding finish_store_def by (simp add: st own same_slot_def)
  then show "db_inv gc db' C" and "si_step (si_abs db C) (Aborted_txn t) (si_abs db' C)"
    using finish_inv [OF inv c _ _ clock] abort_abs [OF inv c] by blast+
qed

end
