(* ===== verification/DatabaseGC.thy ===== *)
theory DatabaseGC
  imports DatabaseFinish
begin

text \<open>
  A run of the garbage collector always returns, keeps the invariant of the engine and changes nothing
  that a running transaction sees: truncation only drops records that no one reads, and a slot is only
  reclaimed when its tuple is deleted for everyone.
\<close>

section \<open>Truncating a slot\<close>

lemma truncatesD:
  assumes "truncates slot qs oldest st st'"
  shows "slot_chain st' slot (takeWhile (\<lambda>q. \<not> too_old (undo_recs st) oldest q) qs)"
    and "undo_next st' = undo_next st"
    and "\<exists>n. undo_recs st' q = (undo_recs st q)\<lparr>rec_next := n\<rparr>"
    and "q \<notin> set qs \<Longrightarrow> undo_recs st' q = undo_recs st q"
    and "s \<noteq> slot \<Longrightarrow> AtomicallyReadVersionPtr (memory st') s = AtomicallyReadVersionPtr (memory st) s"
    and "Allocated (memory st') s = Allocated (memory st) s"
    and "IsNull (memory st') s VERSION_POINTER_COLUMN_ID = IsNull (memory st) s VERSION_POINTER_COLUMN_ID"
    and "attrs (memory st') s = attrs (memory st) s"
    and "insert_head (memory st' b) = insert_head (memory st b)" and "hot (memory st b) \<longrightarrow> hot (memory st' b)"
  using assms by (simp_all add: truncates_def)

lemma truncates_fields:
  assumes "truncates slot qs oldest st st'"
  shows "rec_timestamp (undo_recs st' q) = rec_timestamp (undo_recs st q)"
    and "rec_slot (undo_recs st' q) = rec_slot (undo_recs st q)"
    and "rec_table (undo_recs st' q) = rec_table (undo_recs st q)"
    and "rec_type (undo_recs st' q) = rec_type (undo_recs st q)"
    and "update_ok (undo_recs st' q) = update_ok (undo_recs st q)"
    and "undo_value (undo_recs st' q) = undo_value (undo_recs st q)"
    and "too_old (undo_recs st') t q = too_old (undo_recs st) t q"
  using truncatesD(3) [OF assms, of q]
  by (auto simp: update_ok_def undo_value_def fun_eq_iff too_old_def split: DeltaRecordType.splits)

lemma truncates_value:
  assumes "truncates slot qs oldest st st'"
  shows "current_value (memory st') s = current_value (memory st) s"
  by (simp add: current_value_def Visible_def truncatesD(6-8) [OF assms])

text \<open>No running transaction started before \<open>oldest\<close>.\<close>

definition safe_oldest :: "database \<Rightarrow> timestamp \<Rightarrow> bool" where
  "safe_oldest db oldest \<longleftrightarrow> Committed oldest \<and> (\<forall>t. active db t \<longrightarrow> oldest \<le> t)"

definition kept :: "database \<Rightarrow> timestamp \<Rightarrow> nat list \<Rightarrow> nat list" where
  "kept db oldest qs = takeWhile (\<lambda>q. \<not> too_old (undo_recs (store db)) oldest q) qs"

lemma kept_records:
  "map (undo_recs (store db)) (kept db oldest qs)
     = takeWhile (\<lambda>r. \<not> NewerThan oldest (rec_timestamp r)) (map (undo_recs (store db)) qs)"
  by (simp add: kept_def takeWhile_map comp_def too_old_def)

lemma kept_subset: "q \<in> set (kept db oldest qs) \<Longrightarrow> q \<in> set qs"
  by (auto simp: kept_def dest: set_takeWhileD)

lemma kept_uncommitted:
  assumes "chain_ok (map (undo_recs (store db)) qs)" and "q \<in> set qs"
    and "\<not> Committed (rec_timestamp (undo_recs (store db) q))" and "Committed oldest"
  shows "q \<in> set (kept db oldest qs)"
  using assms
proof (induction qs)
  case (Cons p qs)
  have young: "\<not> too_old (undo_recs (store db)) oldest x" if "\<not> Committed (rec_timestamp (undo_recs (store db) x))" for x
    using uncommitted_newer [OF that assms(4)] by (auto simp: too_old_def NewerThan_def)
  show ?case
  proof (cases "q = p")
    case True
    then show ?thesis using young Cons.prems(3) by (simp add: kept_def)
  next
    case False
    then have q: "q \<in> set qs" using Cons.prems(2) by simp
    then have "rec_timestamp (undo_recs (store db) q) = rec_timestamp (undo_recs (store db) p)"
      using Cons.prems(1,3) by auto
    then have "\<not> too_old (undo_recs (store db)) oldest p" using young [of p] Cons.prems(3) by simp
    moreover have "q \<in> set (kept db oldest qs)" using Cons.IH Cons.prems q by simp
    ultimately show ?thesis by (simp add: kept_def)
  qed
qed simp

lemma kept_young:
  assumes "db_inv gc db C" and "valid_slot db s" and "q \<in> set (C s)" and "\<not> NewerThan oldest (rec_timestamp (undo_recs (store db) q))"
  shows "q \<in> set (kept db oldest (C s))"
proof -
  have "chain_ok (map (undo_recs (store db)) (C s))" using inv_slot(1) [OF assms(1,2)] by (simp add: slot_inv_def)
  then show ?thesis using assms(3,4)
  proof (induction "C s" arbitrary: C)
    case (Cons p qs)
    show ?case
    proof (cases "q = p")
      case True
      then show ?thesis using Cons.prems(3) by (simp add: kept_def too_old_def flip: Cons.hyps(2))
    next
      case False
      then have q: "q \<in> set qs" using Cons.prems(2) by (simp flip: Cons.hyps(2))
      then have "rec_timestamp (undo_recs (store db) q) \<le> rec_timestamp (undo_recs (store db) p)"
        using Cons.prems(1) by (auto simp flip: Cons.hyps(2))
      then have "\<not> too_old (undo_recs (store db)) oldest p" using Cons.prems(3) by (auto simp: too_old_def NewerThan_def)
      moreover have "q \<in> set (kept db oldest qs)"
        using Cons.hyps(1) [of "\<lambda>_. qs"] Cons.prems(1,3) q by (simp flip: Cons.hyps(2))
      ultimately show ?thesis by (simp add: kept_def flip: Cons.hyps(2))
    qed
  qed simp
qed

lemma same_time_map: "same_time (map h qs) \<longleftrightarrow> (\<forall>q \<in> set qs. rec_timestamp (h q) = rec_timestamp (h (hd qs)))"
  by (cases qs) (auto simp: same_time_def)

lemma kept_same_time:
  assumes "same_time (map (undo_recs (store db)) qs)"
  shows "kept db oldest qs = [] \<or> kept db oldest qs = qs"
proof (cases qs)
  case (Cons q rest)
  then have "too_old (undo_recs (store db)) oldest x = too_old (undo_recs (store db)) oldest q" if "x \<in> set qs" for x
    using assms that by (auto simp: same_time_def too_old_def)
  then show ?thesis
    using Cons by (cases "too_old (undo_recs (store db)) oldest q") (simp_all add: kept_def takeWhile_eq_all_conv)
qed (simp add: kept_def)

lemma truncate_slot_inv:
  assumes inv: "db_inv gc db C" and v: "valid_slot db s" and tr: "truncates s (C s) oldest (store db) st'"
  shows "slot_inv st' s (kept db oldest (C s))"
proof -
  let ?K = "kept db oldest (C s)" and ?h = "undo_recs (store db)"
  note T = truncatesD [OF tr] and E = truncates_fields [OF tr]
  note S = inv_slot(1) [OF inv v, unfolded slot_inv_def]
  have "chain_ok (map ?h ?K)" unfolding kept_records using S by (intro chain_ok_takeWhile) blast
  then have ok: "chain_ok (map (undo_recs st') ?K)"
    unfolding chain_ok_def sorted_wrt_map by (simp add: E)
  have "?K = [] \<or> rec_type (undo_recs st' (last ?K)) = INSERT \<and> same_time (map (undo_recs st') ?K)
      \<and> Committed (rec_timestamp (undo_recs st' (hd ?K)))" if al: "\<not> Allocated (memory st') s"
  proof (cases "C s = []")
    case True
    then show ?thesis by (simp add: kept_def)
  next
    case False
    then have I: "rec_type (?h (last (C s))) = INSERT" "same_time (map ?h (C s))" "Committed (rec_timestamp (?h (hd (C s))))"
      using S al T(6) [of s] by auto
    have "same_time (map (undo_recs st') (C s))" using I(2) unfolding same_time_map E(1) .
    then show ?thesis using kept_same_time [OF I(2), of oldest] I(1,3) by (auto simp: E)
  qed
  moreover have "\<forall>q \<in> set ?K. q < undo_next st' \<and> rec_slot (undo_recs st' q) = s \<and> rec_table (undo_recs st' q) \<noteq> None
      \<and> update_ok (undo_recs st' q)"
    using inv_linked [OF inv v] kept_subset [of _ db oldest "C s"] T(2) by (simp add: E(2,3,5))
  ultimately show ?thesis using T(1) ok unfolding slot_inv_def kept_def [symmetric] by blast
qed

lemma truncate_inv:
  assumes inv: "db_inv gc db C" and so: "safe_oldest db oldest" and v: "valid_slot db s"
    and tr: "truncates s (C s) oldest (store db) st'"
  defines "db' \<equiv> db\<lparr>store := st'\<rparr>" and "C' \<equiv> C(s := kept db oldest (C s))"
  shows "db_inv gc db' C'" and "si_abs db' C' = si_abs db C"
proof -
  let ?h = "undo_recs (store db)"
  note T = truncatesD [OF tr] and E = truncates_fields [OF tr] and V = truncates_value [OF tr]
  have st: "store db' = st'" "tables db' = tables db" "block_store db' = block_store db" "contexts db' = contexts db"
    "ts_manager db' = ts_manager db" "completed_txns db' = completed_txns db"
    by (simp_all add: db'_def)
  have vs: "valid_slot db' x = valid_slot db x" for x by (rule valid_slot_cong [OF st(2)])
  have sub: "set (C' x) \<subseteq> set (C x)" for x using kept_subset by (auto simp: C'_def)
  have other: "undo_recs st' q = ?h q" if x: "valid_slot db x" "x \<noteq> s" "q \<in> set (C x)" for x q
  proof (rule T(4))
    show "q \<notin> set (C s)" using inv_linked(2) [OF inv x(1,3)] inv_linked(2) [OF inv v, of q] x(2) by auto
  qed
  have slots: "slot_inv st' x (C' x)" if x: "valid_slot db x" for x
  proof (cases "x = s")
    case True
    then show ?thesis using truncate_slot_inv [OF inv v tr] by (simp add: C'_def)
  next
    case False
    have "slot_inv st' x (C x)"
      by (rule slot_inv_cong [OF inv_slot(1) [OF inv x]])
         (use False T(2,5-8) other [OF x False] in \<open>simp_all add: same_slot_def\<close>)
    then show ?thesis using False by (simp add: C'_def)
  qed
  have "chains_inv db' C'"
    unfolding chains_inv_def vs st
  proof (intro allI impI conjI ballI)
    fix x assume x: "valid_slot db x"
    note S = inv_slot [OF inv x]
    show "slot_inv st' x (C' x)" by (rule slots [OF x])
    show "\<exists>t c. contexts db t = Some c \<and> q \<in> set (undo_buffer c)" if "q \<in> set (C' x)" for q
      using S(2) that sub by blast
    assume h: "insert_head (memory st' (GetBlock x)) \<le> GetOffset x"
    then have "\<not> Allocated (memory (store db)) x" "IsNull (memory (store db)) x VERSION_POINTER_COLUMN_ID" "C x = []"
      using S(3) T(9) by simp_all
    then show "\<not> Allocated (memory st') x" "IsNull (memory st') x VERSION_POINTER_COLUMN_ID" "C' x = []"
      using T(6,7) [of x] sub [of x] by simp_all
  qed
  moreover have "records_inv db' C' t c" if c: "contexts db t = Some c" for t c
  proof -
    note R = inv_context(2) [OF inv c, unfolded records_inv_def]
    have ins: "installed db' C' p" if p: "p \<in> set (undo_buffer c)" "installed db C p" "finish_time c = txn_id t" for p
    proof -
      let ?x = "rec_slot (?h p)"
      have x: "valid_slot db ?x" "p \<in> set (C ?x)" using p(2) by (simp_all add: installed_def Let_def)
      have "\<not> Committed (rec_timestamp (?h p))"
        using inv_record(2) [OF inv c p(1)] p(3) txn_id_uncommitted [OF inv_context(3) [OF inv c]] by simp
      then have "p \<in> set (kept db oldest (C ?x))"
        using kept_uncommitted [OF _ x(2)] inv_slot(1) [OF inv x(1)] so by (simp add: slot_inv_def safe_oldest_def)
      then show ?thesis using x by (auto simp: installed_def Let_def st E(2) vs C'_def)
    qed
    have del: "deletes db' C' p" if p: "deletes db C p" for p
      using p T(7,9) by (auto simp: deletes_def Let_def st E(2) vs C'_def kept_def takeWhile_eq_Nil_iff neq_Nil_conv split: if_splits)
    show ?thesis
      unfolding records_inv_def st E vs using R ins del T(2) by (intro conjI impI ballI) auto
  qed
  then have "contexts_inv db' C'"
    using inv_parts(3) [OF inv] unfolding contexts_inv_def st by blast
  moreover have "queues_inv gc db' C'"
    using inv_parts(4) [OF inv] sub unfolding queues_inv_def st vs by blast
  moreover have "blocks_inv db'"
    by (rule blocks_inv_cong [OF inv_parts(1) [OF inv] st(2,3)]) (simp_all add: st T(9,10))
  ultimately show "db_inv gc db' C'" by (simp add: db_inv_def)
  have rd: "read_value (txn_id t) t (map (undo_recs st') (C' x)) y = read_value (txn_id t) t (map ?h (C x)) y"
    if t: "active db t" for x y t
  proof -
    have "Committed oldest" "oldest \<le> t" "\<not> Committed (txn_id t)"
      using so t inv_context(3) [OF inv] txn_id_uncommitted by (auto simp: safe_oldest_def active_def)
    then have "read_value (txn_id t) t (map ?h (C' x)) y = read_value (txn_id t) t (map ?h (C x)) y"
      using read_truncate kept_records by (simp add: C'_def)
    moreover have "read_value (txn_id t) t (map (undo_recs st') (C' x)) y = read_value (txn_id t) t (map ?h (C' x)) y"
      by (rule read_retime) (simp_all add: E)
    ultimately show ?thesis by simp
  qed
  have cm: "committed_value (map (undo_recs st') (C' x)) y = committed_value (map ?h (C x)) y" for x y
  proof -
    have "committed_value (map ?h (C' x)) y = committed_value (map ?h (C x)) y"
      using committed_truncate so kept_records by (simp add: C'_def safe_oldest_def)
    moreover have "committed_value (map (undo_recs st') (C' x)) y = committed_value (map ?h (C' x)) y"
      by (rule committed_retime) (simp_all add: E)
    ultimately show ?thesis by simp
  qed
  have "seen db' C' t x = seen db C t x" if "active db t" for t x
    using rd [OF that] T(6) V by (simp add: seen_def vs st)
  moreover have "committed_row x (C' x) (store db') = committed_row x (C x) (store db)" for x
    using cm T(6) V by (simp add: committed_row_def st)
  moreover have "written db' t = written db t" for t
    unfolding written_def st by (rule touched_cong) (simp add: E)
  moreover have "active db' t = active db t" for t by (simp add: active_def st)
  moreover have "overtaken db' C' t x = overtaken db C t x" if t: "active db t" for t x
  proof
    show "overtaken db' C' t x \<Longrightarrow> overtaken db C t x" using sub by (auto simp: overtaken_def vs st)
    assume "overtaken db C t x"
    then obtain q u c where q: "valid_slot db x" "q \<in> set (C x)" "contexts db u = Some c" "q \<in> set (undo_buffer c)" "\<not> aborted c"
        "Committed (finish_time c)" "NewerThan (finish_time c) t"
      by (auto simp: overtaken_def)
    have "oldest \<le> t" using so t by (simp add: safe_oldest_def)
    then have "\<not> NewerThan oldest (rec_timestamp (?h q))" using inv_record(2) [OF inv q(3,4)] q(7) by (simp add: NewerThan_def)
    then have "q \<in> set (C' x)"
      using kept_young [OF inv v, of q oldest] q(2) by (cases "x = s") (simp_all add: C'_def)
    then show "overtaken db' C' t x" using q unfolding overtaken_def vs st by blast
  qed
  ultimately show "si_abs db' C' = si_abs db C"
    by (auto simp: si_abs_def fun_eq_iff vs)
qed

section \<open>Reclaiming a deleted slot\<close>

lemma Deallocate_inv:
  assumes inv: "db_inv gc db C" and v: "valid_slot db s" and e: "C s = []"
    and null: "IsNull (memory (store db)) s VERSION_POINTER_COLUMN_ID"
  defines "db' \<equiv> db\<lparr>store := (store db)\<lparr>memory := Deallocate (memory (store db)) s\<rparr>\<rparr>"
  shows "db_inv gc db' C" and "si_abs db' C = si_abs db C"
proof -
  let ?m = "Deallocate (memory (store db)) s"
  have st: "memory (store db') = ?m" "undo_recs (store db') = undo_recs (store db)" "undo_next (store db') = undo_next (store db)"
    "tables db' = tables db" "block_store db' = block_store db" "contexts db' = contexts db"
    "ts_manager db' = ts_manager db" "completed_txns db' = completed_txns db"
    by (simp_all add: db'_def)
  have vs: "valid_slot db' x = valid_slot db x" for x by (rule valid_slot_cong [OF st(4)])
  have same: "same_slot (store db) (store db') x" if "x \<noteq> s" for x
    using that by (simp add: same_slot_def st access_simps)
  have slots: "slot_inv (store db') x (C x)" if x: "valid_slot db x" for x
  proof (cases "x = s")
    case True
    then show ?thesis
      using inv_slot(1) [OF inv x] e by (simp add: slot_inv_def slot_chain_def st access_simps)
  next
    case False
    show ?thesis by (rule slot_inv_cong [OF inv_slot(1) [OF inv x] same [OF False]]) (simp_all add: st)
  qed
  have "chains_inv db' C"
    unfolding chains_inv_def vs
    using slots inv_slot(2,3) [OF inv] by (simp add: st access_simps frame_simps)
  moreover have "records_inv db' C t c" if c: "contexts db t = Some c" for t c
    by (rule records_inv_frame [OF inv_context(2) [OF inv c] same_ctx_refl])
       (simp_all add: st vs installed_def deletes_def Let_def access_simps frame_simps)
  then have "contexts_inv db' C" using inv_parts(3) [OF inv] unfolding contexts_inv_def st by blast
  moreover have "queues_inv gc db' C" using inv_parts(4) [OF inv] unfolding queues_inv_def st vs .
  moreover have "blocks_inv db'"
    by (rule blocks_inv_cong [OF inv_parts(1) [OF inv] st(4,5)]) (simp_all add: st frame_simps)
  ultimately show "db_inv gc db' C" by (simp add: db_inv_def)
  have sv: "seen db' C t x = seen db C t x \<and> committed_row x (C x) (store db') = committed_row x (C x) (store db)" for t x
  proof (cases "x = s")
    case True
    then show ?thesis
      using e null v by (simp add: seen_def committed_row_def row_of_def vs st access_simps read_value_def
          committed_value_def current_value_def Visible_def)
  next
    case False
    show ?thesis
      using seen_frame [OF same [OF False], of C C t] committed_frame [OF same [OF False], of C C] by (simp add: st vs)
  qed
  have "written db' t = written db t" "active db' t = active db t" "overtaken db' C = overtaken db C" for t
    by (simp_all add: written_def active_def overtaken_def st vs fun_eq_iff)
  then show "si_abs db' C = si_abs db C" using sv by (auto simp: si_abs_def fun_eq_iff vs)
qed

section \<open>Unlinking the records of a transaction\<close>

text \<open>
  The state of the collector in the middle of a run: chains of visited slots hold nothing too old,
  and \<open>ps\<close> are records that are no longer linked.
\<close>

definition visited_ok :: "database \<Rightarrow> (TupleSlot \<Rightarrow> nat list) \<Rightarrow> timestamp \<Rightarrow> TupleSlot list \<Rightarrow> bool" where
  "visited_ok db C oldest vs \<longleftrightarrow> (\<forall>s \<in> set vs. \<forall>q \<in> set (C s). \<not> too_old (undo_recs (store db)) oldest q)"

definition unlinked :: "database \<Rightarrow> (TupleSlot \<Rightarrow> nat list) \<Rightarrow> nat list \<Rightarrow> bool" where
  "unlinked db C ps \<longleftrightarrow> (\<forall>s. valid_slot db s \<longrightarrow> set ps \<inter> set (C s) = {})"

text \<open>What a step of the collector may do to the rest of the engine.\<close>

definition collects :: "database \<Rightarrow> (TupleSlot \<Rightarrow> nat list) \<Rightarrow> database \<Rightarrow> (TupleSlot \<Rightarrow> nat list) \<Rightarrow> bool" where
  "collects db C db' C' \<longleftrightarrow>
     si_abs db' C' = si_abs db C \<and> tables db' = tables db \<and> ts_manager db' = ts_manager db
     \<and> completed_txns db' = completed_txns db
     \<and> (\<forall>s. set (C' s) \<subseteq> set (C s))
     \<and> (\<forall>q. rec_timestamp (undo_recs (store db') q) = rec_timestamp (undo_recs (store db) q)
          \<and> rec_table (undo_recs (store db') q) = rec_table (undo_recs (store db) q)
          \<and> rec_type (undo_recs (store db') q) = rec_type (undo_recs (store db) q)
          \<and> rec_slot (undo_recs (store db') q) = rec_slot (undo_recs (store db) q))
     \<and> (\<forall>u. rel_option same_ctx (contexts db u) (contexts db' u))"

lemma same_ctx_trans: "same_ctx c d \<Longrightarrow> same_ctx d e \<Longrightarrow> same_ctx c e"
  by (simp add: same_ctx_def)

lemma rel_same_ctx_refl [simp]: "rel_option same_ctx x x"
  by (cases x) simp_all

lemma collects_refl: "collects db C db C"
  by (simp add: collects_def)

lemma collects_trans:
  assumes "collects db C db' C'" and "collects db' C' db'' C''"
  shows "collects db C db'' C''"
proof -
  have "rel_option same_ctx (contexts db u) (contexts db'' u)" for u
  proof -
    have "rel_option same_ctx (contexts db u) (contexts db' u)" "rel_option same_ctx (contexts db' u) (contexts db'' u)"
      using assms by (simp_all add: collects_def)
    then show ?thesis
      by (cases "contexts db u"; cases "contexts db' u"; cases "contexts db'' u") (auto intro: same_ctx_trans)
  qed
  moreover have "set (C'' s) \<subseteq> set (C s)" for s
    using assms by (meson collects_def order_trans)
  ultimately show ?thesis using assms by (simp add: collects_def)
qed

lemma collects_unlinked: "collects db C db' C' \<Longrightarrow> unlinked db C ps \<Longrightarrow> unlinked db' C' ps"
  unfolding collects_def unlinked_def by (metis (no_types, opaque_lifting) disjoint_iff subset_iff valid_slot_cong)

lemma collects_visited: "collects db C db' C' \<Longrightarrow> visited_ok db C oldest vs \<Longrightarrow> visited_ok db' C' oldest vs"
  by (auto simp: collects_def visited_ok_def too_old_def)

lemma collects_active: "collects db C db' C' \<Longrightarrow> active db' t = active db t"
proof -
  assume "collects db C db' C'"
  then have "rel_option same_ctx (contexts db t) (contexts db' t)" by (simp add: collects_def)
  then show ?thesis by (cases "contexts db t"; cases "contexts db' t") (auto simp: active_def same_ctx_def)
qed

lemma collects_safe: "collects db C db' C' \<Longrightarrow> safe_oldest db oldest \<Longrightarrow> safe_oldest db' oldest"
  by (simp add: safe_oldest_def collects_active)

lemma ReclaimBufferIfVarlen_same: "same_ctx c (ReclaimBufferIfVarlen layout r mem c)"
proof -
  have "same_txn c (fold (\<lambda>i txn. if P i then txn\<lparr>loose_ptrs := loose_ptrs txn @ f i\<rparr> else txn) xs c)" for P f and xs :: "nat list"
    by (rule same_txn_fold) simp
  then have "same_txn c (ReclaimBufferIfVarlen layout r mem c)"
    by (simp add: ReclaimBufferIfVarlen_def split: DeltaRecordType.split)
  then show ?thesis by (simp add: same_ctx_def same_txn_simps)
qed

text \<open>The first half of a round: the chain of the record's slot is truncated, unless it was before.\<close>

lemma unlink_truncate:
  assumes inv: "db_inv gc db C" and so: "safe_oldest db oldest" and vo: "visited_ok db C oldest vs"
    and c: "contexts db t = Some c" and old: "NewerThan oldest (finish_time c)" and p: "p \<in> set (undo_buffer c)"
  defines "r \<equiv> undo_recs (store db) p"
  shows "\<exists>vs' st' C'. (if rec_table r \<noteq> None \<and> rec_slot r \<notin> set vs
       then map_option (\<lambda>st. (rec_slot r # vs, st)) (TruncateVersionChain (rec_slot r) oldest (store db))
       else Some (vs, store db)) = Some (vs', st')
    \<and> db_inv gc (db\<lparr>store := st'\<rparr>) C' \<and> collects db C (db\<lparr>store := st'\<rparr>) C'
    \<and> visited_ok (db\<lparr>store := st'\<rparr>) C' oldest vs' \<and> unlinked (db\<lparr>store := st'\<rparr>) C' [p]"
proof -
  have to: "too_old (undo_recs (store db)) oldest p"
    using inv_record(2) [OF inv c p] old by (simp add: too_old_def)
  have tab: "rec_table r \<noteq> None" "rec_slot r = s" if "valid_slot db s" "p \<in> set (C s)" for s
    using inv_linked(2,3) [OF inv that] by (simp_all add: r_def)
  show ?thesis
  proof (cases "rec_table r \<noteq> None \<and> rec_slot r \<notin> set vs")
    case True
    let ?s = "rec_slot r"
    have v: "valid_slot db ?s" using inv_context(2) [OF inv c] p True by (simp add: records_inv_def r_def)
    obtain st' where st': "TruncateVersionChain ?s oldest (store db) = Some st'" "truncates ?s (C ?s) oldest (store db) st'"
      using TruncateVersionChain_runs inv_slot(1) [OF inv v] unfolding slot_inv_def by blast
    let ?C = "C(?s := kept db oldest (C ?s))"
    note I = truncate_inv [OF inv so v st'(2)] and E = truncates_fields [OF st'(2)]
    have sub: "set (?C x) \<subseteq> set (C x)" for x using kept_subset by auto
    have young: "\<not> too_old (undo_recs (store db)) oldest q" if "q \<in> set (kept db oldest qs)" for q qs
      using that by (auto simp: kept_def dest: set_takeWhileD)
    have "collects db C (db\<lparr>store := st'\<rparr>) ?C" using I(2) sub by (simp add: collects_def E)
    moreover have "visited_ok (db\<lparr>store := st'\<rparr>) ?C oldest (?s # vs)"
      using vo young sub unfolding visited_ok_def by (auto simp: E)
    moreover have "unlinked (db\<lparr>store := st'\<rparr>) ?C [p]"
      unfolding unlinked_def
    proof (intro allI impI)
      fix x assume "valid_slot (db\<lparr>store := st'\<rparr>) x"
      then have x: "valid_slot db x" by (simp add: valid_slot_def)
      have "p \<notin> set (?C x)"
      proof
        assume a: "p \<in> set (?C x)"
        then have "x = ?s" using tab(2) [OF x] sub by blast
        then show False using a young to by auto
      qed
      then show "set [p] \<inter> set (?C x) = {}" by simp
    qed
    ultimately show ?thesis using True st'(1) I(1) by auto
  next
    case False
    have "unlinked db C [p]"
      unfolding unlinked_def
    proof (intro allI impI)
      fix x assume x: "valid_slot db x"
      have "p \<notin> set (C x)"
      proof
        assume a: "p \<in> set (C x)"
        then have "x \<in> set vs" using tab [OF x] False by auto
        then show False using vo a to by (simp add: visited_ok_def)
      qed
      then show "set [p] \<inter> set (C x) = {}" by simp
    qed
    then show ?thesis using False inv vo collects_refl [of db C] by (intro exI [of _ vs] exI [of _ "store db"] exI [of _ C]) simp
  qed
qed

text \<open>The second half: a slot that the record deleted is reclaimed, and its varlen buffers are queued.\<close>

lemma unlink_reclaim:
  assumes inv: "db_inv gc db C" and c: "contexts db t = Some c" and fin: "Committed (finish_time c)" and na: "\<not> aborted c"
    and p: "p \<in> set (undo_buffer c)" and un: "unlinked db C [p]"
  defines "r \<equiv> undo_recs (store db) p"
  defines "st' \<equiv> ReclaimSlotIfDeleted r (store db)"
  defines "db' \<equiv> db\<lparr>store := st', contexts := (contexts db)(t \<mapsto>
     ReclaimBufferIfVarlen (table_layout (tables db (the (rec_table r)))) r (memory st') c)\<rparr>"
  shows "db_inv gc db' C" and "collects db C db' C"
proof -
  let ?db1 = "db\<lparr>store := st'\<rparr>"
  have nt: "finish_time c \<noteq> txn_id t" using fin txn_id_uncommitted [OF inv_context(3) [OF inv c]] by auto
  have A: "db_inv gc ?db1 C \<and> si_abs ?db1 C = si_abs db C \<and> undo_recs st' = undo_recs (store db)"
  proof (cases "rec_type r = DELETE")
    case True
    have "rec_table r \<noteq> None" using inv_context(2) [OF inv c] p na nt by (simp add: records_inv_def r_def)
    then have "deletes db C p" using inv_context(2) [OF inv c] p na True by (simp add: records_inv_def r_def)
    then have d: "valid_slot db (rec_slot r)" "IsNull (memory (store db)) (rec_slot r) VERSION_POINTER_COLUMN_ID"
        "C (rec_slot r) = [] \<or> hd (C (rec_slot r)) = p"
      by (simp_all add: deletes_def Let_def r_def)
    have "p \<notin> set (C (rec_slot r))" using un d(1) by (auto simp: unlinked_def)
    then have "C (rec_slot r) = []" using d(3) hd_in_set by metis
    from Deallocate_inv [OF inv d(1) this d(2)] True show ?thesis by (simp add: st'_def ReclaimSlotIfDeleted_def)
  next
    case False
    then show ?thesis using inv by (simp add: st'_def ReclaimSlotIfDeleted_def)
  qed
  have cx: "rel_option same_ctx (contexts ?db1 u) (contexts db' u)" for u
    using c ReclaimBufferIfVarlen_same by (simp add: db'_def)
  have tm: "Committed (time (ts_manager db))" "\<forall>u \<in> set (curr_running_txns (ts_manager db)). u < time (ts_manager db)"
    using inv_parts(3) [OF inv] by (simp_all add: contexts_inv_def)
  have run: "u \<in> set (curr_running_txns (ts_manager db))" if a: "active ?db1 u" for u
  proof -
    obtain d where d: "contexts db u = Some d" "finish_time d = txn_id u" using a by (auto simp: active_def)
    then show ?thesis
      using inv_context(1) [OF inv d(1)] txn_id_uncommitted [OF inv_context(3) [OF inv d(1)]] by (auto simp: times_inv_def)
  qed
  have B: "db_inv gc db' C" "si_abs db' C = si_abs ?db1 C"
    using same_ctx_frame [of gc ?db1 C db'] A cx tm run by (simp_all add: db'_def)
  show "db_inv gc db' C" by (rule B(1))
  show "collects db C db' C"
    using A B(2) cx by (simp add: collects_def db'_def)
qed

lemma unlink_records_runs:
  assumes "db_inv gc db C" and "safe_oldest db oldest" and "visited_ok db C oldest vs"
    and "contexts db t = Some c" and "NewerThan oldest (finish_time c)" and "Committed (finish_time c)"
    and "set ps \<subseteq> set (undo_buffer c)"
  shows "\<exists>vs' db' C'. unlink_records oldest t ps vs db = Some (vs', db') \<and> db_inv gc db' C' \<and> collects db C db' C'
    \<and> visited_ok db' C' oldest vs' \<and> unlinked db' C' ps"
  using assms
proof (induction ps arbitrary: vs db C c)
  case Nil
  then show ?case by (auto simp: unlinked_def intro!: collects_refl)
next
  case (Cons p ps)
  note P = Cons.prems
  let ?r = "undo_recs (store db) p"
  have p: "p \<in> set (undo_buffer c)" using P(7) by simp
  obtain vs1 st1 C1 where one: "(if rec_table ?r \<noteq> None \<and> rec_slot ?r \<notin> set vs
       then map_option (\<lambda>st. (rec_slot ?r # vs, st)) (TruncateVersionChain (rec_slot ?r) oldest (store db))
       else Some (vs, store db)) = Some (vs1, st1)"
     "db_inv gc (db\<lparr>store := st1\<rparr>) C1" "collects db C (db\<lparr>store := st1\<rparr>) C1"
     "visited_ok (db\<lparr>store := st1\<rparr>) C1 oldest vs1" "unlinked (db\<lparr>store := st1\<rparr>) C1 [p]"
    using unlink_truncate [OF P(1-5) p] by (elim exE conjE)
  let ?db1 = "db\<lparr>store := st1\<rparr>" and ?r1 = "undo_recs st1 p"
  let ?st2 = "ReclaimSlotIfDeleted ?r1 st1"
  define db2 where "db2 = (if aborted c then ?db1
      else db\<lparr>store := ?st2, contexts := (contexts db)(t \<mapsto>
        ReclaimBufferIfVarlen (table_layout (tables db (the (rec_table ?r1)))) ?r1 (memory ?st2) c)\<rparr>)"
  have two: "db_inv gc db2 C1 \<and> collects ?db1 C1 db2 C1"
  proof (cases "aborted c")
    case True
    then show ?thesis using one(2) by (simp add: db2_def collects_refl)
  next
    case False
    then show ?thesis
      using unlink_reclaim [OF one(2) _ P(6) False p one(5)] P(4) by (simp add: db2_def)
  qed
  then have co: "collects db C db2 C1" using collects_trans [OF one(3)] by blast
  obtain c2 where c2: "contexts db2 t = Some c2" "same_ctx c c2"
  proof -
    have "rel_option same_ctx (contexts db t) (contexts db2 t)" using co by (simp add: collects_def)
    then show ?thesis using that P(4) by (auto elim: option.rel_cases)
  qed
  have "\<exists>vs' db' C'. unlink_records oldest t ps vs1 db2 = Some (vs', db') \<and> db_inv gc db' C' \<and> collects db2 C1 db' C'
    \<and> visited_ok db' C' oldest vs' \<and> unlinked db' C' ps"
    using two collects_safe [OF co P(2)] collects_visited [OF _ one(4)] c2 P(5-7)
    by (intro Cons.IH [of db2 C1 vs1 c2]) (auto simp: same_ctx_def)
  then obtain vs' db' C' where three: "unlink_records oldest t ps vs1 db2 = Some (vs', db')" "db_inv gc db' C'"
      "collects db2 C1 db' C'" "visited_ok db' C' oldest vs'" "unlinked db' C' ps"
    by (elim exE conjE)
  have "unlink_records oldest t (p # ps) vs db = Some (vs', db')"
    using three(1) unfolding unlink_records.simps Let_def P(4) option.sel one(1) db2_def by simp
  moreover have "unlinked db' C' (p # ps)"
    using three(5) collects_unlinked [OF three(3) collects_unlinked [OF _ one(5)]] two by (auto simp: unlinked_def)
  ultimately show ?case using three collects_trans [OF co three(3)] by blast
qed

section \<open>The queues of the collector\<close>

lemma queues_perm:
  assumes "queues_inv gc db C" and "set (txns_to_unlink gc') \<subseteq> set (completed_txns db @ txns_to_unlink gc)"
    and "distinct (completed_txns db' @ txns_to_unlink gc' @ txns_to_deallocate gc')"
    and "set (completed_txns db') \<subseteq> set (completed_txns db @ txns_to_unlink gc)"
    and "txns_to_deallocate gc' = txns_to_deallocate gc" "contexts db' = contexts db" "tables db' = tables db"
  shows "queues_inv gc' db' C"
  using assms valid_slot_cong [OF assms(7)] unfolding queues_inv_def by auto

lemma active_abs: "active db t \<longleftrightarrow> si_view (si_abs db C) t \<noteq> None"
  by (simp add: si_abs_def)

text \<open>Only the queues differ.\<close>

lemma db_inv_queues:
  assumes "db_inv gc db C" and "queues_inv gc' db' C" and "db' = db\<lparr>completed_txns := q\<rparr>"
  shows "db_inv gc' db' C" and "si_abs db' C = si_abs db C"
proof -
  have st: "store db' = store db" "contexts db' = contexts db" by (simp_all add: assms(3))
  have vs: "valid_slot db' s = valid_slot db s" for s by (simp add: assms(3) valid_slot_def)
  have "records_inv db' C t c = records_inv db C t c" for t c
    by (simp add: assms(3) records_inv_def installed_def deletes_def valid_slot_def)
  then show "db_inv gc' db' C"
    using assms(1,2) unfolding db_inv_def chains_inv_def contexts_inv_def vs
    by (simp add: assms(3) blocks_inv_def table_inv_def)
  show "si_abs db' C = si_abs db C"
    unfolding si_abs_def seen_def active_def written_def overtaken_def vs st by (rule refl)
qed

lemma db_inv_gc: "db_inv gc db C \<Longrightarrow> queues_inv gc' db C \<Longrightarrow> db_inv gc' db C"
  by (simp add: db_inv_def)

text \<open>Deleting the context of a finished transaction whose records are not linked.\<close>

lemma delete_context_inv:
  assumes inv: "db_inv gc db C" and c: "contexts db t = Some c" and fin: "Committed (finish_time c)"
    and un: "unlinked db C (undo_buffer c)" and d: "delete_context t (g, db) = (g', db')"
    and q: "queues_inv gc' db' C"
  shows "db_inv gc' db' C" and "si_abs db' C = si_abs db C"
    and "g' = g\<lparr>freed := freed g'\<rparr>" and "db' = db\<lparr>contexts := (contexts db)(t := None)\<rparr>"
proof -
  show g': "g' = g\<lparr>freed := freed g'\<rparr>" and db': "db' = db\<lparr>contexts := (contexts db)(t := None)\<rparr>"
    using d by (auto simp: delete_context_def)
  have vs: "valid_slot db' s = valid_slot db s" for s by (simp add: db' valid_slot_def)
  have R: "records_inv db' C u e = records_inv db C u e" for u e
    by (simp add: db' records_inv_def installed_def deletes_def valid_slot_def)
  have "chains_inv db' C"
    unfolding chains_inv_def vs
  proof (intro allI impI)
    fix s assume s: "valid_slot db s"
    note S = inv_slot [OF inv s]
    have "\<exists>u e. contexts db' u = Some e \<and> x \<in> set (undo_buffer e)" if x: "x \<in> set (C s)" for x
    proof -
      obtain u e where u: "contexts db u = Some e" "x \<in> set (undo_buffer e)" using S(2) [OF x] by blast
      have "u \<noteq> t" using u c un s x unfolding unlinked_def by (metis disjoint_iff option.inject)
      then show ?thesis using u by (intro exI [of _ u] exI [of _ e]) (simp add: db')
    qed
    then show "slot_inv (store db') s (C s) \<and> (\<forall>q \<in> set (C s). \<exists>t c. contexts db' t = Some c \<and> q \<in> set (undo_buffer c))
      \<and> (insert_head (memory (store db') (GetBlock s)) \<le> GetOffset s \<longrightarrow>
          \<not> Allocated (memory (store db')) s \<and> IsNull (memory (store db')) s VERSION_POINTER_COLUMN_ID \<and> C s = [])"
      using S(1,3) by (simp add: db')
  qed
  moreover have "contexts_inv db' C"
    using inv_parts(3) [OF inv] unfolding contexts_inv_def R by (simp add: db')
  moreover have "blocks_inv db'" using inv_parts(1) [OF inv] by (simp add: blocks_inv_def table_inv_def db')
  ultimately show "db_inv gc' db' C" using q by (simp add: db_inv_def)
  have "\<not> active db t" using c fin txn_id_uncommitted [OF inv_context(3) [OF inv c]] by (auto simp: active_def)
  then have act: "active db' u = active db u" for u by (cases "u = t") (simp_all add: active_def db')
  have "written db' u = written db u" if "active db u" for u
    using that \<open>\<not> active db t\<close> by (cases "u = t") (simp_all add: written_def db')
  moreover have "overtaken db' C u s = overtaken db C u s" for u s
  proof (cases "valid_slot db s")
    case True
    then have "\<forall>q \<in> set (C s). q \<notin> set (undo_buffer c)" using un unfolding unlinked_def by blast
    moreover have "contexts db' x = Some d \<longleftrightarrow> contexts db x = Some d \<and> x \<noteq> t" for x d by (auto simp: db')
    ultimately show ?thesis unfolding overtaken_def vs using c by (metis option.inject)
  qed (simp add: overtaken_def vs)
  ultimately show "si_abs db' C = si_abs db C"
    using act vs by (auto simp: si_abs_def seen_def fun_eq_iff db')
qed

lemma unlink_txns_runs:
  assumes "db_inv (gc\<lparr>txns_to_unlink := ts @ requeue\<rparr>) db C" and "safe_oldest db oldest" and "visited_ok db C oldest vs"
    and "completed_txns db = []"
  shows "\<exists>n requeue' gc' db' C'. unlink_txns oldest ts requeue vs (gc, db) = Some (n, requeue', gc', db')
    \<and> db_inv (gc'\<lparr>txns_to_unlink := requeue'\<rparr>) db' C' \<and> si_abs db' C' = si_abs db C \<and> ts_manager db' = ts_manager db"
  using assms
proof (induction ts arbitrary: requeue vs gc db C)
  case Nil
  then show ?case by auto
next
  case (Cons t ts)
  let ?gc = "gc\<lparr>txns_to_unlink := (t # ts) @ requeue\<rparr>"
  note P = Cons.prems
  note Q = inv_parts(4) [OF P(1), unfolded queues_inv_def P(4), simplified]
  obtain c where c: "contexts db t = Some c" "Committed (finish_time c)" using Q by blast
  have nt: "t \<notin> set ts" "t \<notin> set requeue" "t \<notin> set (txns_to_deallocate gc)" using Q by auto
  consider (ro) "IsReadOnly c" | (old) "\<not> IsReadOnly c" "NewerThan oldest (FinishTime c)"
    | (new) "\<not> IsReadOnly c" "\<not> NewerThan oldest (FinishTime c)" by blast
  then show ?case
  proof cases
    case ro
    obtain g1 db1 where d: "delete_context t (gc, db) = (g1, db1)" by fastforce
    have un: "unlinked db C (undo_buffer c)" using ro by (simp add: IsReadOnly_def unlinked_def)
    have e: "g1 = gc\<lparr>freed := freed g1\<rparr>" "db1 = db\<lparr>contexts := (contexts db)(t := None)\<rparr>"
      using d by (auto simp: delete_context_def)
    have "txns_to_deallocate g1 = txns_to_deallocate gc" by (subst e(1)) simp
    then have "queues_inv (g1\<lparr>txns_to_unlink := ts @ requeue\<rparr>) db1 C"
      using Q nt P(4) unfolding queues_inv_def by (auto simp: e(2) valid_slot_def)
    note D = delete_context_inv [OF P(1) c un d this]
    have "active db1 u = active db u" for u
      using D(2) active_abs [of db1 u C] active_abs [of db u C] by simp
    then have s1: "safe_oldest db1 oldest" using P(2) by (simp add: safe_oldest_def)
    have v1: "visited_ok db1 C oldest vs" using P(3) by (simp add: visited_ok_def e(2))
    have "completed_txns db1 = []" using P(4) by (simp add: e(2))
    note Cons.IH [OF D(1) s1 v1 this]
    then obtain n requeue' gc' db' C' where
      r: "unlink_txns oldest ts requeue vs (g1, db1) = Some (n, requeue', gc', db')"
      "db_inv (gc'\<lparr>txns_to_unlink := requeue'\<rparr>) db' C'" "si_abs db' C' = si_abs db1 C" "ts_manager db' = ts_manager db1"
      by blast
    then show ?thesis using ro c(1) d D(2) e(2) by (simp add: Let_def) blast
  next
    case old
    have "set (undo_buffer c) \<subseteq> set (undo_buffer c)" by simp
    with unlink_records_runs [OF P(1-3) c(1) _ c(2)] old(2) obtain vs1 db1 C1 where
      u: "unlink_records oldest t (undo_buffer c) vs db = Some (vs1, db1)" "db_inv ?gc db1 C1" "collects db C db1 C1"
      "visited_ok db1 C1 oldest vs1" "unlinked db1 C1 (undo_buffer c)"
      unfolding FinishTime_def by blast
    let ?g1 = "gc\<lparr>txns_to_deallocate := t # txns_to_deallocate gc\<rparr>"
    have "rel_option same_ctx (contexts db t) (contexts db1 t)" using u(3) by (simp add: collects_def)
    then obtain c1 where c1: "contexts db1 t = Some c1" "undo_buffer c1 = undo_buffer c"
      using c(1) by (auto simp: same_ctx_def elim: option.rel_cases)
    have e: "completed_txns db1 = []" "ts_manager db1 = ts_manager db" "si_abs db1 C1 = si_abs db C"
      using u(3) P(4) by (simp_all add: collects_def)
    note Q1 = inv_parts(4) [OF u(2), unfolded queues_inv_def e(1), simplified]
    have "queues_inv (?g1\<lparr>txns_to_unlink := ts @ requeue\<rparr>) db1 C1"
      using Q1 nt u(5) c1 unfolding queues_inv_def e(1) unlinked_def by simp
    then have "db_inv (?g1\<lparr>txns_to_unlink := ts @ requeue\<rparr>) db1 C1" by (rule db_inv_gc [OF u(2)])
    then obtain n requeue' gc' db' C' where
      r: "unlink_txns oldest ts requeue vs1 (?g1, db1) = Some (n, requeue', gc', db')"
      "db_inv (gc'\<lparr>txns_to_unlink := requeue'\<rparr>) db' C'" "si_abs db' C' = si_abs db1 C1" "ts_manager db' = ts_manager db1"
      using Cons.IH [OF _ collects_safe [OF u(3) P(2)] u(4) e(1)] by blast
    then show ?thesis using old c(1) u(1) e by (simp add: Let_def) blast
  next
    case new
    have "queues_inv (gc\<lparr>txns_to_unlink := ts @ t # requeue\<rparr>) db C"
      using Q nt unfolding queues_inv_def P(4) by auto
    then have "db_inv (gc\<lparr>txns_to_unlink := ts @ t # requeue\<rparr>) db C" by (rule db_inv_gc [OF P(1)])
    then obtain n requeue' gc' db' C' where
      r: "unlink_txns oldest ts (t # requeue) vs (gc, db) = Some (n, requeue', gc', db')"
      "db_inv (gc'\<lparr>txns_to_unlink := requeue'\<rparr>) db' C'" "si_abs db' C' = si_abs db C" "ts_manager db' = ts_manager db"
      using Cons.IH [OF _ P(2-4)] by blast
    then show ?thesis using new c(1) by (simp add: Let_def) blast
  qed
qed

lemma deallocate_all:
  assumes "db_inv (g\<lparr>txns_to_deallocate := ts\<rparr>) db C"
  shows "\<exists>g' db'. fold delete_context ts (g, db) = (g', db') \<and> db_inv (g'\<lparr>txns_to_deallocate := []\<rparr>) db' C
    \<and> si_abs db' C = si_abs db C \<and> ts_manager db' = ts_manager db"
  using assms
proof (induction ts arbitrary: g db)
  case (Cons t ts)
  note Q = inv_parts(4) [OF Cons.prems, unfolded queues_inv_def, simplified]
  obtain c where c: "contexts db t = Some c" "Committed (finish_time c)" using Q by blast
  have un: "unlinked db C (undo_buffer c)" using Q c(1) by (auto simp: unlinked_def)
  obtain g1 db1 where d: "delete_context t (g, db) = (g1, db1)" by fastforce
  have e: "g1 = g\<lparr>freed := freed g1\<rparr>" "db1 = db\<lparr>contexts := (contexts db)(t := None)\<rparr>"
    using d by (auto simp: delete_context_def)
  have "txns_to_unlink g1 = txns_to_unlink g" by (subst e(1)) simp
  then have "queues_inv (g1\<lparr>txns_to_deallocate := ts\<rparr>) db1 C"
    using Q unfolding queues_inv_def by (auto simp: e(2) valid_slot_def)
  note D = delete_context_inv [OF Cons.prems c un d this]
  obtain g' db' where "fold delete_context ts (g1, db1) = (g', db')" "db_inv (g'\<lparr>txns_to_deallocate := []\<rparr>) db' C"
      "si_abs db' C = si_abs db1 C" "ts_manager db' = ts_manager db1"
    using Cons.IH [OF D(1)] by blast
  then show ?case using d D(2) e(2) by simp
qed simp

lemma ProcessDeallocateQueue_step:
  assumes inv: "db_inv gc db C" and p: "ProcessDeallocateQueue oldest (gc, db) = (n, gc', db')"
  shows "db_inv gc' db' C" and "si_abs db' C = si_abs db C" and "ts_manager db' = ts_manager db"
proof -
  obtain g1 db1 where f: "fold delete_context (txns_to_deallocate gc) (gc, db) = (g1, db1)"
      "db_inv (g1\<lparr>txns_to_deallocate := []\<rparr>) db1 C" "si_abs db1 C = si_abs db C" "ts_manager db1 = ts_manager db"
    using deallocate_all [where g = gc and ts = "txns_to_deallocate gc" and db = db and C = C] inv by auto
  show "db_inv gc' db' C" and "si_abs db' C = si_abs db C" and "ts_manager db' = ts_manager db"
    using p f inv by (auto simp: ProcessDeallocateQueue_def split: if_splits)
qed

lemma ProcessUnlinkQueue_runs:
  assumes inv: "db_inv gc db C" and so: "safe_oldest db oldest"
  shows "\<exists>n gc' db' C'. ProcessUnlinkQueue oldest (gc, db) = Some (n, gc', db') \<and> db_inv gc' db' C'
    \<and> si_abs db' C' = si_abs db C \<and> ts_manager db' = ts_manager db"
proof -
  let ?db = "db\<lparr>completed_txns := []\<rparr>" and ?ts = "completed_txns db @ txns_to_unlink gc"
  let ?gc = "gc\<lparr>txns_to_unlink := ?ts @ []\<rparr>"
  have "queues_inv ?gc ?db C"
    using inv_parts(4) [OF inv] by (auto simp: queues_inv_def valid_slot_def)
  note D = db_inv_queues [OF inv this refl]
  have so': "safe_oldest ?db oldest" using so by (simp add: safe_oldest_def active_def)
  have "visited_ok ?db C oldest []" "completed_txns ?db = []" by (simp_all add: visited_ok_def)
  from unlink_txns_runs [OF D(1) so' this] obtain n requeue gc' db' C' where
    "unlink_txns oldest ?ts [] [] (gc, ?db) = Some (n, requeue, gc', db')"
    "db_inv (gc'\<lparr>txns_to_unlink := requeue\<rparr>) db' C'" "si_abs db' C' = si_abs ?db C" "ts_manager db' = ts_manager ?db"
    by blast
  then show ?thesis
    using D(2) by (auto simp: ProcessUnlinkQueue_def CompletedTransactionsForGC_def)
qed

text \<open>The clock, the cached oldest time and the deferred actions are outside the invariant.\<close>

lemma clock_inv:
  assumes inv: "db_inv gc db C"
    and same: "store db' = store db" "tables db' = tables db" "block_store db' = block_store db"
      "completed_txns db' = completed_txns db" "contexts db' = contexts db"
    and tm: "curr_running_txns (ts_manager db') = curr_running_txns (ts_manager db)"
      "time (ts_manager db) \<le> time (ts_manager db')" "Committed (time (ts_manager db'))"
  shows "db_inv gc db' C" and "si_abs db' C = si_abs db C"
proof -
  have run: "u \<in> set (curr_running_txns (ts_manager db'))" if a: "active db u" for u
  proof -
    obtain d where d: "contexts db u = Some d" "finish_time d = txn_id u" using a by (auto simp: active_def)
    then show ?thesis
      using inv_context(1) [OF inv d(1)] txn_id_uncommitted [OF inv_context(3) [OF inv d(1)]] tm(1) by (auto simp: times_inv_def)
  qed
  have "\<forall>u \<in> set (curr_running_txns (ts_manager db')). u < time (ts_manager db')"
    using inv_parts(3) [OF inv] tm(1,2) by (auto simp: contexts_inv_def)
  then show "db_inv gc db' C" and "si_abs db' C = si_abs db C"
    using same_ctx_frame [OF inv same(1-4) _ tm(2,3) run] same(5) by simp_all
qed

lemma oldest_safe:
  assumes inv: "db_inv gc db C" and o: "OldestTransactionStartTime (ts_manager db) = (oldest, tm)"
  shows "safe_oldest db oldest"
proof -
  have T: "Committed (time (ts_manager db))" "\<forall>u \<in> set (curr_running_txns (ts_manager db)). u < time (ts_manager db)"
    using inv_parts(3) [OF inv] by (simp_all add: contexts_inv_def)
  have "oldest \<le> time (ts_manager db)"
    using OldestTransactionStartTime_mem [of "ts_manager db"] o T(2) by (auto intro: less_imp_le)
  then have "Committed oldest" using T(1) by (simp add: Committed_iff word_le_nat_alt)
  moreover have "oldest \<le> u" if a: "active db u" for u
  proof -
    obtain d where d: "contexts db u = Some d" "finish_time d = txn_id u" using a by (auto simp: active_def)
    then have "u \<in> set (curr_running_txns (ts_manager db))"
      using inv_context(1) [OF inv d(1)] txn_id_uncommitted [OF inv_context(3) [OF inv d(1)]] by (auto simp: times_inv_def)
    then show ?thesis using OldestTransactionStartTime_le [of u "ts_manager db"] o by simp
  qed
  ultimately show ?thesis by (simp add: safe_oldest_def)
qed

lemma Committed_less: "Committed (x + 1) \<Longrightarrow> Committed x \<Longrightarrow> x \<le> x + 1"
  by (simp add: Committed_iff word_le_nat_alt unat_word_ariths)

lemma PerformGarbageCollection_step:
  assumes inv: "db_inv gc db C" and clock: "Committed (time (ts_manager db) + 1)" "Committed (time (ts_manager db) + 1 + 1)"
  shows "\<exists>n gc' db' C'. PerformGarbageCollection exec (gc, db) = Some (n, gc', db') \<and> db_inv gc' db' C'
    \<and> si_abs db' C' = si_abs db C"
proof -
  let ?tm = "snd (CheckOutTimestamp (ts_manager db))"
  have com: "Committed (time (ts_manager db))" using inv_parts(3) [OF inv] by (simp add: contexts_inv_def)
  have tm: "time ?tm = time (ts_manager db) + 1" "curr_running_txns ?tm = curr_running_txns (ts_manager db)"
    by (simp_all add: CheckOutTimestamp_def)
  obtain oldest tm2 where o: "OldestTransactionStartTime ?tm = (oldest, tm2)" by fastforce
  then have tm2: "time tm2 = time ?tm" "curr_running_txns tm2 = curr_running_txns ?tm"
    by (auto simp: OldestTransactionStartTime_def Let_def)
  let ?db0 = "db\<lparr>ts_manager := ?tm\<rparr>" and ?db1 = "db\<lparr>ts_manager := tm2\<rparr>"
  have I0: "db_inv gc ?db0 C" "si_abs ?db0 C = si_abs db C" "db_inv gc ?db1 C" "si_abs ?db1 C = si_abs db C"
    using clock_inv [OF inv, of ?db0] clock_inv [OF inv, of ?db1] tm tm2 clock(1) Committed_less [OF clock(1) com] by simp_all
  have so: "safe_oldest ?db1 oldest"
    using oldest_safe [OF I0(1), of oldest tm2] o by (simp add: safe_oldest_def active_def)
  obtain nd gc2 db2 where d: "ProcessDeallocateQueue oldest (gc, ?db1) = (nd, gc2, db2)" by (metis prod_cases3)
  note I2 = ProcessDeallocateQueue_step [OF I0(3) d]
  have "active db2 t = active ?db1 t" for t using I2(2) active_abs [of db2 t C] active_abs [of ?db1 t C] by simp
  then have "safe_oldest db2 oldest" using so by (simp add: safe_oldest_def)
  from ProcessUnlinkQueue_runs [OF I2(1) this] obtain nu gc3 db3 C3 where
    u: "ProcessUnlinkQueue oldest (gc2, db2) = Some (nu, gc3, db3)" "db_inv gc3 db3 C3" "si_abs db3 C3 = si_abs db2 C"
      "ts_manager db3 = ts_manager db2" by blast
  define gc4 where "gc4 = (if nu > 0 then gc3\<lparr>last_unlinked := time (ts_manager db3)\<rparr> else gc3)"
  define db4 where "db4 = (if nu > 0 then db3\<lparr>ts_manager := snd (CheckOutTimestamp (ts_manager db3))\<rparr> else db3)"
  have t3: "time (ts_manager db3) = time (ts_manager db) + 1" using u(4) I2(3) tm tm2 by simp
  have I4: "db_inv gc3 db4 C3" "si_abs db4 C3 = si_abs db3 C3"
    using clock_inv [OF u(2), of db4] t3 clock Committed_less [OF clock(2,1)] u(2)
    by (auto simp: db4_def CheckOutTimestamp_def)
  then have I4': "db_inv gc4 db4 C3" by (simp add: gc4_def db_inv_def queues_inv_def)
  let ?db5 = "ProcessDeferredActions exec oldest db4"
  have t5: "store ?db5 = store db4" "tables ?db5 = tables db4" "block_store ?db5 = block_store db4"
      "completed_txns ?db5 = completed_txns db4" "contexts ?db5 = contexts db4" "ts_manager ?db5 = ts_manager db4"
    by (simp_all add: ProcessDeferredActions_def)
  have "Committed (time (ts_manager db4))" using inv_parts(3) [OF I4'] by (simp add: contexts_inv_def)
  then have "db_inv gc4 ?db5 C3" "si_abs ?db5 C3 = si_abs db4 C3"
    using clock_inv [OF I4', of ?db5] t5 by simp_all
  then have I5: "db_inv (ProcessIndexes gc4) ?db5 C3" "si_abs ?db5 C3 = si_abs db4 C3"
    by (simp_all add: ProcessIndexes_def db_inv_def queues_inv_def)
  have "PerformGarbageCollection exec (gc, db) = Some ((nd, nu), ProcessIndexes gc4, ?db5)"
    unfolding PerformGarbageCollection_def prod.case Let_def o d u(1) option.case
    by (simp add: gc4_def db4_def CheckOutTimestamp_def)
  then show ?thesis using I5 I4(2) u(3) I2(2) I0(4) by simp blast
qed

end
