(* ===== verification/DatabaseInsert.thy ===== *)
theory DatabaseInsert
  imports Database
begin

text \<open>
  Inserts and new tables as steps on the whole state: taking the slot at the insert head of a block,
  adding a block of the block store to a table, and installing the first version of a tuple.
\<close>

section \<open>Taking a free slot\<close>

definition head_slot :: "block_memory \<Rightarrow> u64 \<Rightarrow> TupleSlot" where
  "head_slot mem b = make_TupleSlot b (insert_head (mem b))"

lemma head_slot_parts:
  assumes "slot_asserts b 0" and "unat (insert_head (mem b)) < BLOCK_SIZE"
  shows "GetBlock (head_slot mem b) = b" and "GetOffset (head_slot mem b) = insert_head (mem b)"
  using assms by (simp_all add: head_slot_def GetBlock_make GetOffset_make slot_asserts_def)

lemma take_slot_observe:
  assumes "slot_asserts b 0" and "unat (insert_head (mem b)) < BLOCK_SIZE"
  shows "Allocated (take_slot b mem) s = (s = head_slot mem b \<or> Allocated mem s)"
    and "IsNull (take_slot b mem) s c = IsNull mem s c"
    and "attrs (take_slot b mem) s = attrs mem s"
    and "AtomicallyReadVersionPtr (take_slot b mem) s = AtomicallyReadVersionPtr mem s"
    and "insert_head (take_slot b mem x) = (if x = b then insert_head (mem b) + 1 else insert_head (mem x))"
    and "hot (take_slot b mem x) = hot (mem x)"
proof -
  note H = head_slot_parts [where mem = mem, OF assms]
  have eq: "s = head_slot mem b \<longleftrightarrow> GetBlock s = b \<and> slot_index s = unat (insert_head (mem b))"
    using H slot_eq_iff [of s "head_slot mem b"] by (simp add: slot_index_def)
  show "Allocated (take_slot b mem) s = (s = head_slot mem b \<or> Allocated mem s)"
    unfolding eq by (auto simp: Allocated_def take_slot_def bitmap_simps)
qed (auto simp: take_slot_def IsNull_def attrs_def AccessWithNullCheck_def AtomicallyReadVersionPtr_def hot_def fun_eq_iff)

lemma take_inv:
  assumes inv: "db_inv gc db C" and b: "b \<in> set (blocks (tables db i))"
    and free: "insert_head (memory (store db) b) < num_slots (table_layout (tables db i))"
  defines "slot \<equiv> head_slot (memory (store db)) b"
  defines "db' \<equiv> db\<lparr>store := (store db)\<lparr>memory := take_slot b (memory (store db))\<rparr>\<rparr>"
  shows "db_inv gc db' C" and "si_abs db' C = si_abs db C"
    and "valid_slot db slot" "\<not> Allocated (memory (store db)) slot" "IsNull (memory (store db)) slot VERSION_POINTER_COLUMN_ID"
      "C slot = []" "GetBlock slot = b" "GetOffset slot = insert_head (memory (store db) b)"
    and "Allocated (memory (store db')) slot" "IsNull (memory (store db')) slot VERSION_POINTER_COLUMN_ID"
      "GetOffset slot < insert_head (memory (store db') (GetBlock slot))"
proof -
  let ?m = "memory (store db)" and ?n = "num_slots (table_layout (tables db i))"
  have "table_inv db i" "blocks (tables db i) \<noteq> []" using inv_parts(1) [OF inv] b by (auto simp: blocks_inv_def)
  then have TI: "heads_ok (tables db i) ?m" "slot_asserts b 0" using b by (auto simp: table_inv_def)
  then have nb: "unat ?n \<le> BLOCK_SIZE" by (simp add: heads_ok_def)
  then have small: "unat (insert_head (?m b)) < BLOCK_SIZE" using free by (simp add: word_less_nat_alt)
  note H = head_slot_parts [where mem = ?m, OF TI(2) small] and O = take_slot_observe [where mem = ?m, OF TI(2) small]
  have nxt: "unat (insert_head (?m b) + 1) = unat (insert_head (?m b)) + 1"
    using small by (simp add: unat_word_ariths BLOCK_SIZE_def)
  show gb: "GetBlock slot = b" and go: "GetOffset slot = insert_head (?m b)" using H by (simp_all add: slot_def)
  show v: "valid_slot db slot" using b free gb go unfolding valid_slot_def by (intro exI [of _ i]) simp
  have "insert_head (?m (GetBlock slot)) \<le> GetOffset slot" by (simp add: gb go)
  from inv_slot(3) [OF inv v this] show fr: "\<not> Allocated ?m slot" "IsNull ?m slot VERSION_POINTER_COLUMN_ID" "C slot = []" by simp_all
  have st: "memory (store db') = take_slot b ?m" "undo_recs (store db') = undo_recs (store db)"
    "undo_next (store db') = undo_next (store db)" "tables db' = tables db" "block_store db' = block_store db"
    "contexts db' = contexts db" "ts_manager db' = ts_manager db" "completed_txns db' = completed_txns db"
    by (simp_all add: db'_def)
  show "Allocated (memory (store db')) slot" "IsNull (memory (store db')) slot VERSION_POINTER_COLUMN_ID"
      "GetOffset slot < insert_head (memory (store db') (GetBlock slot))"
    using fr nxt by (simp_all add: st O gb go slot_def [symmetric] word_less_nat_alt)
  have vs: "valid_slot db' s = valid_slot db s" for s by (rule valid_slot_cong [OF st(4)])
  have same: "same_slot (store db) (store db') s" if "s \<noteq> slot" for s
    using that by (simp add: same_slot_def st O slot_def)
  have up: "insert_head (?m x) \<le> insert_head (take_slot b ?m x)" for x
    using nxt by (simp add: O(5) word_le_nat_alt)
  have chains: "chains_inv db' C"
    unfolding chains_inv_def vs
  proof (intro allI impI)
    fix s assume s: "valid_slot db s"
    note S = inv_slot [OF inv s]
    have "slot_inv (store db') s (C s)"
    proof (cases "s = slot")
      case True
      then show ?thesis using S(1) fr by (simp add: slot_inv_def slot_chain_def st O)
    next
      case False
      show ?thesis by (rule slot_inv_cong [OF S(1) same [OF False]]) (simp_all add: st)
    qed
    moreover have "\<not> Allocated (take_slot b ?m) s \<and> IsNull (take_slot b ?m) s VERSION_POINTER_COLUMN_ID \<and> C s = []"
      if h: "insert_head (take_slot b ?m (GetBlock s)) \<le> GetOffset s"
    proof -
      have "s \<noteq> slot" using h nxt by (auto simp: O(5) gb go word_le_nat_alt)
      then show ?thesis using S(3) order_trans [OF up h] by (simp add: O slot_def)
    qed
    ultimately show "slot_inv (store db') s (C s) \<and> (\<forall>q \<in> set (C s). \<exists>t c. contexts db' t = Some c \<and> q \<in> set (undo_buffer c))
      \<and> (insert_head (memory (store db') (GetBlock s)) \<le> GetOffset s \<longrightarrow>
          \<not> Allocated (memory (store db')) s \<and> IsNull (memory (store db')) s VERSION_POINTER_COLUMN_ID \<and> C s = [])"
      using S(2) by (simp add: st)
  qed
  have "records_inv db' C t c" if c: "contexts db t = Some c" for t c
    by (rule records_inv_frame [OF inv_context(2) [OF inv c] same_ctx_refl])
       (use up in \<open>auto simp: st vs installed_def deletes_def Let_def O(2) intro: order_less_le_trans\<close>)
  then have "contexts_inv db' C" using inv_parts(3) [OF inv] unfolding contexts_inv_def st by blast
  moreover have "queues_inv gc db' C" using inv_parts(4) [OF inv] unfolding queues_inv_def st vs .
  moreover have "blocks_inv db'"
  proof -
    have "table_inv db' j" for j
    proof (cases "b \<in> set (blocks (tables db j))")
      case True
      then have "j = i" using b inv_parts(1) [OF inv] unfolding blocks_inv_def by (metis disjoint_iff)
      have "idle (take_slot b ?m x)" "insert_head (take_slot b ?m x) \<le> ?n" if "x \<in> set (blocks (tables db i))" for x
        using that TI(1) nxt free small
        by (auto simp: heads_ok_def idle_def O(5) ClearBit_iff word_le_nat_alt word_less_nat_alt BLOCK_SIZE_def)
      then show ?thesis
        using inv_parts(1) [OF inv] unfolding \<open>j = i\<close> by (simp add: blocks_inv_def table_inv_def heads_ok_def st O(6))
    next
      case False
      then show ?thesis
        using inv_parts(1) [OF inv] by (auto simp: blocks_inv_def table_inv_def heads_ok_def st idle_def O(5,6))
    qed
    then show ?thesis using inv_parts(1) [OF inv] unfolding blocks_inv_def st by blast
  qed
  ultimately show "db_inv gc db' C" using chains by (simp add: db_inv_def)
  have sv: "seen db' C t s = seen db C t s \<and> committed_row s (C s) (store db') = committed_row s (C s) (store db)" for t s
  proof (cases "s = slot")
    case True
    then show ?thesis
      using fr v by (simp add: seen_def committed_row_def row_of_def vs st O read_value_def
          committed_value_def current_value_def Visible_def)
  next
    case False
    show ?thesis
      using seen_frame [OF same [OF False], of C C t] committed_frame [OF same [OF False], of C C] by (simp add: st vs)
  qed
  have "written db' t = written db t" "active db' t = active db t" "overtaken db' C = overtaken db C" for t
    by (simp_all add: written_def active_def overtaken_def st vs fun_eq_iff)
  then show "si_abs db' C = si_abs db C" using sv by (auto simp: si_abs_def fun_eq_iff vs)
qed


section \<open>Adding a block to a table\<close>

lemma BlockStore_Get_new:
  assumes inv: "blocks_inv db" and g: "BlockStore_Get (block_store db) = Inr (b, bs')"
  shows "slot_asserts b 0" and "b \<notin> set (blocks (tables db i))"
    and "distinct (reuse_queue (block_pool bs'))" and "b \<notin> set (reuse_queue (block_pool bs'))"
    and "set (reuse_queue (block_pool bs')) \<subseteq> set (reuse_queue (block_pool (block_store db)))"
    and "fresh bs' = fresh (block_store db)" and "new_calls (block_store db) \<le> new_calls bs'"
    and "new_calls bs' \<le> n \<Longrightarrow> fresh bs' n \<noteq> Some b"
proof -
  let ?bs = "block_store db"
  note B = inv [unfolded blocks_inv_def]
  have "slot_asserts b 0 \<and> (\<forall>i. b \<notin> set (blocks (tables db i))) \<and> distinct (reuse_queue (block_pool bs'))
    \<and> b \<notin> set (reuse_queue (block_pool bs'))
    \<and> set (reuse_queue (block_pool bs')) \<subseteq> set (reuse_queue (block_pool ?bs))
    \<and> fresh bs' = fresh ?bs \<and> new_calls ?bs \<le> new_calls bs' \<and> (\<forall>n. new_calls bs' \<le> n \<longrightarrow> fresh bs' n \<noteq> Some b)"
  proof (cases "reuse_queue (block_pool ?bs)")
    case Nil
    then have e: "fresh ?bs (new_calls ?bs) = Some b" "fresh bs' = fresh ?bs" "new_calls bs' = new_calls ?bs + 1"
        "reuse_queue (block_pool bs') = []"
      using g by (auto simp: BlockStore_Get_def Get_def split: if_splits option.splits)
    then have F: "slot_asserts b 0" "\<forall>i. b \<notin> set (blocks (tables db i))" "\<forall>m > new_calls ?bs. fresh ?bs m \<noteq> Some b"
      using B by (metis order_refl)+
    then show ?thesis using e by simp
  next
    case (Cons x rest)
    then have e: "x = b" "fresh bs' = fresh ?bs" "new_calls bs' = new_calls ?bs" "reuse_queue (block_pool bs') = rest"
      using g by (auto simp: BlockStore_Get_def Get_def)
    then show ?thesis using B Cons by auto
  qed
  then show "slot_asserts b 0" and "b \<notin> set (blocks (tables db i))"
    and "distinct (reuse_queue (block_pool bs'))" and "b \<notin> set (reuse_queue (block_pool bs'))"
    and "set (reuse_queue (block_pool bs')) \<subseteq> set (reuse_queue (block_pool (block_store db)))"
    and "fresh bs' = fresh (block_store db)" and "new_calls (block_store db) \<le> new_calls bs'"
    and "new_calls bs' \<le> n \<Longrightarrow> fresh bs' n \<noteq> Some b"
    by blast+
qed

text \<open>A table gets the block \<open>b\<close> at the end of its list; its other blocks keep their layout.\<close>

definition appends_block :: "database \<Rightarrow> nat \<Rightarrow> u64 \<Rightarrow> DataTable \<Rightarrow> BlockStore \<Rightarrow> database \<Rightarrow> bool" where
  "appends_block db i b table' bs' db' \<longleftrightarrow>
     BlockStore_Get (block_store db) = Inr (b, bs')
     \<and> blocks table' = blocks (tables db i) @ [b] \<and> table_id table' = i \<and> insertion_head table' < length (blocks table')
     \<and> 0 < unat (num_slots (table_layout table')) \<and> unat (num_slots (table_layout table')) \<le> BLOCK_SIZE
     \<and> (blocks (tables db i) \<noteq> [] \<longrightarrow> table_layout table' = table_layout (tables db i))
     \<and> db' = db\<lparr>tables := (tables db)(i := table'), block_store := bs',
          store := (store db)\<lparr>memory := (memory (store db))(b :=
            InitializeRawBlock (table_layout table') i (memory (store db) b) (table_layout_version table'))\<rparr>\<rparr>"

lemma appends_blockD:
  assumes "appends_block db i b table' bs' db'"
  shows "BlockStore_Get (block_store db) = Inr (b, bs')" and "blocks table' = blocks (tables db i) @ [b]"
    and "table_id table' = i" and "insertion_head table' < length (blocks table')"
    and "0 < unat (num_slots (table_layout table'))" and "unat (num_slots (table_layout table')) \<le> BLOCK_SIZE"
    and "x \<in> set (blocks (tables db i)) \<Longrightarrow> table_layout table' = table_layout (tables db i)"
    and "undo_recs (store db') = undo_recs (store db)" and "undo_next (store db') = undo_next (store db)"
    and "contexts db' = contexts db" and "ts_manager db' = ts_manager db" and "completed_txns db' = completed_txns db"
    and "tables db' = (tables db)(i := table')" and "block_store db' = bs'"
    and "memory (store db') = (memory (store db))(b :=
            InitializeRawBlock (table_layout table') i (memory (store db) b) (table_layout_version table'))"
proof -
  have "blocks (tables db i) \<noteq> [] \<longrightarrow> table_layout table' = table_layout (tables db i)"
    using assms unfolding appends_block_def by blast
  then show "x \<in> set (blocks (tables db i)) \<Longrightarrow> table_layout table' = table_layout (tables db i)" by fastforce
  show "blocks table' = blocks (tables db i) @ [b]" "insertion_head table' < length (blocks table')"
    using assms unfolding appends_block_def by blast+
qed (use assms in \<open>simp_all add: appends_block_def\<close>)

lemma append_valid:
  assumes a: "appends_block db i b table' bs' db'"
  shows "valid_slot db' s \<longleftrightarrow> valid_slot db s \<or> GetBlock s = b \<and> GetOffset s < num_slots (table_layout table')"
proof
  note A = appends_blockD [OF a]
  assume "valid_slot db' s"
  then obtain j where j: "GetBlock s \<in> set (blocks (tables db' j))" "GetOffset s < num_slots (table_layout (tables db' j))"
    by (auto simp: valid_slot_def)
  show "valid_slot db s \<or> GetBlock s = b \<and> GetOffset s < num_slots (table_layout table')"
  proof (cases "j = i \<and> GetBlock s = b")
    case False
    then have "GetBlock s \<in> set (blocks (tables db j))" "GetOffset s < num_slots (table_layout (tables db j))"
      using j A(2,7) by (auto simp: A(13) split: if_splits)
    then show ?thesis unfolding valid_slot_def by blast
  qed (use j in \<open>simp add: A(13)\<close>)
next
  note A = appends_blockD [OF a]
  assume r: "valid_slot db s \<or> GetBlock s = b \<and> GetOffset s < num_slots (table_layout table')"
  show "valid_slot db' s"
  proof (cases "valid_slot db s")
    case True
    then obtain j where j: "GetBlock s \<in> set (blocks (tables db j))" "GetOffset s < num_slots (table_layout (tables db j))"
      by (auto simp: valid_slot_def)
    then show ?thesis unfolding valid_slot_def using A(2,7) by (intro exI [of _ j]) (auto simp: A(13))
  next
    case False
    then have "GetBlock s = b" "GetOffset s < num_slots (table_layout table')" using r by blast+
    then show ?thesis unfolding valid_slot_def using A(2) by (intro exI [of _ i]) (simp add: A(13))
  qed
qed

text \<open>The slots of the new block are free; all others are as before.\<close>

lemma append_slots:
  assumes inv: "blocks_inv db" and a: "appends_block db i b table' bs' db'"
  shows "valid_slot db s \<Longrightarrow> GetBlock s \<noteq> b"
    and "x \<noteq> b \<Longrightarrow> memory (store db') x = memory (store db) x"
    and "GetBlock s \<noteq> b \<Longrightarrow> same_slot (store db) (store db') s"
    and "insert_head (memory (store db') b) = 0"
    and "GetBlock s = b \<Longrightarrow> GetOffset s < num_slots (table_layout table') \<Longrightarrow>
      \<not> Allocated (memory (store db')) s \<and> IsNull (memory (store db')) s VERSION_POINTER_COLUMN_ID
      \<and> AtomicallyReadVersionPtr (memory (store db')) s = None"
proof -
  note A = appends_blockD [OF a]
  show "valid_slot db s \<Longrightarrow> GetBlock s \<noteq> b" using BlockStore_Get_new(2) [OF inv A(1)] by (auto simp: valid_slot_def)
  show mem: "x \<noteq> b \<Longrightarrow> memory (store db') x = memory (store db) x" for x by (simp add: A(15))
  show "GetBlock s \<noteq> b \<Longrightarrow> same_slot (store db) (store db') s"
    using mem [of "GetBlock s"] by (simp add: same_slot_def observe_defs attrs_def fun_eq_iff)
  show "insert_head (memory (store db') b) = 0" by (simp add: A(15) InitializeRawBlock_def)
  show "GetBlock s = b \<Longrightarrow> GetOffset s < num_slots (table_layout table') \<Longrightarrow>
      \<not> Allocated (memory (store db')) s \<and> IsNull (memory (store db')) s VERSION_POINTER_COLUMN_ID
      \<and> AtomicallyReadVersionPtr (memory (store db')) s = None"
    by (simp add: A(15) observe_defs InitializeRawBlock_def slot_index_def word_less_nat_alt bitmap_simps)
qed

lemma append_blocks:
  assumes inv: "blocks_inv db" and a: "appends_block db i b table' bs' db'"
  shows "blocks_inv db'"
proof -
  let ?m = "memory (store db)" and ?m' = "memory (store db')" and ?L = "table_layout table'"
  note A = appends_blockD [OF a]
  note N = BlockStore_Get_new [OF inv A(1)] and B = inv [unfolded blocks_inv_def] and S = append_slots [OF inv a]
  have "table_inv db' j" for j
  proof (cases "j = i")
    case True
    have "idle (?m' x) \<and> insert_head (?m' x) \<le> num_slots ?L \<and> slot_asserts x 0 \<and> hot (?m' x)" if x: "x \<in> set (blocks table')" for x
    proof (cases "x = b")
      case True
      then show ?thesis using N(1) S(4) by (simp add: idle_def ClearBit_def A(15) hot_def InitializeRawBlock_def Initialize_controller_def)
    next
      case False
      then have "x \<in> set (blocks (tables db i))" using x A(2) by auto
      moreover from this have "table_inv db i" "?L = table_layout (tables db i)" using B A(7) by auto
      ultimately show ?thesis using S(2) [OF False] by (auto simp: table_inv_def heads_ok_def)
    qed
    then show ?thesis using True A(2-6) by (simp add: table_inv_def heads_ok_def A(13))
  next
    case False
    have "table_inv db j" using B by blast
    moreover have "?m' x = ?m x" if "x \<in> set (blocks (tables db j))" for x
    proof (rule S(2))
      show "x \<noteq> b" using that N(2) [of j] by blast
    qed
    ultimately show ?thesis using False by (simp add: table_inv_def heads_ok_def A(13))
  qed
  moreover have "set (blocks (tables db' j)) \<inter> set (blocks (tables db' k)) = {}" if "j \<noteq> k" for j k
  proof -
    have "set (blocks (tables db j)) \<inter> set (blocks (tables db k)) = {}" using B that by blast
    then show ?thesis using that A(2) N(2) [of j] N(2) [of k] by (cases "j = i"; cases "k = i") (simp_all add: A(13))
  qed
  moreover have "slot_asserts x 0 \<and> (\<forall>j. x \<notin> set (blocks (tables db' j)))" if "x \<in> set (reuse_queue (block_pool bs'))" for x
  proof -
    have "x \<noteq> b" "x \<in> set (reuse_queue (block_pool (block_store db)))" using that N(4,5) by auto
    then show ?thesis using B A(2) by (auto simp: A(13))
  qed
  moreover have "slot_asserts x 0 \<and> x \<notin> set (reuse_queue (block_pool bs')) \<and> (\<forall>j. x \<notin> set (blocks (tables db' j)))
      \<and> (\<forall>m > n. fresh bs' m \<noteq> Some x)" if n: "new_calls bs' \<le> n" "fresh bs' n = Some x" for n x
  proof -
    have "x \<noteq> b" using N(8) [OF n(1)] n(2) by auto
    moreover have "slot_asserts x 0 \<and> x \<notin> set (reuse_queue (block_pool (block_store db)))
        \<and> (\<forall>j. x \<notin> set (blocks (tables db j))) \<and> (\<forall>m > n. fresh (block_store db) m \<noteq> Some x)"
      using B order_trans [OF N(7) n(1)] n(2) N(6) by metis
    ultimately show ?thesis using N(5,6) A(2) by (auto simp: A(13))
  qed
  ultimately show ?thesis unfolding blocks_inv_def A(14) using N(3) by blast
qed

definition append_chains :: "u64 \<Rightarrow> (TupleSlot \<Rightarrow> nat list) \<Rightarrow> TupleSlot \<Rightarrow> nat list" where
  "append_chains b C s = (if GetBlock s = b then [] else C s)"

lemma append_block_inv:
  assumes inv: "db_inv gc db C" and a: "appends_block db i b table' bs' db'"
  shows "db_inv gc db' (append_chains b C)"
proof -
  let ?C = "append_chains b C" and ?m' = "memory (store db')"
  note A = appends_blockD [OF a] and S = append_slots [OF inv_parts(1) [OF inv] a] and vs = append_valid [OF a]
  have C: "?C s = C s" if "valid_slot db s" for s using S(1) [OF that] by (simp add: append_chains_def)
  have "slot_inv (store db') s (?C s) \<and> (\<forall>q \<in> set (?C s). \<exists>t c. contexts db' t = Some c \<and> q \<in> set (undo_buffer c))
      \<and> (insert_head (?m' (GetBlock s)) \<le> GetOffset s \<longrightarrow>
          \<not> Allocated ?m' s \<and> IsNull ?m' s VERSION_POINTER_COLUMN_ID \<and> ?C s = [])" if v: "valid_slot db' s" for s
  proof (cases "valid_slot db s")
    case True
    note I = inv_slot [OF inv True] and same = S(3) [OF S(1) [OF True]]
    have "slot_inv (store db') s (C s)" by (rule slot_inv_cong [OF I(1) same]) (simp_all add: A(8,9))
    then show ?thesis using I(2,3) same S(2) [OF S(1) [OF True]] C [OF True] by (simp add: A(10) same_slot_def)
  next
    case False
    then have s: "GetBlock s = b" "GetOffset s < num_slots (table_layout table')" using v vs by auto
    then show ?thesis using S(5) [OF s] by (simp add: append_chains_def slot_inv_def slot_chain_def)
  qed
  then have "chains_inv db' ?C" by (simp add: chains_inv_def)
  moreover have "records_inv db' ?C t c" if c: "contexts db t = Some c" for t c
  proof (rule records_inv_frame [OF inv_context(2) [OF inv c] same_ctx_refl])
    fix p
    show "installed db C p \<Longrightarrow> installed db' ?C p" using vs C by (auto simp: installed_def Let_def A(8))
    assume d: "deletes db C p"
    let ?s = "rec_slot (undo_recs (store db) p)"
    have v: "valid_slot db ?s" using d by (simp add: deletes_def Let_def)
    show "deletes db' ?C p"
      using d S(3) [OF S(1) [OF v]] S(2) [OF S(1) [OF v]] C [OF v] vs v by (simp add: deletes_def Let_def A(8) same_slot_def)
  qed (simp_all add: A(8,9) vs)
  then have "contexts_inv db' ?C" using inv_parts(3) [OF inv] unfolding contexts_inv_def A(10,11) by blast
  moreover have "queues_inv gc db' ?C"
  proof -
    have "set xs \<inter> set (?C s) = {}" if "valid_slot db' s" "\<forall>s. valid_slot db s \<longrightarrow> set xs \<inter> set (C s) = {}" for s xs
      using that C vs by (cases "valid_slot db s") (auto simp: append_chains_def)
    then show ?thesis using inv_parts(4) [OF inv] unfolding queues_inv_def A(10,12) by blast
  qed
  ultimately show ?thesis using append_blocks [OF inv_parts(1) [OF inv] a] by (simp add: db_inv_def)
qed

lemma append_block_abs:
  assumes inv: "db_inv gc db C" and a: "appends_block db i b table' bs' db'"
  shows "si_abs db' (append_chains b C) = si_abs db C"
proof -
  let ?C = "append_chains b C"
  note A = appends_blockD [OF a] and S = append_slots [OF inv_parts(1) [OF inv] a] and vs = append_valid [OF a]
  have C: "?C s = C s" if "valid_slot db s" for s using S(1) [OF that] by (simp add: append_chains_def)
  have "seen db' ?C t s = seen db C t s \<and> (if valid_slot db' s then committed_row s (?C s) (store db') else None)
      = (if valid_slot db s then committed_row s (C s) (store db) else None)" for t s
  proof (cases "valid_slot db s")
    case True
    note same = S(3) [OF S(1) [OF True]]
    show ?thesis
      using True seen_frame [OF same, of ?C C t] committed_frame [OF same, of ?C C] C [OF True] vs by (simp add: A(8))
  next
    case False
    then show ?thesis using S(5) [of s] vs by (simp add: seen_def committed_row_def row_of_def)
  qed
  moreover have "written db' t = written db t" "active db' t = active db t" for t
    by (simp_all add: written_def active_def A(8,10))
  moreover have "overtaken db' ?C t s = overtaken db C t s" for t s
    using vs C [of s] by (cases "valid_slot db s") (auto simp: overtaken_def append_chains_def A(10))
  ultimately show ?thesis unfolding si_abs_def by (simp add: fun_eq_iff) auto
qed

section \<open>Insert\<close>

lemma move_head:
  assumes inv: "db_inv gc db C" and k: "k < length (blocks (tables db i))"
  defines "db' \<equiv> db\<lparr>tables := (tables db)(i := (tables db i)\<lparr>insertion_head := k\<rparr>)\<rparr>"
  shows "db_inv gc db' C" and "si_abs db' C = si_abs db C"
proof -
  have b: "blocks (tables db' j) = blocks (tables db j)" "table_layout (tables db' j) = table_layout (tables db j)"
      "table_id (tables db' j) = table_id (tables db j)" for j
    by (simp_all add: db'_def)
  have st: "store db' = store db" "block_store db' = block_store db" "contexts db' = contexts db"
      "ts_manager db' = ts_manager db" "completed_txns db' = completed_txns db"
    by (simp_all add: db'_def)
  have v: "valid_slot db' = valid_slot db" by (simp add: valid_slot_def b fun_eq_iff)
  have "table_inv db' j" for j
    using inv_parts(1) [OF inv] k by (cases "j = i") (auto simp: blocks_inv_def table_inv_def heads_ok_def db'_def)
  then have "blocks_inv db'" using inv_parts(1) [OF inv] by (simp add: blocks_inv_def b st)
  moreover have "chains_inv db' C" using inv_parts(2) [OF inv] by (simp add: chains_inv_def v st)
  moreover have "contexts_inv db' C"
    using inv_parts(3) [OF inv] by (simp add: contexts_inv_def records_inv_def installed_def deletes_def v st)
  moreover have "queues_inv gc db' C" using inv_parts(4) [OF inv] by (simp add: queues_inv_def v st)
  ultimately show "db_inv gc db' C" by (simp add: db_inv_def)
  have "active db' = active db" "written db' = written db" "seen db' = seen db" "overtaken db' = overtaken db"
    by (simp_all add: active_def written_def seen_def overtaken_def v st fun_eq_iff)
  then show "si_abs db' C = si_abs db C" by (auto simp: si_abs_def v st fun_eq_iff)
qed

lemma grow_inv:
  assumes inv: "db_inv gc db C" and ne: "blocks (tables db i) \<noteq> []"
    and g: "grows (tables db i) (block_store db) (memory (store db)) b table' bs' mem"
    and h: "insertion_head table' < length (blocks table')"
  defines "db' \<equiv> db\<lparr>tables := (tables db)(i := table'), block_store := bs', store := (store db)\<lparr>memory := mem\<rparr>\<rparr>"
  shows "\<exists>C'. db_inv gc db' C' \<and> si_abs db' C' = si_abs db C"
proof -
  have ti: "table_id (tables db i) = i" "0 < unat (num_slots (table_layout (tables db i)))"
      "unat (num_slots (table_layout (tables db i))) \<le> BLOCK_SIZE"
    using inv_parts(1) [OF inv] ne by (auto simp: blocks_inv_def table_inv_def heads_ok_def)
  show ?thesis
    using g unfolding grows_def
  proof (elim disjE exE conjE)
    fix k assume e: "table' = (tables db i)\<lparr>insertion_head := k\<rparr>" "bs' = block_store db" "mem = memory (store db)"
    then have "db' = db\<lparr>tables := (tables db)(i := (tables db i)\<lparr>insertion_head := k\<rparr>)\<rparr>" by (simp add: db'_def)
    then show ?thesis using move_head [OF inv, of k i] h e by auto
  next
    fix k assume e: "BlockStore_Get (block_store db) = Inr (b, bs')"
      "table' = (tables db i)\<lparr>blocks := blocks (tables db i) @ [b], insertion_head := k\<rparr>" "mem = add_block (tables db i) b (memory (store db))"
    then have "appends_block db i b table' bs' db'"
      using h ti by (simp add: appends_block_def db'_def add_block_def)
    then show ?thesis using append_block_inv [OF inv] append_block_abs [OF inv] by blast
  qed
qed

lemma insert_writes:
  assumes inv: "db_inv gc db C" and mw: "may_write db t c" and row: "good_row delta"
    and b: "b \<in> set (blocks (tables db i))"
    and free: "insert_head (memory (store db) b) < num_slots (table_layout (tables db i))"
  defines "slot \<equiv> head_slot (memory (store db)) b"
  defines "db1 \<equiv> db\<lparr>store := (store db)\<lparr>memory := take_slot b (memory (store db))\<rparr>\<rparr>"
  assumes ins: "InsertInto (tables db i) delta slot c (store db1) = (c', st')"
    and c'': "same_ctx c' c''" "must_abort c'' = must_abort c'" and db': "db' = db1\<lparr>contexts := (contexts db)(t \<mapsto> c''), store := st'\<rparr>"
  shows "\<exists>C'. db_inv gc db' C' \<and> si_step (si_abs db C) (Inserted t slot delta) (si_abs db' C')"
proof -
  have M: "contexts db t = Some c" "finish_time c = txn_id t" "\<not> must_abort c" using mw by (simp_all add: may_write_def)
  note T = take_inv [OF inv b free, folded slot_def, folded db1_def]
  have tb: "tables db1 = tables db" "contexts db1 = contexts db" "undo_recs (store db1) = undo_recs (store db)" by (simp_all add: db1_def)
  have v: "valid_slot db1 slot" using T(3) valid_slot_cong [OF tb(1)] by simp
  have "AtomicallyReadVersionPtr (memory (store db1)) slot = None"
    using slot_pointer(1) [OF T(1) v] T(6) by simp
  then obtain r where r: "pushes (store db1) st' slot r (True, overwrite (attrs (memory (store db1)) slot) delta)"
      "rec_type r = INSERT" "rec_timestamp r = finish_time c" "rec_table r = Some (table_id (tables db i))"
      "c' = push_undo (undo_next (store db1)) c"
    using InsertInto_effect [OF ins _ _ T(9)] row by (auto simp: good_row_def sorted_row_def strict_sorted_iff)
  let ?row = "overwrite (attrs (memory (store db1)) slot) delta"
  have nodel: "rec_slot (undo_recs (store db) q) \<noteq> slot"
    if q: "contexts db u = Some d" "q \<in> set (undo_buffer d)" "\<not> aborted d"
      "rec_table (undo_recs (store db) q) \<noteq> None" "rec_type (undo_recs (store db) q) = DELETE" for u d q
  proof
    assume "rec_slot (undo_recs (store db) q) = slot"
    moreover have "deletes db C q" using inv_context(2) [OF inv q(1)] q by (simp add: records_inv_def)
    ultimately show False using T(7,8) by (simp add: deletes_def)
  qed
  have w: "writes_slot gc db1 C t c slot r (True, ?row) db'"
    unfolding writes_slot_def tb
    using T(1,6,11) M v r nodel c'' by (auto simp: db' db1_def update_ok_def pushes_record_def same_ctx_def)
  have dead: "row_of True (undo_value r (True, ?row)) = row_of (Allocated (memory (store db1)) slot) (current_value (memory (store db1)) slot)"
    using T(10) r(2) by (simp add: row_of_def undo_value_def current_value_def Visible_def)
  note A = push_abs [OF w dead] and nil = T(6)
  have "row_of (Allocated (memory (store db1)) slot) (current_value (memory (store db1)) slot) = None"
    using T(10) by (simp add: row_of_def current_value_def Visible_def)
  moreover have "has_columns delta ?row"
    by (simp add: has_columns_def overwrite_def)
  ultimately have "si_step (si_abs db1 C) (Inserted t slot delta) (si_write t slot (Some ?row) (si_abs db1 C))"
    using si_insert [OF A(3) _ A(2)] A(4) nil by simp
  then show ?thesis using push_inv [OF w] A(1) nil T(2) by (auto simp: row_of_def)
qed

lemma Insert_step:
  assumes inv: "db_inv gc db C" and mw: "may_write db t c" and row: "good_row delta" and ne: "blocks (tables db i) \<noteq> []"
    and ins: "SqlTable_Insert asserts i t delta db = Some (Inr (slot, db'))"
  shows "\<exists>C'. db_inv gc db' C' \<and> si_step (si_abs db C) (Inserted t slot delta) (si_abs db' C')"
proof -
  have M: "contexts db t = Some c" using mw by (simp add: may_write_def)
  have T: "heads_ok (tables db i) (memory (store db))" "insertion_head (tables db i) < length (blocks (tables db i))"
    using inv_parts(1) [OF inv] ne by (auto simp: blocks_inv_def table_inv_def)
  obtain c' table' bs' st' where I: "Insert asserts delta c (tables db i) (block_store db) (store db) = Some (Inr (slot, c', table', bs', st'))"
      and db': "db' = db\<lparr>contexts := (contexts db)(t \<mapsto> c'\<lparr>redo_buffer := set_last_slot slot (redo_buffer c')\<rparr>),
        tables := (tables db)(i := table'), block_store := bs', store := st'\<rparr>"
    using ins M by (auto simp: SqlTable_Insert_def Let_def split: option.splits sum.splits prod.splits)
  obtain b mem where g: "grows (tables db i) (block_store db) (memory (store db)) b table' bs' mem"
      "b \<in> set (blocks table')" "insertion_head table' < length (blocks table')"
      "insert_head (mem b) < num_slots (table_layout (tables db i))" "slot = make_TupleSlot b (insert_head (mem b))"
      "InsertInto table' delta slot c ((store db)\<lparr>memory := take_slot b mem\<rparr>) = (c', st')"
    using Insert_runs [OF T, of asserts delta c "block_store db"] I by auto
  let ?db = "db\<lparr>tables := (tables db)(i := table'), block_store := bs', store := (store db)\<lparr>memory := mem\<rparr>\<rparr>"
  obtain C1 where C1: "db_inv gc ?db C1" "si_abs ?db C1 = si_abs db C" using grow_inv [OF inv ne g(1,3)] by blast
  have lay: "table_layout table' = table_layout (tables db i)" using g(1) by (auto simp: grows_def)
  have "\<exists>C'. db_inv gc db' C' \<and> si_step (si_abs ?db C1) (Inserted t (head_slot (memory (store ?db)) b) delta) (si_abs db' C')"
  proof (rule insert_writes [OF C1(1), where c = c and i = i and c'' = "c'\<lparr>redo_buffer := set_last_slot slot (redo_buffer c')\<rparr>" and c' = c' and st' = st'])
    show "may_write ?db t c" using mw by (simp add: may_write_def)
    show "InsertInto (tables ?db i) delta (head_slot (memory (store ?db)) b) c
        (store (?db\<lparr>store := (store ?db)\<lparr>memory := take_slot b (memory (store ?db))\<rparr>\<rparr>)) = (c', st')"
      using g(5,6) by (simp add: head_slot_def)
  qed (use row g(2,4) lay db' in \<open>simp_all add: same_ctx_def\<close>)
  then show ?thesis using C1(2) g(5) by (simp add: head_slot_def)
qed

lemma Insert_total:
  assumes inv: "db_inv gc db C" and mw: "may_write db t c" and ne: "blocks (tables db i) \<noteq> []"
  shows "case free_blocks (tables db i) (memory (store db)) of
      b # _ \<Rightarrow> \<exists>db'. SqlTable_Insert asserts i t delta db = Some (Inr (make_TupleSlot b (insert_head (memory (store db) b)), db'))
        \<and> blocks (tables db' i) = blocks (tables db i) \<and> block_store db' = block_store db
    | [] \<Rightarrow> (case BlockStore_Get (block_store db) of
        Inl e \<Rightarrow> SqlTable_Insert asserts i t delta db = Some (Inl e)
      | Inr (b, bs) \<Rightarrow> \<exists>db'. SqlTable_Insert asserts i t delta db = Some (Inr (make_TupleSlot b 0, db'))
          \<and> blocks (tables db' i) = blocks (tables db i) @ [b] \<and> block_store db' = bs)"
proof -
  have "heads_ok (tables db i) (memory (store db))" "insertion_head (tables db i) < length (blocks (tables db i))"
    using inv_parts(1) [OF inv] ne by (auto simp: blocks_inv_def table_inv_def)
  from Insert_picks [OF this, of asserts delta "the (contexts db t)" "block_store db"] show ?thesis
    by (fastforce simp: SqlTable_Insert_def Let_def split: list.splits sum.splits prod.splits)
qed

section \<open>New tables\<close>

lemma CreateTable_step:
  assumes inv: "db_inv gc db C" and new: "blocks (tables db i) = []"
    and lay: "0 < unat (num_slots layout)" "unat (num_slots layout) \<le> BLOCK_SIZE"
    and cr: "CreateTable i layout version db = Inr db'"
  shows "\<exists>C'. db_inv gc db' C' \<and> si_abs db' C' = si_abs db C"
proof -
  let ?t = "\<lparr>table_id = i, table_layout = layout, table_layout_version = version, blocks = [], insertion_head = 0\<rparr>"
  obtain b bs' where g: "BlockStore_Get (block_store db) = Inr (b, bs')"
      and db': "db' = db\<lparr>tables := (tables db)(i := ?t\<lparr>blocks := [b]\<rparr>), block_store := bs',
        store := (store db)\<lparr>memory := (memory (store db))(b := InitializeRawBlock layout i (memory (store db) b) version)\<rparr>\<rparr>"
    using cr by (auto simp: CreateTable_def make_DataTable_def NewBlock_def Let_def split: sum.splits prod.splits)
  have "appends_block db i b (?t\<lparr>blocks := [b]\<rparr>) bs' db'"
    using g new lay by (simp add: appends_block_def db')
  then show ?thesis using append_block_inv [OF inv] append_block_abs [OF inv] by blast
qed

end
