(* ===== verification/Engine.thy ===== *)
theory Engine
  imports DatabaseGC DatabaseInsert
begin

text \<open>
  The calls that clients, the garbage collector and the log make on the shared state, in any order,
  as one step relation. Every step is simulated by the machine of the theory \<open>SnapshotIsolation\<close>, so
  the relation interprets the locale of that theory.
\<close>

section \<open>The initial state\<close>

text \<open>
  What the block store may assume of the allocator: every block it returns is aligned and is returned
  once. Nothing was released yet.
\<close>

definition allocator_ok :: "BlockStore \<Rightarrow> bool" where
  "allocator_ok bs \<longleftrightarrow>
     reuse_queue (block_pool bs) = []
     \<and> (\<forall>n b. new_calls bs \<le> n \<longrightarrow> fresh bs n = Some b \<longrightarrow>
          slot_asserts b 0 \<and> (\<forall>m > n. fresh bs m \<noteq> Some b))"

text \<open>A table identifier that is not in use.\<close>

definition no_table :: "nat \<Rightarrow> DataTable" where
  "no_table i =
     \<lparr>table_id = i,
      table_layout = \<lparr>attr_sizes = [], varlens = [], tuple_size = 0, static_header_size = 0, num_slots = 0, header_size = 0\<rparr>,
      table_layout_version = 0, blocks = [], insertion_head = 0\<rparr>"

definition init_database :: "BlockStore \<Rightarrow> storage \<Rightarrow> bool \<Rightarrow> bool \<Rightarrow> database" where
  "init_database bs st log gc =
     \<lparr>ts_manager = init_TimestampManager, contexts = (\<lambda>_. None), store = st, tables = no_table, block_store = bs,
      completed_txns = [], deferred = init_DeferredActionManager, log_queue = [], callbacks = [],
      log_enabled = log, gc_enabled = gc\<rparr>"

section \<open>Steps\<close>

type_synonym engine = "GarbageCollector \<times> database"

text \<open>The clock has \<open>n\<close> timestamps left before it reaches those of uncommitted transactions.\<close>

definition clock_left :: "nat \<Rightarrow> database \<Rightarrow> bool" where
  "clock_left n db \<longleftrightarrow> unat (time (ts_manager db)) + n < 2 ^ 63"

text \<open>
  A client calls the operations of a transaction that is running and writes only while it is not
  marked to abort; the rows it passes have sorted columns without the version pointer, and the slots
  it passes belong to a table. The log removes finished transactions from the running ones.
\<close>

inductive engine_step ::
  "bool \<Rightarrow> (deferred_action \<Rightarrow> timestamp \<Rightarrow> deferred_action list) \<Rightarrow> engine \<Rightarrow> event \<Rightarrow> engine \<Rightarrow> bool"
  for asserts exec where
  engine_begin: "BeginTransaction db = (t, db') \<Longrightarrow> clock_left 1 db \<Longrightarrow>
     engine_step asserts exec (gc, db) (Begin t) (gc, db')"
| engine_stage_write: "active db t \<Longrightarrow>
     engine_step asserts exec (gc, db) Internal (gc, stage (StageWrite (log_enabled db) d tb slot delta) t db)"
| engine_stage_delete: "active db t \<Longrightarrow>
     engine_step asserts exec (gc, db) Internal (gc, stage (StageDelete (log_enabled db) d tb slot) t db)"
| engine_commit_action: "active db t \<Longrightarrow>
     engine_step asserts exec (gc, db) Internal (gc, stage (\<lambda>txn q. (RegisterCommitAction act txn, q)) t db)"
| engine_abort_action: "active db t \<Longrightarrow>
     engine_step asserts exec (gc, db) Internal (gc, stage (\<lambda>txn q. (RegisterAbortAction act txn, q)) t db)"
| engine_must_abort: "active db t \<Longrightarrow>
     engine_step asserts exec (gc, db) Internal (gc, stage (\<lambda>txn q. (SetMustAbort txn, q)) t db)"
| engine_update: "may_write db t c \<Longrightarrow> valid_slot db slot \<Longrightarrow> good_row delta \<Longrightarrow>
     SqlTable_Update i t slot delta db = Some (True, db') \<Longrightarrow>
     engine_step asserts exec (gc, db) (Updated t slot delta) (gc, db')"
| engine_update_fails: "may_write db t c \<Longrightarrow> valid_slot db slot \<Longrightarrow> good_row delta \<Longrightarrow>
     SqlTable_Update i t slot delta db = Some (False, db') \<Longrightarrow>
     engine_step asserts exec (gc, db) Internal (gc, db')"
| engine_insert: "may_write db t c \<Longrightarrow> good_row delta \<Longrightarrow> blocks (tables db i) \<noteq> [] \<Longrightarrow>
     SqlTable_Insert asserts i t delta db = Some (Inr (slot, db')) \<Longrightarrow>
     engine_step asserts exec (gc, db) (Inserted t slot delta) (gc, db')"
| engine_delete: "may_write db t c \<Longrightarrow> valid_slot db slot \<Longrightarrow>
     SqlTable_Delete i t slot db = Some (True, db') \<Longrightarrow>
     engine_step asserts exec (gc, db) (Deleted t slot) (gc, db')"
| engine_delete_fails: "may_write db t c \<Longrightarrow> valid_slot db slot \<Longrightarrow>
     SqlTable_Delete i t slot db = Some (False, db') \<Longrightarrow>
     engine_step asserts exec (gc, db) Internal (gc, db')"
| engine_commit: "may_write db t c \<Longrightarrow> clock_left 1 db \<Longrightarrow> Commit t db = (ts, db') \<Longrightarrow>
     engine_step asserts exec (gc, db) (Committed_txn t) (gc, db')"
| engine_abort: "active db t \<Longrightarrow> clock_left 1 db \<Longrightarrow> Abort t db = Some (ts, db') \<Longrightarrow>
     engine_step asserts exec (gc, db) (Aborted_txn t) (gc, db')"
| engine_collect: "clock_left 2 db \<Longrightarrow> PerformGarbageCollection exec (gc, db) = Some (n, gc', db') \<Longrightarrow>
     engine_step asserts exec (gc, db) Internal (gc', db')"
| engine_logged: "(\<And>t. t \<in> set ts \<Longrightarrow> \<not> active db t) \<Longrightarrow>
     engine_step asserts exec (gc, db) Internal
       (gc, db\<lparr>ts_manager := RemoveTransactions ts (ts_manager db), log_queue := q, callbacks := cbs\<rparr>)"
| engine_create: "blocks (tables db i) = [] \<Longrightarrow> 0 < unat (num_slots layout) \<Longrightarrow> unat (num_slots layout) \<le> BLOCK_SIZE \<Longrightarrow>
     CreateTable i layout version db = Inr db' \<Longrightarrow>
     engine_step asserts exec (gc, db) Internal (gc, db')"
| engine_register_index: "RegisterIndexForGC x gc = Some gc' \<Longrightarrow> engine_step asserts exec (gc, db) Internal (gc', db)"
| engine_unregister_index: "UnregisterIndexForGC x gc = Some gc' \<Longrightarrow> engine_step asserts exec (gc, db) Internal (gc', db)"

text \<open>A read of a running transaction and what it returns.\<close>

definition engine_reads :: "engine \<Rightarrow> timestamp \<Rightarrow> TupleSlot \<Rightarrow> col_id list \<Rightarrow> bytes option list option \<Rightarrow> bool" where
  "engine_reads s t slot cols r \<longleftrightarrow>
     active (snd s) t \<and> valid_slot (snd s) slot
     \<and> (\<exists>out. good_row out \<and> col_ids out = cols
          \<and> map_option row_result (SqlTable_Select t slot out (snd s)) = Some r)"

definition engine_refines :: "engine \<Rightarrow> si_state \<Rightarrow> bool" where
  "engine_refines s a \<longleftrightarrow> (\<exists>C. db_inv (fst s) (snd s) C \<and> a = si_abs (snd s) C)"

section \<open>Reads\<close>

lemma Select_seen:
  assumes inv: "db_inv gc db C" and t: "active db t" and v: "valid_slot db slot" and o: "good_row out"
  shows "map_option row_result (SqlTable_Select t slot out db) = Some (map_option (\<lambda>row. map row (col_ids out)) (seen db C t slot))"
proof -
  obtain c where c: "contexts db t = Some c" "finish_time c = txn_id t" using t by (auto simp: active_def)
  have st: "start_time c = t" using inv_context(1) [OF inv c(1)] by (simp add: times_inv_def)
  have ch: "slot_chain (store db) slot (C slot)" using inv_slot(1) [OF inv v] by (simp add: slot_inv_def)
  have "sorted_deltas (map (undo_recs (store db)) (C slot))"
    using inv_linked(4) [OF inv v] by (auto simp: sorted_deltas_def update_ok_def)
  moreover have "tuple_seen c slot (C slot) (store db) = seen db C t slot"
    using v c(2) st by (simp add: tuple_seen_def seen_def row_of_def Let_def)
  ultimately show ?thesis
    using Select_tuple_seen [OF ch, of out c] o c(1) by (simp add: SqlTable_Select_def good_row_def)
qed

lemma engine_reads_total:
  assumes "engine_refines s a" and "active (snd s) t" and "valid_slot (snd s) slot" and "good_row out"
  shows "\<exists>r. engine_reads s t slot (col_ids out) r"
proof -
  obtain C where "db_inv (fst s) (snd s) C" using assms(1) by (auto simp: engine_refines_def)
  from Select_seen [OF this assms(2-4)] show ?thesis using assms(2-4) unfolding engine_reads_def by blast
qed

lemma engine_init_refines:
  assumes "allocator_ok bs"
  shows "engine_refines (init_GarbageCollector, init_database bs st log gc) si_init"
proof -
  let ?db = "init_database bs st log gc"
  have e: "blocks (tables ?db i) = []" "contexts ?db t = None" for i t
    by (simp_all add: init_database_def no_table_def)
  then have nv: "\<not> valid_slot ?db s" for s by (simp add: valid_slot_def)
  have "blocks_inv ?db"
    using assms by (simp add: blocks_inv_def table_inv_def init_database_def no_table_def allocator_ok_def)
  moreover have "chains_inv ?db (\<lambda>_. [])" using nv by (simp add: chains_inv_def)
  moreover have "contexts_inv ?db (\<lambda>_. [])"
    by (simp add: contexts_inv_def init_database_def init_TimestampManager_def INITIAL_TXN_TIMESTAMP_def Committed_iff)
  moreover have "queues_inv init_GarbageCollector ?db (\<lambda>_. [])"
    by (simp add: queues_inv_def init_database_def init_GarbageCollector_def)
  ultimately have "db_inv init_GarbageCollector ?db (\<lambda>_. [])" by (simp add: db_inv_def)
  moreover have "si_abs ?db (\<lambda>_. []) = si_init"
    using nv e by (simp add: si_abs_def si_init_def active_def fun_eq_iff)
  ultimately show ?thesis unfolding engine_refines_def by (metis fst_conv snd_conv)
qed

section \<open>Simulation\<close>

lemma clock_left_committed:
  "clock_left 1 db \<Longrightarrow> Committed (time (ts_manager db) + 1)"
  "clock_left 2 db \<Longrightarrow> Committed (time (ts_manager db) + 1) \<and> Committed (time (ts_manager db) + 1 + 1)"
  by (simp_all add: clock_left_def Committed_iff unat_word_ariths)

lemma stage_step:
  assumes inv: "db_inv gc db C" and t: "active db t" and f: "\<And>txn q. same_ctx txn (fst (f txn q))"
  shows "db_inv gc (stage f t db) C" and "si_abs (stage f t db) C = si_abs db C"
proof -
  obtain c where c: "contexts db t = Some c" using t by (auto simp: active_def)
  obtain c' q where f': "f c (log_queue db) = (c', q)" by fastforce
  then have "same_ctx c c'" using f [of c "log_queue db"] by simp
  then have r: "rel_option same_ctx (contexts db u) (contexts (stage f t db) u)" for u
    using c f' by (cases "contexts db u") (auto simp: stage_def)
  have st: "store (stage f t db) = store db" "tables (stage f t db) = tables db" "block_store (stage f t db) = block_store db"
      "completed_txns (stage f t db) = completed_txns db" "ts_manager (stage f t db) = ts_manager db"
    using c f' by (simp_all add: stage_def)
  have "u \<in> set (curr_running_txns (ts_manager db))" if "active db u" for u
    using inv_context [OF inv] txn_id_uncommitted that by (fastforce simp: active_def times_inv_def)
  then show "db_inv gc (stage f t db) C" and "si_abs (stage f t db) C = si_abs db C"
    using same_ctx_frame [OF inv st(1-4) r] inv_parts(3) [OF inv] st(5) by (auto simp: contexts_inv_def)
qed

lemma logged_step:
  assumes inv: "db_inv gc db C" and ts: "\<And>t. t \<in> set ts \<Longrightarrow> \<not> active db t"
    and db': "db' = db\<lparr>ts_manager := RemoveTransactions ts (ts_manager db), log_queue := q, callbacks := cbs\<rparr>"
  shows "db_inv gc db' C" and "si_abs db' C = si_abs db C"
proof -
  note tm = RemoveTransactions_running
  have "u \<in> set (curr_running_txns (ts_manager db))" if "active db u" for u
    using inv_context [OF inv] txn_id_uncommitted that by (fastforce simp: active_def times_inv_def)
  then have run: "u \<in> set (curr_running_txns (ts_manager db'))" if "active db u" for u
    using that ts tm(3) [of u "ts_manager db" ts] by (simp add: db') blast
  have "\<forall>u \<in> set (curr_running_txns (ts_manager db')). u < time (ts_manager db')"
    using inv_parts(3) [OF inv] tm(2) unfolding db' by (auto simp: contexts_inv_def tm(1))
  then show "db_inv gc db' C" and "si_abs db' C = si_abs db C"
    using same_ctx_frame [OF inv, of db'] run inv_parts(3) [OF inv] by (auto simp: contexts_inv_def db' tm(1))
qed

lemma stage_calls:
  "same_ctx txn (fst (StageWrite l d tb slot delta txn q))"
  "same_ctx txn (fst (StageDelete l d tb slot txn q))"
  "same_ctx txn (RegisterCommitAction act txn)"
  "same_ctx txn (RegisterAbortAction act txn)"
  "same_ctx txn (SetMustAbort txn)"
  by (simp_all add: same_ctx_def StageWrite_def StageDelete_def RegisterCommitAction_def RegisterAbortAction_def
      SetMustAbort_def split: prod.splits)

lemma engine_simulation:
  assumes "engine_refines s a" and "engine_step asserts exec s e s'"
  shows "\<exists>a'. si_step a e a' \<and> engine_refines s' a'"
proof -
  obtain C where C: "db_inv (fst s) (snd s) C" "a = si_abs (snd s) C" using assms(1) by (auto simp: engine_refines_def)
  have step: ?thesis if "db_inv (fst s') (snd s') C'" "si_step (si_abs (snd s) C) e (si_abs (snd s') C')" for C'
    using that C(2) by (auto simp: engine_refines_def)
  have quiet: ?thesis if "e = Internal" "db_inv (fst s') (snd s') C'" "si_abs (snd s') C' = si_abs (snd s) C" for C'
    using step [OF that(2)] that(1,3) si_internal by simp
  have staged: ?thesis if "e = Internal" "s = (gc, db)" "s' = (gc, stage f t db)" "active db t"
      "\<And>txn q. same_ctx txn (fst (f txn q))" for gc db f t
    using quiet [OF that(1), of C] stage_step [of gc db C t f] C(1) that by simp
  show ?thesis
    using assms(2) C(1)
  proof (cases rule: engine_step.cases)
    case (engine_begin db t db' gc)
    then show ?thesis using Begin_step [OF _ engine_begin(4)] clock_left_committed(1) C(1) by (intro step) auto
  next
    case (engine_stage_write db t gc d tb slot delta)
    then show ?thesis using stage_calls by (intro staged) auto
  next
    case (engine_stage_delete db t gc d tb slot)
    then show ?thesis using stage_calls by (intro staged) auto
  next
    case (engine_commit_action db t gc act)
    then show ?thesis using stage_calls by (intro staged) auto
  next
    case (engine_abort_action db t gc act)
    then show ?thesis using stage_calls by (intro staged) auto
  next
    case (engine_must_abort db t gc)
    then show ?thesis using stage_calls by (intro staged) auto
  next
    case (engine_update db t c slot delta i db' gc)
    then show ?thesis using Update_step [of gc db C t c slot delta i db'] C(1) step by auto
  next
    case (engine_update_fails db t c slot delta i db' gc)
    then show ?thesis using Update_failed [of gc db C t c slot i delta db'] C(1) step by auto
  next
    case (engine_insert db t c delta i slot db' gc)
    then show ?thesis using Insert_step [of gc db C t c delta i asserts slot db'] C(1) step by auto
  next
    case (engine_delete db t c slot i db' gc)
    then show ?thesis using Delete_step [of gc db C t c slot i db'] C(1) step by auto
  next
    case (engine_delete_fails db t c slot i db' gc)
    then show ?thesis using Delete_failed [of gc db C t c slot i db'] C(1) step by auto
  next
    case (engine_commit db t c ts db' gc)
    then show ?thesis using Commit_step [of gc db C t c ts db'] clock_left_committed(1) C(1) step by auto
  next
    case (engine_abort db t ts db' gc)
    then obtain c where "contexts db t = Some c" "finish_time c = txn_id t" by (auto simp: active_def)
    then show ?thesis using engine_abort Abort_step [of gc db C t c ts db'] clock_left_committed(1) C(1) step by auto
  next
    case (engine_collect db gc n gc' db')
    then show ?thesis
      using PerformGarbageCollection_step [of gc db C exec] clock_left_committed(2) C(1) quiet by auto
  next
    case (engine_logged ts db gc q cbs)
    then show ?thesis using logged_step [of gc db C ts _ q cbs] C(1) quiet by auto
  next
    case (engine_create db i layout version db' gc)
    then show ?thesis using CreateTable_step [of gc db C i layout version db'] C(1) quiet by auto
  next
    case (engine_register_index x gc gc' db)
    then show ?thesis using quiet [of C] C(1)
      by (auto simp: RegisterIndexForGC_def db_inv_def queues_inv_def split: if_splits)
  next
    case (engine_unregister_index x gc gc' db)
    then show ?thesis using quiet [of C] C(1)
      by (auto simp: UnregisterIndexForGC_def db_inv_def queues_inv_def split: if_splits)
  qed
qed

lemma engine_reads_view:
  assumes "engine_refines s a" and "engine_reads s t slot cols r"
  shows "\<exists>f. si_view a t = Some f \<and> r = map_option (\<lambda>row. map row cols) (f slot)"
proof -
  obtain C where C: "db_inv (fst s) (snd s) C" "a = si_abs (snd s) C" using assms(1) by (auto simp: engine_refines_def)
  obtain out where o: "active (snd s) t" "valid_slot (snd s) slot" "good_row out" "col_ids out = cols"
      "map_option row_result (SqlTable_Select t slot out (snd s)) = Some r"
    using assms(2) by (auto simp: engine_reads_def)
  then have "r = map_option (\<lambda>row. map row cols) (seen (snd s) C t slot)"
    using Select_seen [OF C(1) o(1-3)] by simp
  then show ?thesis using C(2) o(1) by (simp add: si_abs_def)
qed

interpretation engine: si_refinement "engine_step asserts exec" engine_refines engine_reads
  by unfold_locales (use engine_simulation engine_reads_view in auto)

section \<open>Calls that return\<close>

text \<open>The slots of a table are in blocks that writers need not wait for.\<close>

lemma valid_slot_hot:
  assumes "db_inv gc db C" and "valid_slot db slot"
  shows "hot (memory (store db) (GetBlock slot))"
proof -
  obtain i where i: "GetBlock slot \<in> set (blocks (tables db i))" using assms(2) by (auto simp: valid_slot_def)
  then have "table_inv db i" "blocks (tables db i) \<noteq> []" using inv_parts(1) [OF assms(1)] by (auto simp: blocks_inv_def)
  then show ?thesis using i by (simp add: table_inv_def)
qed

lemma Update_returns:
  assumes inv: "db_inv gc db C" and c: "contexts db t = Some c" and v: "valid_slot db slot"
  shows "\<exists>db'. SqlTable_Update i t slot delta db = Some
    (\<not> HasConflict_slot c slot (store db) \<and> Visible (memory (store db)) slot, db')"
proof -
  let ?st = "alloc_undo (update_record (tables db i) slot delta c (store db)) (store db)"
  have "hot (memory ?st (GetBlock slot))" using valid_slot_hot [OF inv v] by (simp add: alloc_undo_def)
  then obtain st2 where st2: "wait_until_hot slot ?st = Some st2" using wait_until_hot_hot by blast
  note conf = hot_conflict [OF st2 slot_pointer(2) [OF inv v]]
  show ?thesis
    using c by (auto simp: SqlTable_Update_def Update_eq st2 conf HasConflict_slot_def Let_def)
qed

lemma Delete_returns:
  assumes inv: "db_inv gc db C" and c: "contexts db t = Some c" and v: "valid_slot db slot"
  shows "\<exists>db'. SqlTable_Delete i t slot db = Some
    (\<not> HasConflict_slot c slot (store db) \<and> Visible (memory (store db)) slot, db')"
proof -
  let ?st = "alloc_undo (delete_record (tables db i) slot c (store db)) (store db)"
  have "hot (memory ?st (GetBlock slot))" using valid_slot_hot [OF inv v] by (simp add: alloc_undo_def)
  then obtain st2 where st2: "wait_until_hot slot ?st = Some st2" using wait_until_hot_hot by blast
  note conf = hot_conflict [OF st2 slot_pointer(2) [OF inv v]]
  show ?thesis
    using c by (auto simp: SqlTable_Delete_def Delete_eq st2 conf HasConflict_slot_def Let_def)
qed

text \<open>Without a conflict the writer sees what storage holds.\<close>

lemma no_conflict_sees:
  assumes inv: "db_inv gc db C" and mw: "may_write db t c" and v: "valid_slot db slot" and nc: "\<not> HasConflict_slot c slot (store db)"
  shows "Visible (memory (store db)) slot \<longleftrightarrow> seen db C t slot \<noteq> None"
proof -
  have M: "contexts db t = Some c" "finish_time c = txn_id t" using mw by (simp_all add: may_write_def)
  have "seen db C t slot = row_of (Allocated (memory (store db)) slot) (current_value (memory (store db)) slot)"
    using writer_sees(1) [OF inv M v no_conflict [OF inv M v]] nc by (simp add: HasConflict_slot_def)
  then show ?thesis by (simp add: row_of_def current_value_def Visible_def)
qed

text \<open>
  What an abort needs besides its transaction: when the last staged record is a write, it was passed to
  the table, and when that write failed its slot is in a block of a table.
\<close>

definition abort_ready :: "TransactionContext \<Rightarrow> storage \<Rightarrow> bool" where
  "abort_ready c st \<longleftrightarrow>
     (case RedoBuffer_LastRecord (redo_buffer c) of
        None \<Rightarrow> True
      | Some r \<Rightarrow>
          (case log_body r of
             RedoRecord _ _ slot _ \<Rightarrow>
               undo_buffer c \<noteq> []
               \<and> (rec_table (undo_recs st (last (undo_buffer c))) \<noteq> None
                  \<or> GetBlock slot \<noteq> 0 \<and> data_table (memory st (GetBlock slot)) \<noteq> None)
           | _ \<Rightarrow> True))"

lemma Abort_returns:
  assumes inv: "db_inv gc db C" and c: "contexts db t = Some c" "finish_time c = txn_id t" and r: "abort_ready c (store db)"
  shows "\<exists>db'. Abort t db = Some (time (ts_manager db), db')"
proof -
  let ?c1 = "c\<lparr>abort_actions := []\<rparr>"
  obtain txn1 st1 where rb: "rollback_all (tables db) (undo_buffer c) [] ?c1 (store db) = Some (txn1, st1)" "same_txn ?c1 txn1"
      "rolled_back ?c1 (written db t) C (store db) st1"
    using rollback_ready [OF inv c, of ?c1] by auto
  let ?st = "set_timestamps (time (ts_manager db)) (undo_buffer txn1) st1"
  let ?txn = "txn1\<lparr>finish_time := time (ts_manager db), aborted := True\<rparr>"
  have t: "redo_buffer txn1 = redo_buffer c" "undo_buffer txn1 = undo_buffer c" using rb(2) by (simp_all add: same_txn_simps)
  have "data_table (memory st1 b) = data_table (memory (store db) b)" for b
    using rb(3) by (auto simp: rolled_back_def block_header_def)
  moreover have "undo_recs st1 = undo_recs (store db)" using rb(3) by (simp add: rolled_back_def)
  ultimately have "GCLastUpdateOnAbort (tables db) ?txn ?st \<noteq> None"
    using r t by (auto simp: GCLastUpdateOnAbort_def abort_ready_def set_timestamps_simps split: option.splits LogRecordBody.splits)
  then show ?thesis
    using c(1) rb(1) by (auto simp: Abort_def Let_def run_end_actions_def CheckOutTimestamp_def split: prod.splits)
qed

section \<open>Runs\<close>

text \<open>A write that returned true is a step; so a step that the contract forbids makes the call return false.\<close>

lemma engine_write_refused:
  assumes ref: "engine_refines (gc, db) a" and mw: "may_write db t c" and v: "valid_slot db slot" and row: "good_row delta"
    and no: "\<And>e s'. engine_step asserts exec (gc, db) e s' \<Longrightarrow> write_of e \<noteq> Some (t, slot, None)
      \<and> write_of e \<noteq> Some (t, slot, Some delta)"
  shows "(\<exists>db'. SqlTable_Update i t slot delta db = Some (False, db')) \<and> (\<exists>db'. SqlTable_Delete i t slot db = Some (False, db'))"
proof -
  obtain C where C: "db_inv gc db C" using ref by (auto simp: engine_refines_def)
  have c: "contexts db t = Some c" using mw by (simp add: may_write_def)
  have "SqlTable_Update i t slot delta db \<noteq> Some (True, db')" for db'
    using no [OF engine_update [OF mw v row, of i db']] by auto
  moreover have "SqlTable_Delete i t slot db \<noteq> Some (True, db')" for db'
    using no [OF engine_delete [OF mw v, of i db']] by auto
  ultimately show ?thesis using Update_returns [OF C c v, of i delta] Delete_returns [OF C c v, of i] by (metis (full_types))
qed

lemma run_snoc: "run step s es s' \<Longrightarrow> step s' e s'' \<Longrightarrow> run step s (es @ [e]) s''"
  by (auto simp: run_append intro: run.intros)

lemma engine_locked:
  assumes r: "run (engine_step asserts exec) s (e # es) (gc, db)" and ref: "engine_refines s a"
    and w: "write_of e = Some (u, slot, x)" "Committed_txn u \<notin> set es" "Aborted_txn u \<notin> set es"
    and mw: "may_write db t c" and t: "t \<noteq> u" and v: "valid_slot db slot" and row: "good_row delta"
  shows "(\<exists>db'. SqlTable_Update i t slot delta db = Some (False, db')) \<and> (\<exists>db'. SqlTable_Delete i t slot db = Some (False, db'))"
proof -
  obtain a' where a': "engine_refines (gc, db) a'" using engine.run_refines [OF r ref] by blast
  show ?thesis
  proof (rule engine_write_refused [OF a' mw v row, where asserts = asserts and exec = exec])
    fix e' s'
    assume "engine_step asserts exec (gc, db) e' s'"
    then have "run (engine_step asserts exec) s (e # es @ [e']) s'" using run_snoc [OF r] by simp
    then show "write_of e' \<noteq> Some (t, slot, None) \<and> write_of e' \<noteq> Some (t, slot, Some delta)"
      using engine.first_updater_wins [OF _ ref w] t by metis
  qed
qed

lemma engine_overtaken:
  assumes r: "run (engine_step asserts exec) s (Begin t # es0 @ e # es @ Committed_txn u # es') (gc, db)"
    and ref: "engine_refines s a" "si_exclusive a"
    and w: "write_of e = Some (u, slot, x)" "Committed_txn u \<notin> set es" "Aborted_txn u \<notin> set es" "u \<noteq> t"
    and run: "\<And>e. e \<in> set (es0 @ es @ es') \<Longrightarrow> e \<noteq> Committed_txn t \<and> e \<noteq> Aborted_txn t"
    and mw: "may_write db t c" and v: "valid_slot db slot" and row: "good_row delta"
  shows "(\<exists>db'. SqlTable_Update i t slot delta db = Some (False, db')) \<and> (\<exists>db'. SqlTable_Delete i t slot db = Some (False, db'))"
proof -
  obtain a' where a': "engine_refines (gc, db) a'" using engine.run_refines [OF r ref(1)] by blast
  show ?thesis
  proof (rule engine_write_refused [OF a' mw v row, where asserts = asserts and exec = exec])
    fix e' s'
    assume "engine_step asserts exec (gc, db) e' s'"
    then have "run (engine_step asserts exec) s (Begin t # es0 @ e # es @ Committed_txn u # es' @ [e']) s'"
      using run_snoc [OF r] by simp
    then show "write_of e' \<noteq> Some (t, slot, None) \<and> write_of e' \<noteq> Some (t, slot, Some delta)"
      using engine.no_lost_update [OF _ ref w run] by blast
  qed
qed

end
