(* ===== verification/Quiescence.thy ===== *)
theory Quiescence
  imports Engine
begin

text \<open>
  What every step of the engine keeps besides the simulation: slots stay valid, and every transaction is
  running or waits in a queue of the collector. Hence a system in which no transaction runs is drained by
  \<open>FullyPerformGC\<close>.
\<close>

section \<open>What a run of the collector keeps\<close>

lemma delete_contexts:
  assumes "fold delete_context ts (gc, db) = (gc', db')"
  shows "db' = db\<lparr>contexts := (\<lambda>u. if u \<in> set ts then None else contexts db u)\<rparr>" and "gc' = gc\<lparr>freed := freed gc'\<rparr>"
proof -
  have "db' = db\<lparr>contexts := (\<lambda>u. if u \<in> set ts then None else contexts db u)\<rparr> \<and> gc' = gc\<lparr>freed := freed gc'\<rparr>"
    using assms
  proof (induction ts arbitrary: gc db)
    case (Cons t ts)
    obtain fs where "delete_context t (gc, db) = (gc\<lparr>freed := fs\<rparr>, db\<lparr>contexts := (contexts db)(t := None)\<rparr>)"
      by (simp add: delete_context_def)
    with Cons.prems have "fold delete_context ts (gc\<lparr>freed := fs\<rparr>, db\<lparr>contexts := (contexts db)(t := None)\<rparr>) = (gc', db')" by simp
    from Cons.IH [OF this] show ?case by (auto simp: fun_eq_iff)
  qed simp
  then show "db' = db\<lparr>contexts := (\<lambda>u. if u \<in> set ts then None else contexts db u)\<rparr>" and "gc' = gc\<lparr>freed := freed gc'\<rparr>"
    by blast+
qed

text \<open>All transactions that the collector has to process.\<close>

definition queued :: "GarbageCollector \<Rightarrow> database \<Rightarrow> timestamp list" where
  "queued gc db = completed_txns db @ txns_to_unlink gc @ txns_to_deallocate gc"

text \<open>
  A run of the collector keeps the tables and the running transactions, and forgets no transaction
  before it is deleted. With no transaction running it unlinks all transactions that were completed
  and deletes those it unlinked before.
\<close>

definition collection :: "engine \<Rightarrow> engine \<Rightarrow> bool" where
  "collection s s' \<longleftrightarrow>
     (case s of (gc, db) \<Rightarrow> case s' of (gc', db') \<Rightarrow>
        tables db' = tables db \<and> gc_enabled db' = gc_enabled db \<and> completed_txns db' = []
        \<and> curr_running_txns (ts_manager db') = curr_running_txns (ts_manager db)
        \<and> time (ts_manager db) \<le> time (ts_manager db')
        \<and> (last_unlinked gc \<le> time (ts_manager db) \<longrightarrow> last_unlinked gc' \<le> time (ts_manager db'))
        \<and> (\<forall>u. u \<notin> set (queued gc db) \<longrightarrow> contexts db' u = contexts db u)
        \<and> (\<forall>u. u \<in> set (queued gc db) \<longrightarrow> contexts db' u \<noteq> None \<longrightarrow> u \<in> set (queued gc' db'))
        \<and> (curr_running_txns (ts_manager db) = [] \<longrightarrow> last_unlinked gc \<le> time (ts_manager db) \<longrightarrow>
             txns_to_unlink gc' = [] \<and> set (txns_to_deallocate gc') \<subseteq> set (completed_txns db @ txns_to_unlink gc)
             \<and> unat (time (ts_manager db')) \<le> unat (time (ts_manager db)) + 2))"

lemma ProcessDeallocateQueue_frame:
  assumes "ProcessDeallocateQueue oldest (gc, db) = (n, gc', db')"
  shows "tables db' = tables db" and "gc_enabled db' = gc_enabled db" and "completed_txns db' = completed_txns db"
    and "ts_manager db' = ts_manager db" and "last_unlinked gc' = last_unlinked gc" and "txns_to_unlink gc' = txns_to_unlink gc"
    and "NewerThan oldest (last_unlinked gc) \<Longrightarrow> txns_to_deallocate gc' = []"
    and "txns_to_deallocate gc' = txns_to_deallocate gc \<and> contexts db' = contexts db
      \<or> txns_to_deallocate gc' = [] \<and> contexts db' = (\<lambda>u. if u \<in> set (txns_to_deallocate gc) then None else contexts db u)"
proof -
  obtain g1 db1 where f: "fold delete_context (txns_to_deallocate gc) (gc, db) = (g1, db1)" by fastforce
  note D = delete_contexts [OF f]
  have g: "last_unlinked g1 = last_unlinked gc" "txns_to_unlink g1 = txns_to_unlink gc" by (subst D(2), simp)+
  show "tables db' = tables db" and "gc_enabled db' = gc_enabled db" and "completed_txns db' = completed_txns db"
    and "ts_manager db' = ts_manager db" and "last_unlinked gc' = last_unlinked gc" and "txns_to_unlink gc' = txns_to_unlink gc"
    and "NewerThan oldest (last_unlinked gc) \<Longrightarrow> txns_to_deallocate gc' = []"
    and "txns_to_deallocate gc' = txns_to_deallocate gc \<and> contexts db' = contexts db
      \<or> txns_to_deallocate gc' = [] \<and> contexts db' = (\<lambda>u. if u \<in> set (txns_to_deallocate gc) then None else contexts db u)"
    using assms g by (auto simp: ProcessDeallocateQueue_def f D(1) split: if_splits)
qed

lemma ProcessUnlinkQueue_frame:
  assumes "ProcessUnlinkQueue oldest (gc, db) = Some (n, gc', db')" and "db_inv gc db C"
  shows "gc_frame (db\<lparr>completed_txns := []\<rparr>) db'" and "last_unlinked gc' = last_unlinked gc"
    and "u \<notin> set (completed_txns db @ txns_to_unlink gc) \<Longrightarrow> contexts db' u = contexts db u"
    and "u \<in> set (completed_txns db @ txns_to_unlink gc) \<Longrightarrow> contexts db' u \<noteq> None \<Longrightarrow>
      u \<in> set (txns_to_unlink gc') \<union> set (txns_to_deallocate gc')"
    and "set (txns_to_deallocate gc) \<subseteq> set (txns_to_deallocate gc')"
    and "set (txns_to_deallocate gc') \<subseteq> set (completed_txns db @ txns_to_unlink gc) \<union> set (txns_to_deallocate gc)"
    and "(\<And>t c. contexts db t = Some c \<Longrightarrow> \<not> active db t \<Longrightarrow> NewerThan oldest (finish_time c)) \<Longrightarrow> txns_to_unlink gc' = []"
proof -
  let ?ts = "completed_txns db @ txns_to_unlink gc" and ?db = "db\<lparr>completed_txns := []\<rparr>"
  note Q = inv_parts(4) [OF assms(2), unfolded queues_inv_def]
  obtain rq g where u: "unlink_txns oldest ?ts [] [] (gc, ?db) = Some (n, rq, g, db')" "gc' = g\<lparr>txns_to_unlink := rq\<rparr>"
    using assms(1) by (auto simp: ProcessUnlinkQueue_def CompletedTransactionsForGC_def split: option.splits)
  have q: "distinct ?ts" "\<forall>t \<in> set ?ts. contexts ?db t \<noteq> None" using Q by force+
  note F = unlink_txns_frame [OF u(1) q]
  have quiet: "\<not> active db t" if "t \<in> set ?ts" "contexts db t = Some c" for t c
    using active_not_queued [OF assms(2) that(2)] that by (auto simp: active_def)
  show "gc_frame ?db db'" and "last_unlinked gc' = last_unlinked gc"
    and "set (txns_to_deallocate gc) \<subseteq> set (txns_to_deallocate gc')"
    and "set (txns_to_deallocate gc') \<subseteq> set ?ts \<union> set (txns_to_deallocate gc)"
    using F(1,2,6,7) by (simp_all add: u(2))
  show "contexts db' u = contexts db u" if "u \<notin> set ?ts" using F(3) [OF that] by simp
  show "u \<in> set (txns_to_unlink gc') \<union> set (txns_to_deallocate gc')" if "u \<in> set ?ts" "contexts db' u \<noteq> None"
    using F(4) [OF that] by (simp add: u(2))
  show "txns_to_unlink gc' = []" if "\<And>t c. contexts db t = Some c \<Longrightarrow> \<not> active db t \<Longrightarrow> NewerThan oldest (finish_time c)"
    using F(8) that quiet by (fastforce simp: u(2))
qed

lemma PerformGarbageCollection_frame:
  assumes inv: "db_inv gc db C" and clock: "clock_left 2 db"
    and run: "PerformGarbageCollection exec (gc, db) = Some (n, gc', db')"
  shows "collection (gc, db) (gc', db')"
proof -
  let ?tm = "snd (CheckOutTimestamp (ts_manager db))"
  have com: "Committed (time (ts_manager db))" using inv_parts(3) [OF inv] by (simp add: contexts_inv_def)
  have tm: "time ?tm = time (ts_manager db) + 1" "curr_running_txns ?tm = curr_running_txns (ts_manager db)"
    by (simp_all add: CheckOutTimestamp_def)
  obtain oldest tm2 where o: "OldestTransactionStartTime ?tm = (oldest, tm2)" by fastforce
  then have tm2: "time tm2 = time ?tm" "curr_running_txns tm2 = curr_running_txns ?tm"
    by (auto simp: OldestTransactionStartTime_def Let_def)
  have T: "unat (time tm2) = unat (time (ts_manager db)) + 1" "unat (time tm2 + 1) = unat (time (ts_manager db)) + 2"
    using clock tm tm2 by (simp_all add: clock_left_def unat_word_ariths)
  let ?db1 = "db\<lparr>ts_manager := tm2\<rparr>"
  have "time (ts_manager db) \<le> time tm2" using T by (simp add: word_le_nat_alt)
  moreover have "Committed (time tm2)" using clock_left_committed(2) [OF clock] tm tm2 by simp
  ultimately have I1: "db_inv gc ?db1 C" using clock_inv [OF inv, of ?db1] tm tm2 by simp
  obtain nd gc2 db2 where d: "ProcessDeallocateQueue oldest (gc, ?db1) = (nd, gc2, db2)" by (metis prod_cases3)
  note I2 = ProcessDeallocateQueue_step [OF I1 d] and D = ProcessDeallocateQueue_frame [OF d]
  note rest = run [unfolded PerformGarbageCollection_def prod.case Let_def o d]
  obtain nu gc3 db3 where u: "ProcessUnlinkQueue oldest (gc2, db2) = Some (nu, gc3, db3)"
    using rest by (auto split: option.splits)
  note U = ProcessUnlinkQueue_frame [OF u I2(1)]
  note G = U(1) [unfolded gc_frame_def, simplified]
  have t3: "ts_manager db3 = tm2" using G D(4) by simp
  have e: "tables db' = tables db3" "gc_enabled db' = gc_enabled db3" "contexts db' = contexts db3" "completed_txns db' = completed_txns db3"
      "txns_to_unlink gc' = txns_to_unlink gc3" "txns_to_deallocate gc' = txns_to_deallocate gc3"
      "curr_running_txns (ts_manager db') = curr_running_txns (ts_manager db3)"
      "time (ts_manager db') = time tm2 + 1 \<and> last_unlinked gc' = time tm2 \<or> time (ts_manager db') = time tm2 \<and> last_unlinked gc' = last_unlinked gc3"
    using rest t3 by (cases "0 < nu"; auto simp: u ProcessIndexes_def ProcessDeferredActions_def CheckOutTimestamp_def)+
  have time: "time (ts_manager db) \<le> time (ts_manager db')" "unat (time (ts_manager db')) \<le> unat (time (ts_manager db)) + 2"
    using e(8) T by (auto simp: word_le_nat_alt)
  have last: "last_unlinked gc' \<le> time (ts_manager db')" if "last_unlinked gc \<le> time (ts_manager db)"
    using e(8) T that U(2) D(5) by (auto simp: word_le_nat_alt)
  have quiet: "txns_to_unlink gc' = [] \<and> set (txns_to_deallocate gc') \<subseteq> set (completed_txns db @ txns_to_unlink gc)"
    if r: "curr_running_txns (ts_manager db) = []" and l: "last_unlinked gc \<le> time (ts_manager db)"
  proof -
    have old: "oldest = time tm2" using OldestTransactionStartTime_mem [of ?tm] o tm2 tm r by simp
    then have "NewerThan oldest (last_unlinked gc)" using l T by (simp add: NewerThan_def word_le_nat_alt word_less_nat_alt)
    then have nil: "txns_to_deallocate gc2 = []" by (rule D(7))
    have "NewerThan oldest (finish_time c)" if "contexts db2 t = Some c" for t c
    proof -
      have "finish_time c < time (ts_manager db2)"
        using inv_context(1) [OF I2(1) that] D(4) tm2 tm r by (auto simp: times_inv_def)
      then show ?thesis using old D(4) by (simp add: NewerThan_def)
    qed
    then have "txns_to_unlink gc3 = []" by (rule U(7))
    then show ?thesis using nil U(6) e(5,6) D(3,6) by auto
  qed
  have out: "contexts db' u = contexts db u" if "u \<notin> set (queued gc db)" for u
    using that U(3) [of u] D(3,6,8) e(3) by (auto simp: queued_def)
  have inq: "u \<in> set (queued gc' db')" if "u \<in> set (queued gc db)" "contexts db' u \<noteq> None" for u
    using that U(3) [of u] U(4) [of u] U(5) D(3,6,8) e(3,5,6)
    by (cases "u \<in> set (completed_txns db @ txns_to_unlink gc)") (auto simp: queued_def)
  show ?thesis
    unfolding collection_def prod.case using e(1,2,4,7) G D(1,2,4) tm2 tm time last quiet out inq by simp
qed

section \<open>What every step keeps\<close>

text \<open>
  No step forgets a transaction before the collector deletes it, releases a block of a table, or
  turns the clock back.
\<close>

definition progresses :: "event \<Rightarrow> engine \<Rightarrow> engine \<Rightarrow> bool" where
  "progresses e s s' \<longleftrightarrow>
     (case s of (gc, db) \<Rightarrow> case s' of (gc', db') \<Rightarrow>
        gc_enabled db' = gc_enabled db
        \<and> time (ts_manager db) \<le> time (ts_manager db')
        \<and> (last_unlinked gc \<le> time (ts_manager db) \<longrightarrow> last_unlinked gc' \<le> time (ts_manager db'))
        \<and> (\<forall>slot. valid_slot db slot \<longrightarrow> valid_slot db' slot)
        \<and> (\<forall>u. contexts db' u \<noteq> None \<longrightarrow> e = Begin u
             \<or> contexts db u \<noteq> None \<and> (u \<in> set (queued gc db) \<longrightarrow> u \<in> set (queued gc' db')))
        \<and> (\<forall>u. e = Committed_txn u \<or> e = Aborted_txn u \<longrightarrow> gc_enabled db \<longrightarrow> u \<in> set (queued gc' db')))"

lemma progresses_write:
  assumes "\<And>u. e \<noteq> Committed_txn u" "\<And>u. e \<noteq> Aborted_txn u"
    and "ts_manager db' = ts_manager db" "gc_enabled db' = gc_enabled db" "completed_txns db' = completed_txns db"
    and "contexts db' = (contexts db)(t \<mapsto> c')" "contexts db t \<noteq> None"
    and "\<And>slot. valid_slot db slot \<Longrightarrow> valid_slot db' slot"
  shows "progresses e (gc, db) (gc, db')"
  using assms by (auto simp: progresses_def queued_def)

lemma progresses_finish:
  assumes f: "finishes t txn abort st db db'" and c: "contexts db t = Some c" and clock: "clock_left 1 db"
    and e: "e = Committed_txn t \<or> e = Aborted_txn t"
  shows "progresses e (gc, db) (gc, db')"
proof -
  have "time (ts_manager db') = time (ts_manager db) + 1" using f by (simp add: finishes_def)
  then have "time (ts_manager db) \<le> time (ts_manager db')"
    using clock by (simp add: clock_left_def word_le_nat_alt unat_word_ariths)
  moreover obtain txn' where "contexts db' = (contexts db)(t \<mapsto> txn')" using f by (auto simp: finishes_def)
  moreover have "tables db' = tables db" "gc_enabled db' = gc_enabled db"
      "completed_txns db' = (if gc_enabled db then t # completed_txns db else completed_txns db)"
    using f by (simp_all add: finishes_def)
  ultimately show ?thesis using c e by (auto simp: progresses_def queued_def valid_slot_def)
qed

lemma CreateTable_valid:
  assumes "blocks (tables db i) = []" and "CreateTable i layout version db = Inr db'"
  shows "progresses Internal (gc, db) (gc, db')"
proof -
  obtain table bs st where db': "db' = db\<lparr>tables := (tables db)(i := table), block_store := bs, store := st\<rparr>"
    using assms(2) by (auto simp: CreateTable_def split: sum.splits)
  have "valid_slot db' slot" if v: "valid_slot db slot" for slot
  proof -
    obtain j where j: "GetBlock slot \<in> set (blocks (tables db j))" "GetOffset slot < num_slots (table_layout (tables db j))"
      using v by (auto simp: valid_slot_def)
    then have "j \<noteq> i" using assms(1) by auto
    then show ?thesis using j unfolding valid_slot_def db' by (intro exI [of _ j]) simp
  qed
  then show ?thesis by (auto simp: progresses_def queued_def db')
qed

lemma Insert_valid:
  assumes inv: "db_inv gc db C" and mw: "may_write db t c" and ne: "blocks (tables db i) \<noteq> []"
    and ins: "SqlTable_Insert asserts i t delta db = Some (Inr (slot, db'))"
  shows "progresses (Inserted t slot delta) (gc, db) (gc, db')"
proof -
  have M: "contexts db t = Some c" using mw by (simp add: may_write_def)
  have T: "heads_ok (tables db i) (memory (store db))" "insertion_head (tables db i) < length (blocks (tables db i))"
    using inv_parts(1) [OF inv] ne by (auto simp: blocks_inv_def table_inv_def)
  obtain c' table' bs' st' where I: "Insert asserts delta c (tables db i) (block_store db) (store db) = Some (Inr (slot, c', table', bs', st'))"
      and db': "db' = db\<lparr>contexts := (contexts db)(t \<mapsto> c'\<lparr>redo_buffer := set_last_slot slot (redo_buffer c')\<rparr>),
        tables := (tables db)(i := table'), block_store := bs', store := st'\<rparr>"
    using ins M by (auto simp: SqlTable_Insert_def Let_def split: option.splits sum.splits prod.splits)
  obtain b mem where "grows (tables db i) (block_store db) (memory (store db)) b table' bs' mem"
    using Insert_runs [OF T, of asserts delta c "block_store db"] I by auto
  then have g: "set (blocks (tables db i)) \<subseteq> set (blocks table')" "table_layout table' = table_layout (tables db i)"
    by (auto simp: grows_def)
  have v: "valid_slot db' s" if vs: "valid_slot db s" for s
  proof -
    obtain j where "GetBlock s \<in> set (blocks (tables db j))" "GetOffset s < num_slots (table_layout (tables db j))"
      using vs by (auto simp: valid_slot_def)
    then show ?thesis using g unfolding valid_slot_def db' by (intro exI [of _ j]) auto
  qed
  show ?thesis by (rule progresses_write [where t = t, OF _ _ _ _ _ _ _ v]) (simp_all add: db' M)
qed

lemma may_write_context: "may_write db t c \<Longrightarrow> contexts db t \<noteq> None"
  by (simp add: may_write_def)

lemma stage_progress: "active db t \<Longrightarrow> progresses Internal (gc, db) (gc, stage f t db)"
proof (cases "f (the (contexts db t)) (log_queue db)")
  case (Pair txn q)
  assume "active db t"
  then show ?thesis
    by (intro progresses_write [where t = t]) (auto simp: Pair stage_def active_def valid_slot_def)
qed

lemma Update_progress:
  assumes "SqlTable_Update i t slot delta db = Some (b, db')" and "contexts db t \<noteq> None"
  shows "progresses Internal (gc, db) (gc, db')" and "progresses (Updated t slot delta) (gc, db) (gc, db')"
proof -
  obtain c st where "db' = db\<lparr>contexts := (contexts db)(t \<mapsto> c), store := st\<rparr>"
    using assms(1) by (auto simp: SqlTable_Update_def Let_def split: option.splits)
  then show "progresses Internal (gc, db) (gc, db')" and "progresses (Updated t slot delta) (gc, db) (gc, db')"
    using assms(2) by (auto intro!: progresses_write [where t = t] simp: valid_slot_def)
qed

lemma Delete_progress:
  assumes "SqlTable_Delete i t slot db = Some (b, db')" and "contexts db t \<noteq> None"
  shows "progresses Internal (gc, db) (gc, db')" and "progresses (Deleted t slot) (gc, db) (gc, db')"
proof -
  obtain c st where "db' = db\<lparr>contexts := (contexts db)(t \<mapsto> c), store := st\<rparr>"
    using assms(1) by (auto simp: SqlTable_Delete_def Let_def split: option.splits)
  then show "progresses Internal (gc, db) (gc, db')" and "progresses (Deleted t slot) (gc, db) (gc, db')"
    using assms(2) by (auto intro!: progresses_write [where t = t] simp: valid_slot_def)
qed

lemma engine_progress:
  assumes "engine_step asserts exec s e s'" and "engine_refines s a"
  shows "progresses e s s'"
  using assms
proof (cases rule: engine_step.cases)
  case (engine_begin db t db' gc)
  have "time (ts_manager db) \<le> time (ts_manager db) + 1"
    using engine_begin(5) by (simp add: clock_left_def word_le_nat_alt unat_word_ariths)
  then show ?thesis
    using engine_begin by (auto simp: progresses_def queued_def BeginTransaction_def TimestampManager_BeginTransaction_def valid_slot_def Let_def)
next
  case (engine_insert db t c delta i slot db' gc)
  then obtain C where "db_inv gc db C" using assms(2) by (auto simp: engine_refines_def)
  from Insert_valid [OF this] engine_insert show ?thesis by blast
next
  case (engine_commit db t c ts db' gc)
  then have c: "contexts db t = Some c" by (simp add: may_write_def)
  note f = Commit_effect [OF engine_commit(6) c, THEN conjunct2]
  show ?thesis unfolding engine_commit(1-3) by (rule progresses_finish [OF f c engine_commit(5)]) simp
next
  case (engine_abort db t ts db' gc)
  then obtain c where c: "contexts db t = Some c" "finish_time c = txn_id t" by (auto simp: active_def)
  obtain C where "db_inv gc db C" using assms(2) engine_abort(1) by (auto simp: engine_refines_def)
  from rollback_ready [OF this c, of "c\<lparr>abort_actions := []\<rparr>"] obtain txn1 st1 where
    rb: "rollback_all (tables db) (undo_buffer c) [] (c\<lparr>abort_actions := []\<rparr>) (store db) = Some (txn1, st1)"
      "same_txn (c\<lparr>abort_actions := []\<rparr>) txn1" by auto
  note f = Abort_effect [OF engine_abort(6) c(1) rb, THEN conjunct2]
  show ?thesis unfolding engine_abort(1-3) by (rule progresses_finish [OF f c(1) engine_abort(5)]) simp
next
  case (engine_collect db gc n gc' db')
  then obtain C where "db_inv gc db C" using assms(2) by (auto simp: engine_refines_def)
  note F = PerformGarbageCollection_frame [OF this engine_collect(4,5), unfolded collection_def prod.case]
  have "contexts db u \<noteq> None" if "u \<in> set (queued gc db)" for u
    using inv_parts(4) [OF \<open>db_inv gc db C\<close>] that by (auto simp: queues_inv_def queued_def)
  then have ctx: "contexts db u \<noteq> None" if "contexts db' u \<noteq> None" for u
    using F that by metis
  show ?thesis
    using F ctx unfolding progresses_def engine_collect prod.case valid_slot_def by simp
next
  case (engine_logged ts db gc q cbs)
  then show ?thesis by (auto simp: progresses_def queued_def valid_slot_def RemoveTransactions_running)
next
  case (engine_create db i layout version db' gc)
  then show ?thesis using CreateTable_valid by blast
next
  case (engine_update db t c slot delta i db' gc)
  from Update_progress(2) [OF engine_update(7) may_write_context [OF engine_update(4)]] show ?thesis by (simp add: engine_update(1-3))
next
  case (engine_update_fails db t c slot delta i db' gc)
  from Update_progress(1) [OF engine_update_fails(7) may_write_context [OF engine_update_fails(4)]] show ?thesis by (simp add: engine_update_fails(1-3))
next
  case (engine_delete db t c slot i db' gc)
  from Delete_progress(2) [OF engine_delete(6) may_write_context [OF engine_delete(4)]] show ?thesis by (simp add: engine_delete(1-3))
next
  case (engine_delete_fails db t c slot i db' gc)
  from Delete_progress(1) [OF engine_delete_fails(6) may_write_context [OF engine_delete_fails(4)]] show ?thesis by (simp add: engine_delete_fails(1-3))
next
  case (engine_register_index x gc gc' db)
  then show ?thesis by (auto simp: progresses_def queued_def RegisterIndexForGC_def split: if_splits)
next
  case (engine_unregister_index x gc gc' db)
  then show ?thesis by (auto simp: progresses_def queued_def UnregisterIndexForGC_def split: if_splits)
next
  case (engine_stage_write db t gc d tb slot delta)
  from stage_progress [OF engine_stage_write(4)] show ?thesis by (simp only: engine_stage_write(1-3))
next
  case (engine_stage_delete db t gc d tb slot)
  from stage_progress [OF engine_stage_delete(4)] show ?thesis by (simp only: engine_stage_delete(1-3))
next
  case (engine_commit_action db t gc act)
  from stage_progress [OF engine_commit_action(4)] show ?thesis by (simp only: engine_commit_action(1-3))
next
  case (engine_abort_action db t gc act)
  from stage_progress [OF engine_abort_action(4)] show ?thesis by (simp only: engine_abort_action(1-3))
next
  case (engine_must_abort db t gc)
  from stage_progress [OF engine_must_abort(4)] show ?thesis by (simp only: engine_must_abort(1-3))
qed

text \<open>Every transaction is running or waits for the collector, and the collector's last timestamp has passed.\<close>

definition tracked :: "engine \<Rightarrow> bool" where
  "tracked s \<longleftrightarrow>
     (case s of (gc, db) \<Rightarrow>
        last_unlinked gc \<le> time (ts_manager db)
        \<and> (gc_enabled db \<longrightarrow> (\<forall>t. contexts db t \<noteq> None \<longrightarrow> active db t \<or> t \<in> set (queued gc db))))"

lemma refines_active: "engine_refines s a \<Longrightarrow> active (snd s) t \<longleftrightarrow> si_view a t \<noteq> None"
  using active_abs by (auto simp: engine_refines_def)

lemma engine_tracked:
  assumes st: "engine_step asserts exec s e s'" and ref: "engine_refines s a" and tr: "tracked s"
  shows "tracked s'"
proof -
  obtain gc db gc' db' where s: "s = (gc, db)" "s' = (gc', db')" by fastforce
  obtain a' where a': "si_step a e a'" "engine_refines s' a'" using engine_simulation [OF ref st] by blast
  note P = engine_progress [OF st ref, unfolded progresses_def s prod.case]
  have view: "active db u \<longleftrightarrow> si_view a u \<noteq> None" "active db' u \<longleftrightarrow> si_view a' u \<noteq> None" for u
    using refines_active [OF ref] refines_active [OF a'(2)] by (simp_all add: s)
  have "active db' u \<or> u \<in> set (queued gc' db')" if "gc_enabled db'" "contexts db' u \<noteq> None" for u
  proof (cases "e = Begin u")
    case True
    then show ?thesis using a'(1) view(2) by (auto elim!: si_step.cases)
  next
    case False
    then have old: "contexts db u \<noteq> None" "u \<in> set (queued gc db) \<longrightarrow> u \<in> set (queued gc' db')" using P that(2) by blast+
    then have "active db u \<or> u \<in> set (queued gc db)" using tr P that(1) by (simp add: tracked_def s)
    moreover have ?thesis if "active db u" "e \<noteq> Committed_txn u" "e \<noteq> Aborted_txn u"
      using si_step_kept [OF a'(1)] view that by blast
    ultimately show ?thesis using P that(1) old by metis
  qed
  then show ?thesis using tr P by (simp add: tracked_def s)
qed

lemma init_tracked: "tracked (init_GarbageCollector, init_database bs st log gc)"
  by (simp add: tracked_def init_GarbageCollector_def init_database_def init_TimestampManager_def)

lemma run_tracked:
  assumes "run (engine_step asserts exec) s es s'" and "engine_refines s a" and "tracked s"
  shows "tracked s'" and "gc_enabled (snd s') = gc_enabled (snd s)" and "valid_slot (snd s) slot \<Longrightarrow> valid_slot (snd s') slot"
proof -
  have "tracked s' \<and> gc_enabled (snd s') = gc_enabled (snd s) \<and> (valid_slot (snd s) slot \<longrightarrow> valid_slot (snd s') slot)"
    using assms
  proof (induction arbitrary: a rule: run.induct)
    case (run_cons s e s1 es s')
    obtain a1 where "engine_refines s1 a1" using engine_simulation [OF run_cons(4,1)] by blast
    moreover have "gc_enabled (snd s1) = gc_enabled (snd s)" "valid_slot (snd s) slot \<longrightarrow> valid_slot (snd s1) slot"
      using engine_progress [OF run_cons(1,4)] by (auto simp: progresses_def split: prod.splits)
    ultimately show ?case using run_cons.IH engine_tracked [OF run_cons(1,4,5)] by simp
  qed blast
  then show "tracked s'" and "gc_enabled (snd s') = gc_enabled (snd s)" and "valid_slot (snd s) slot \<Longrightarrow> valid_slot (snd s') slot"
    by blast+
qed

text \<open>Runs from an empty database.\<close>

definition engine_run ::
  "bool \<Rightarrow> (deferred_action \<Rightarrow> timestamp \<Rightarrow> deferred_action list) \<Rightarrow> event list \<Rightarrow> engine \<Rightarrow> bool" where
  "engine_run asserts exec es s \<longleftrightarrow>
     (\<exists>bs st log gc. allocator_ok bs
        \<and> run (engine_step asserts exec) (init_GarbageCollector, init_database bs st log gc) es s)"

lemma engine_runD:
  assumes "engine_run asserts exec es s"
  shows "\<exists>a. run si_step si_init es a \<and> engine_refines s a \<and> si_exclusive a" and "tracked s"
proof -
  obtain bs st log gc where r: "allocator_ok bs"
      "run (engine_step asserts exec) (init_GarbageCollector, init_database bs st log gc) es s"
    using assms by (auto simp: engine_run_def)
  note ref = engine_init_refines [OF r(1), of st log gc]
  have "si_exclusive si_init" by (simp add: si_exclusive_def si_init_def)
  then show "\<exists>a. run si_step si_init es a \<and> engine_refines s a \<and> si_exclusive a"
    using engine.run_refines [OF r(2) ref] si_run_exclusive by blast
  show "tracked s" by (rule run_tracked(1) [OF r(2) ref init_tracked])
qed

lemma engine_run_append:
  "engine_run asserts exec (es @ es') s \<longleftrightarrow> (\<exists>s0. engine_run asserts exec es s0 \<and> run (engine_step asserts exec) s0 es' s)"
  unfolding engine_run_def run_append by blast

text \<open>A transaction that others leave alone stays active, and can go on reading.\<close>

lemma run_active:
  assumes "run (engine_step asserts exec) s es s'" and "engine_refines s a" and "Some t \<notin> event_txn ` set es"
  shows "active (snd s') t \<longleftrightarrow> active (snd s) t"
proof -
  obtain a' where a': "run si_step a es a'" "engine_refines s' a'" using engine.run_refines [OF assms(1,2)] by blast
  then have "si_view a' t = si_view a t" using si_run_view assms(3) by blast
  then show ?thesis by (simp add: refines_active [OF assms(2)] refines_active [OF a'(2)])
qed

lemma run_reads:
  assumes r: "run (engine_step asserts exec) s es s'" and ref: "engine_refines s a" and tr: "tracked s"
    and t: "Some t \<notin> event_txn ` set es" and rd: "engine_reads s t slot cols x"
  shows "engine_reads s' t slot cols x"
proof -
  obtain a' where a': "engine_refines s' a'" using engine.run_refines [OF r ref] by blast
  obtain out where out: "good_row out" "col_ids out = cols" "active (snd s) t" "valid_slot (snd s) slot"
    using rd by (auto simp: engine_reads_def)
  have "active (snd s') t" "valid_slot (snd s') slot"
    using run_active [OF r ref t] run_tracked(3) [OF r ref tr] out by blast+
  then obtain x' where "engine_reads s' t slot cols x'" using engine_reads_total [OF a'] out by blast
  then show ?thesis using engine.repeatable_read [OF r ref t rd] by blast
qed

section \<open>A quiescent system\<close>

lemma collect_quiet:
  assumes ref: "engine_refines (gc, db) a" and tr: "tracked (gc, db)" and clock: "clock_left (n + 2) db"
    and idle: "curr_running_txns (ts_manager db) = []"
  shows "\<exists>m gc' db'. PerformGarbageCollection exec (gc, db) = Some (m, gc', db') \<and> (\<exists>a'. engine_refines (gc', db') a')
    \<and> tracked (gc', db') \<and> clock_left n db' \<and> curr_running_txns (ts_manager db') = [] \<and> completed_txns db' = []
    \<and> txns_to_unlink gc' = [] \<and> set (txns_to_deallocate gc') \<subseteq> set (completed_txns db @ txns_to_unlink gc)
    \<and> gc_enabled db' = gc_enabled db \<and> tables db' = tables db"
proof -
  obtain C where C: "db_inv gc db C" using ref by (auto simp: engine_refines_def)
  have c2: "clock_left 2 db" using clock by (simp add: clock_left_def)
  obtain m gc' db' where run: "PerformGarbageCollection exec (gc, db) = Some (m, gc', db')"
    using PerformGarbageCollection_step [OF C, of exec] clock_left_committed(2) [OF c2] by blast
  have st: "engine_step False exec (gc, db) Internal (gc', db')" by (rule engine_collect [OF c2 run])
  note F = PerformGarbageCollection_frame [OF C c2 run, unfolded collection_def prod.case]
  have "last_unlinked gc \<le> time (ts_manager db)" using tr by (simp add: tracked_def)
  then have "txns_to_unlink gc' = []" "set (txns_to_deallocate gc') \<subseteq> set (completed_txns db @ txns_to_unlink gc)" "clock_left n db'"
    using F idle clock by (simp_all add: clock_left_def)
  then show ?thesis using run F idle engine_tracked [OF st ref tr] engine_simulation [OF ref st] by auto
qed

lemma quiet_no_contexts:
  assumes "tracked (gc, db)" and "engine_refines (gc, db) a" and "curr_running_txns (ts_manager db) = []" and "gc_enabled db"
    and "set (queued gc db) = {}"
  shows "contexts db t = None" and "valid_slot db slot \<Longrightarrow> AtomicallyReadVersionPtr (memory (store db)) slot = None"
proof -
  obtain C where C: "db_inv gc db C" using assms(2) by (auto simp: engine_refines_def)
  have none: "contexts db t = None" for t
  proof (rule ccontr)
    assume t: "contexts db t \<noteq> None"
    then have "active db t" using assms(1,4,5) by (auto simp: tracked_def)
    then obtain c where c: "contexts db t = Some c" "finish_time c = txn_id t" by (auto simp: active_def)
    then show False
      using inv_context(1) [OF C c(1)] assms(3) txn_id_uncommitted [OF inv_context(3) [OF C c(1)]] by (auto simp: times_inv_def)
  qed
  then show "contexts db t = None" .
  show "AtomicallyReadVersionPtr (memory (store db)) slot = None" if v: "valid_slot db slot"
  proof -
    have "C slot = []" using inv_parts(2) [OF C] v none by (cases "C slot") (auto simp: chains_inv_def)
    then show ?thesis using inv_slot(1) [OF C v] by (simp add: slot_inv_def slot_chain_def)
  qed
qed

text \<open>
  \<open>FullyPerformGC\<close> runs the collector three times: a first run unlinks, a second one deallocates.
\<close>

lemma drain:
  assumes ref: "engine_refines (gc, db) a" and tr: "tracked (gc, db)" and clock: "clock_left 6 db"
    and idle: "curr_running_txns (ts_manager db) = []" and on: "gc_enabled db"
  shows "\<exists>gc' db'. FullyPerformGC exec (\<lambda>db. db) (gc, db) = Some (gc', db') \<and> set (queued gc' db') = {}
    \<and> (\<forall>t. contexts db' t = None)
    \<and> (\<forall>slot. valid_slot db slot \<longrightarrow> AtomicallyReadVersionPtr (memory (store db')) slot = None)"
proof -
  obtain m1 gc1 db1 a1 where 1: "PerformGarbageCollection exec (gc, db) = Some (m1, gc1, db1)" "engine_refines (gc1, db1) a1"
      "tracked (gc1, db1)" "clock_left 4 db1" "curr_running_txns (ts_manager db1) = []" "completed_txns db1 = []"
      "txns_to_unlink gc1 = []" "gc_enabled db1" "tables db1 = tables db"
    using collect_quiet [OF ref tr _ idle, of 4 exec] clock on by auto
  obtain m2 gc2 db2 a2 where 2: "PerformGarbageCollection exec (gc1, db1) = Some (m2, gc2, db2)" "engine_refines (gc2, db2) a2"
      "tracked (gc2, db2)" "clock_left 2 db2" "curr_running_txns (ts_manager db2) = []" "completed_txns db2 = []"
      "txns_to_unlink gc2 = []" "gc_enabled db2" "tables db2 = tables db"
    using collect_quiet [OF 1(2,3) _ 1(5), of 2 exec] 1(4,6-9) by auto
  obtain m3 gc3 db3 a3 where 3: "PerformGarbageCollection exec (gc2, db2) = Some (m3, gc3, db3)" "engine_refines (gc3, db3) a3"
      "tracked (gc3, db3)" "curr_running_txns (ts_manager db3) = []" "set (queued gc3 db3) = {}" "gc_enabled db3" "tables db3 = tables db"
    using collect_quiet [OF 2(2,3) _ 2(5), of 0 exec] 2(4,6-9) by (auto simp: queued_def numeral_2_eq_2)
  have "FullyPerformGC exec (\<lambda>db. db) (gc, db) = Some (gc3, db3)"
    using 1(1) 2(1) 3(1) by (simp add: FullyPerformGC_def MIN_GC_INVOCATIONS_def numeral_3_eq_3)
  then show ?thesis
    using quiet_no_contexts [OF 3(3,2,4,6,5)] 3(5,7) by (auto simp: valid_slot_def)
qed

end
