(* ===== verification/Scenario.thy ===== *)
theory Scenario
  imports Quiescence
begin

text \<open>
  A concrete run of the engine: a table with one row, two concurrent transactions of which one updates
  the row, and what follows its commit or its abort. The general theorems are instantiated on it.
\<close>

section \<open>The state\<close>

definition scenario_layout :: BlockLayout where
  "scenario_layout =
     \<lparr>attr_sizes = [8, 8], varlens = [], tuple_size = 16, static_header_size = 0, num_slots = 4, header_size = 0\<rparr>"

definition scenario_row :: "u8 \<Rightarrow> ProjectedRow" where
  "scenario_row x =
     \<lparr>pr_size = 32, col_ids = [1], attr_value_offsets = [16], pr_bitmap = (\<lambda>_. 1), pr_values = (\<lambda>_. [x])\<rparr>"

definition scenario_blocks :: BlockStore where
  "scenario_blocks =
     \<lparr>block_pool = make_ObjectPool 10 10,
      fresh = (\<lambda>n. if n = 0 then Some 0x100000 else if n = 1 then Some 0x200000 else None), new_calls = 0\<rparr>"

definition scenario_storage :: storage where
  "scenario_storage =
     \<lparr>memory = (\<lambda>_. \<lparr>data_table = None, layout_version = 0, insert_head = 0, controller = Initialize_controller,
        slot_bitmap = (\<lambda>_. 0), null_bitmap = (\<lambda>_ _. 0), version_column = (\<lambda>_. None), columns = (\<lambda>_ _. [])\<rparr>),
      undo_recs = (\<lambda>_. \<lparr>rec_type = INSERT, rec_next = None, rec_timestamp = 0, rec_table = None, rec_slot = 0,
        rec_delta = scenario_row 0\<rparr>),
      undo_next = 0\<rparr>"

definition scenario_init :: engine where
  "scenario_init = (init_GarbageCollector, init_database scenario_blocks scenario_storage False True)"

abbreviation scenario_step :: "engine \<Rightarrow> event \<Rightarrow> engine \<Rightarrow> bool" where
  "scenario_step \<equiv> engine_step False (\<lambda>_ _. [])"

lemma scenario_row [simp]:
  "good_row (scenario_row x)" "col_ids (scenario_row x) = [1]" "row_map (scenario_row x) 1 = Some (Some [x])"
  by (simp_all add: scenario_row_def good_row_def sorted_row_def VERSION_POINTER_COLUMN_ID_def row_map_def row_alist_def
      PR_NumColumns_def PR_AccessWithNullCheck_def Test_def LSB_ONE_HOT_MASK_def)

lemma scenario_allocator: "allocator_ok scenario_blocks"
  by (auto simp: allocator_ok_def scenario_blocks_def make_ObjectPool_def slot_asserts_def BLOCK_SIZE_def)

section \<open>Progress\<close>

text \<open>Calls that a state allows, and what they leave unchanged.\<close>

definition same_world :: "database \<Rightarrow> timestamp \<Rightarrow> database \<Rightarrow> bool" where
  "same_world db t db' \<longleftrightarrow>
     tables db' = tables db \<and> block_store db' = block_store db \<and> (\<forall>u. u \<noteq> t \<longrightarrow> contexts db' u = contexts db u)"

lemma same_world_valid: "same_world db t db' \<Longrightarrow> valid_slot db' s = valid_slot db s"
  by (simp add: same_world_def valid_slot_def)

lemma begin_progress:
  assumes "clock_left 1 db" and "time (ts_manager db) = t"
  shows "\<exists>db'. engine_step asserts exec (gc, db) (Begin t) (gc, db') \<and> same_world db t db'
    \<and> may_write db' t (new_TransactionContext t (txn_id t)) \<and> time (ts_manager db') = t + 1 \<and> store db' = store db"
proof -
  obtain db' where b: "BeginTransaction db = (t, db')"
    using assms(2) by (simp add: BeginTransaction_def TimestampManager_BeginTransaction_def)
  then have "same_world db t db'" "may_write db' t (new_TransactionContext t (txn_id t))" "time (ts_manager db') = t + 1" "store db' = store db"
    using assms(2) by (auto simp: same_world_def may_write_def BeginTransaction_def TimestampManager_BeginTransaction_def
        new_TransactionContext_def txn_id_def)
  then show ?thesis using engine_begin [OF b assms(1)] by blast
qed

lemma commit_progress:
  assumes "clock_left 1 db" and "may_write db t c"
  shows "\<exists>db'. engine_step asserts exec (gc, db) (Committed_txn t) (gc, db') \<and> same_world db t db'
    \<and> time (ts_manager db') = time (ts_manager db) + 1
    \<and> (\<exists>c'. contexts db' t = Some c' \<and> finish_time c' = time (ts_manager db))"
proof -
  obtain ts db' where cm: "Commit t db = (ts, db')" by fastforce
  have "contexts db t = Some c" using assms(2) by (simp add: may_write_def)
  then have f: "finishes t c False (store db) db db'" using Commit_effect [OF cm] by blast
  then have "same_world db t db'" "time (ts_manager db') = time (ts_manager db) + 1"
      "\<exists>c'. contexts db' t = Some c' \<and> finish_time c' = time (ts_manager db)"
    by (auto simp: finishes_def same_world_def)
  then show ?thesis using engine_commit [OF assms(2,1) cm] by blast
qed

lemma abort_progress:
  assumes ref: "engine_refines (gc, db) a" and "clock_left 1 db" and c: "contexts db t = Some c" "finish_time c = txn_id t"
    and r: "abort_ready c (store db)"
  shows "\<exists>db'. engine_step asserts exec (gc, db) (Aborted_txn t) (gc, db') \<and> same_world db t db'
    \<and> time (ts_manager db') = time (ts_manager db) + 1"
proof -
  obtain C where C: "db_inv gc db C" using ref by (auto simp: engine_refines_def)
  obtain db' where ab: "Abort t db = Some (time (ts_manager db), db')" using Abort_returns [OF C c r] by blast
  obtain txn1 st1 where "rollback_all (tables db) (undo_buffer c) [] (c\<lparr>abort_actions := []\<rparr>) (store db) = Some (txn1, st1)"
      "same_txn (c\<lparr>abort_actions := []\<rparr>) txn1"
    using rollback_ready [OF C c, of "c\<lparr>abort_actions := []\<rparr>"] by auto
  then have "finishes t c True st1 db db'" using Abort_effect [OF ab c(1)] by blast
  then have "same_world db t db'" "time (ts_manager db') = time (ts_manager db) + 1" by (auto simp: finishes_def same_world_def)
  moreover have "active db t" using c by (simp add: active_def)
  ultimately show ?thesis using engine_abort [OF _ assms(2) ab] by blast
qed

text \<open>A transaction that began last, while no other has written, conflicts with nobody.\<close>

lemma fresh_no_conflict:
  assumes inv: "db_inv gc db C" and mw: "may_write db t c" and v: "valid_slot db slot" and now: "time (ts_manager db) = t + 1"
    and idle: "\<And>u d. u \<noteq> t \<Longrightarrow> contexts db u = Some d \<Longrightarrow> finish_time d = txn_id u \<Longrightarrow> undo_buffer d = []"
  shows "\<not> HasConflict_slot c slot (store db)"
proof (cases "C slot")
  case Nil
  then show ?thesis using slot_pointer(1) [OF inv v] by (simp add: HasConflict_slot_def HasConflict_def)
next
  case (Cons q qs)
  let ?ts = "rec_timestamp (undo_recs (store db) q)"
  have M: "contexts db t = Some c" "finish_time c = txn_id t" "start_time c = t"
    using mw inv_context(1) [OF inv] by (auto simp: may_write_def times_inv_def)
  have "?ts = txn_id t \<or> Committed ?ts \<and> ?ts < t + 1"
  proof (rule ccontr)
    assume n: "\<not> ?thesis"
    then obtain u d where u: "contexts db u = Some d" "finish_time d = txn_id u" "?ts = txn_id u"
      using linked_times [OF inv v, of q] Cons now by (auto simp: active_def)
    then have "q \<in> set (undo_buffer d)" using inv_own_record [OF inv u(1,2) v, of q] Cons by simp
    moreover have "u \<noteq> t" using n u(3) by auto
    ultimately show False using idle [OF _ u(1,2)] by simp
  qed
  moreover have "x < t + 1 \<Longrightarrow> \<not> NewerThan x t" for x
    using inv_context(3) [OF inv M(1)] by (auto simp: NewerThan_def Committed_iff word_less_nat_alt unat_word_ariths)
  ultimately show ?thesis
    using slot_pointer(1) [OF inv v] Cons M txn_id_uncommitted [OF inv_context(3) [OF inv M(1)]]
    by (auto simp: HasConflict_slot_def HasConflict_def Let_def FinishTime_def StartTime_def)
qed

lemma update_progress:
  assumes ref: "engine_refines (gc, db) a" and mw: "may_write db t c" and v: "valid_slot db slot" and row: "good_row delta"
    and nc: "\<not> HasConflict_slot c slot (store db)" and rd: "engine_reads (gc, db) t slot cols (Some r)"
  shows "\<exists>db' c'. engine_step asserts exec (gc, db) (Updated t slot delta) (gc, db') \<and> same_world db t db'
    \<and> time (ts_manager db') = time (ts_manager db) \<and> may_write db' t c' \<and> redo_buffer c' = redo_buffer c"
proof -
  obtain C where C: "db_inv gc db C" "a = si_abs db C" using ref by (auto simp: engine_refines_def)
  have c: "contexts db t = Some c" "finish_time c = txn_id t" "\<not> must_abort c" using mw by (simp_all add: may_write_def)
  have "Some r = map_option (\<lambda>row. map row cols) (seen db C t slot)"
    using engine_reads_view [OF ref rd] C(2) c by (auto simp: si_abs_def active_def)
  then have "seen db C t slot \<noteq> None" by (metis option.distinct(1) option.simps(8))
  then have vis: "Visible (memory (store db)) slot" using no_conflict_sees [OF C(1) mw v nc] by simp
  obtain db' where up: "SqlTable_Update 0 t slot delta db = Some (True, db')"
    using Update_returns [OF C(1) c(1) v, of 0 delta] nc vis by auto
  then obtain c' st' where u: "Update (tables db 0) slot delta c (store db) = Some (True, c', st')"
      and db': "db' = db\<lparr>contexts := (contexts db)(t \<mapsto> c'), store := st'\<rparr>"
    using c(1) by (auto simp: SqlTable_Update_def Let_def split: option.splits prod.splits)
  then have "c' = push_undo (undo_next (store db)) c"
    using Update_success [OF u] row slot_pointer(2) [OF C(1) v] by (auto simp: good_row_def)
  then have "same_world db t db'" "may_write db' t c'" "redo_buffer c' = redo_buffer c" "ts_manager db' = ts_manager db"
    using c by (auto simp: db' same_world_def may_write_def push_undo_def)
  then show ?thesis using engine_update [OF mw v row up] by metis
qed

section \<open>The run\<close>

text \<open>A table is created, and transaction 0 inserts the row 7 and commits.\<close>

lemma scenario_created:
  "\<exists>db. scenario_step scenario_init Internal (init_GarbageCollector, db) \<and> blocks (tables db 0) \<noteq> []
    \<and> free_blocks (tables db 0) (memory (store db)) \<noteq> [] \<and> (\<forall>e. BlockStore_Get (block_store db) \<noteq> Inl e) \<and> (\<forall>t. contexts db t = None) \<and> time (ts_manager db) = 0"
proof -
  let ?db0 = "init_database scenario_blocks scenario_storage False True"
  have "BlockStore_Get scenario_blocks =
      Inr (0x100000, scenario_blocks\<lparr>block_pool := (make_ObjectPool 10 10)\<lparr>current_size := 1\<rparr>, new_calls := 1\<rparr>)"
    by (simp add: BlockStore_Get_def scenario_blocks_def make_ObjectPool_def Get_def)
  then obtain db where db: "CreateTable 0 scenario_layout 0 ?db0 = Inr db" "blocks (tables db 0) = [0x100000]"
      "block_store db = scenario_blocks\<lparr>block_pool := (make_ObjectPool 10 10)\<lparr>current_size := 1\<rparr>, new_calls := 1\<rparr>"
      "contexts db = (\<lambda>_. None)" "ts_manager db = init_TimestampManager" "free_blocks (tables db 0) (memory (store db)) \<noteq> []"
    by (simp add: CreateTable_def make_DataTable_def NewBlock_def Let_def init_database_def no_table_def
        free_blocks_def InitializeRawBlock_def scenario_layout_def)
  have "scenario_step (init_GarbageCollector, ?db0) Internal (init_GarbageCollector, db)"
    by (rule engine_create [OF _ _ _ db(1)]) (simp_all add: init_database_def no_table_def scenario_layout_def BLOCK_SIZE_def)
  moreover have "BlockStore_Get (block_store db) \<noteq> Inl e" for e
    by (simp add: db(3) BlockStore_Get_def scenario_blocks_def make_ObjectPool_def Get_def word_le_nat_alt)
  ultimately show ?thesis
    using db by (intro exI [of _ db]) (simp add: scenario_init_def init_TimestampManager_def INITIAL_TXN_TIMESTAMP_def)
qed

lemma insert_progress:
  assumes ref: "engine_refines (gc, db) a" and mw: "may_write db t c" and row: "good_row delta"
    and b: "blocks (tables db i) \<noteq> []" and get: "\<And>e. BlockStore_Get (block_store db) \<noteq> Inl e"
  shows "\<exists>slot db' c'. engine_step asserts exec (gc, db) (Inserted t slot delta) (gc, db') \<and> valid_slot db' slot
    \<and> may_write db' t c' \<and> time (ts_manager db') = time (ts_manager db) \<and> (\<forall>u. u \<noteq> t \<longrightarrow> contexts db' u = contexts db u)
    \<and> blocks (tables db' i) \<noteq> []
    \<and> (free_blocks (tables db i) (memory (store db)) \<noteq> [] \<longrightarrow> block_store db' = block_store db)"
proof -
  obtain C where C: "db_inv gc db C" using ref by (auto simp: engine_refines_def)
  have M: "contexts db t = Some c" "finish_time c = txn_id t" "\<not> must_abort c" using mw by (simp_all add: may_write_def)
  obtain slot db' where ins: "SqlTable_Insert asserts i t delta db = Some (Inr (slot, db'))" "blocks (tables db' i) \<noteq> []"
      "free_blocks (tables db i) (memory (store db)) \<noteq> [] \<longrightarrow> block_store db' = block_store db"
    using Insert_total [OF C mw b, of asserts delta] get b by (fastforce split: list.splits sum.splits)
  have step: "engine_step asserts exec (gc, db) (Inserted t slot delta) (gc, db')" by (rule engine_insert [OF mw row b ins(1)])
  obtain C' where C': "db_inv gc db' C'" "si_step (si_abs db C) (Inserted t slot delta) (si_abs db' C')"
    using Insert_step [OF C mw row b ins(1)] by blast
  obtain c1 table' bs' st' where I: "Insert asserts delta c (tables db i) (block_store db) (store db) = Some (Inr (slot, c1, table', bs', st'))"
      and db': "db' = db\<lparr>contexts := (contexts db)(t \<mapsto> c1\<lparr>redo_buffer := set_last_slot slot (redo_buffer c1)\<rparr>),
        tables := (tables db)(i := table'), block_store := bs', store := st'\<rparr>"
    using ins(1) M(1) by (auto simp: SqlTable_Insert_def Let_def split: option.splits sum.splits prod.splits)
  have "\<exists>table1 st1 st2. InsertInto table1 delta slot c st1 = (c1, st2)"
    using I by (auto simp: Insert_def Let_def split: option.splits sum.splits prod.splits)
  then have "finish_time c1 = finish_time c \<and> must_abort c1 = must_abort c"
    by (auto simp: InsertInto_def UndoRecordForInsert_def Let_def)
  then have mw': "may_write db' t (c1\<lparr>redo_buffer := set_last_slot slot (redo_buffer c1)\<rparr>)"
    using M by (simp add: may_write_def db')
  obtain f where "si_view (si_abs db' C') t = Some f" "f slot \<noteq> None" using si_write_event(1) [OF C'(2)] by fastforce
  then have "seen db' C' t slot \<noteq> None" by (auto simp: si_abs_def split: if_splits)
  then have "valid_slot db' slot" by (auto simp: seen_def split: if_splits)
  moreover have "time (ts_manager db') = time (ts_manager db)" "\<forall>u. u \<noteq> t \<longrightarrow> contexts db' u = contexts db u"
    by (simp_all add: db')
  ultimately show ?thesis using step mw' ins(2,3) by blast
qed

lemma scenario_inserted:
  "\<exists>slot db. run scenario_step scenario_init [Internal, Begin 0, Inserted 0 slot (scenario_row 7), Committed_txn 0]
      (init_GarbageCollector, db)
    \<and> valid_slot db slot \<and> time (ts_manager db) = 2 \<and> (\<forall>t. \<not> active db t)"
proof -
  let ?gc = init_GarbageCollector
  have r0: "engine_refines scenario_init si_init"
    unfolding scenario_init_def by (rule engine_init_refines [OF scenario_allocator])
  obtain db1 where s1: "scenario_step scenario_init Internal (?gc, db1)" "blocks (tables db1 0) \<noteq> []"
      "\<And>e. BlockStore_Get (block_store db1) \<noteq> Inl e" "\<And>t. contexts db1 t = None" "time (ts_manager db1) = 0"
    using scenario_created by blast
  obtain db2 where s2: "scenario_step (?gc, db1) (Begin 0) (?gc, db2)" "same_world db1 0 db2"
      "may_write db2 0 (new_TransactionContext 0 (txn_id 0))" "time (ts_manager db2) = 0 + 1"
    using begin_progress [of db1 0 False "\<lambda>_ _. []" ?gc] s1(5) by (auto simp: clock_left_def)
  have run2: "run scenario_step scenario_init [Internal, Begin 0] (?gc, db2)" using s1(1) s2(1) by (auto intro: run.intros)
  obtain a2 where a2: "engine_refines (?gc, db2) a2" using engine.run_refines [OF run2 r0] by blast
  obtain slot db3 c3 where s3: "scenario_step (?gc, db2) (Inserted 0 slot (scenario_row 7)) (?gc, db3)" "valid_slot db3 slot"
      "may_write db3 0 c3" "time (ts_manager db3) = 1" "\<And>u. u \<noteq> 0 \<Longrightarrow> contexts db3 u = contexts db2 u"
    using insert_progress [OF a2 s2(3), of "scenario_row 7" 0 False "\<lambda>_ _. []"] s1(2,3) s2(2,4) by (auto simp: same_world_def)
  obtain db4 c4 where s4: "scenario_step (?gc, db3) (Committed_txn 0) (?gc, db4)" "same_world db3 0 db4"
      "time (ts_manager db4) = time (ts_manager db3) + 1" "contexts db4 0 = Some c4" "finish_time c4 = time (ts_manager db3)"
    using commit_progress [OF _ s3(3), of False "\<lambda>_ _. []" ?gc] s3(4) by (auto simp: clock_left_def)
  have "run scenario_step scenario_init [Internal, Begin 0, Inserted 0 slot (scenario_row 7), Committed_txn 0] (?gc, db4)"
    using run_snoc [OF run_snoc [OF run2 s3(1)] s4(1)] by simp
  moreover have "valid_slot db4 slot" using s3(2) same_world_valid [OF s4(2)] by simp
  moreover have "\<not> active db4 t" for t
    using s1(4) s2(2) s3(4,5) s4(2,4,5) by (cases "t = 0") (auto simp: active_def same_world_def txn_id_def INT64_MIN_def)
  ultimately show ?thesis using s3(4) s4(3) by auto
qed

text \<open>
  Transactions 2 and 3 begin, and 3 updates the row to 9. It commits or aborts at time 4, and then
  transaction 5 begins.
\<close>

definition scenario ::
  "TupleSlot \<Rightarrow> engine \<Rightarrow> engine \<Rightarrow> engine \<Rightarrow> engine \<Rightarrow> engine \<Rightarrow> engine \<Rightarrow> engine \<Rightarrow> engine \<Rightarrow> bool" where
  "scenario slot s1 s2 s3 s4 s5 s6 s5' s6' \<longleftrightarrow>
     run scenario_step scenario_init [Internal, Begin 0, Inserted 0 slot (scenario_row 7), Committed_txn 0] s1
     \<and> scenario_step s1 (Begin 2) s2 \<and> scenario_step s2 (Begin 3) s3
     \<and> scenario_step s3 (Updated 3 slot (scenario_row 9)) s4
     \<and> scenario_step s4 (Committed_txn 3) s5 \<and> scenario_step s5 (Begin 5) s6
     \<and> scenario_step s4 (Aborted_txn 3) s5' \<and> scenario_step s5' (Begin 5) s6'
     \<and> (\<forall>s \<in> {s1, s2, s3, s4, s5, s6, s5', s6'}. valid_slot (snd s) slot)
     \<and> (\<forall>s \<in> {s2, s3, s4, s5, s6, s5', s6'}. \<exists>c. may_write (snd s) 2 c)
     \<and> (\<exists>c. may_write (snd s4) 3 c) \<and> (\<forall>s \<in> {s6, s6'}. \<exists>c. may_write (snd s) 5 c)"

lemma run_ref: "run scenario_step scenario_init es s \<Longrightarrow> \<exists>a. engine_refines s a"
  using engine.run_refines engine_init_refines [OF scenario_allocator] unfolding scenario_init_def by blast

lemma scenario_updated:
  "\<exists>slot db1 db2 db3 db4 c4.
     run scenario_step scenario_init [Internal, Begin 0, Inserted 0 slot (scenario_row 7), Committed_txn 0] (init_GarbageCollector, db1)
     \<and> valid_slot db1 slot
     \<and> scenario_step (init_GarbageCollector, db1) (Begin 2) (init_GarbageCollector, db2) \<and> same_world db1 2 db2
     \<and> may_write db2 2 (new_TransactionContext 2 (txn_id 2))
     \<and> scenario_step (init_GarbageCollector, db2) (Begin 3) (init_GarbageCollector, db3) \<and> same_world db2 3 db3
     \<and> scenario_step (init_GarbageCollector, db3) (Updated 3 slot (scenario_row 9)) (init_GarbageCollector, db4)
     \<and> same_world db3 3 db4 \<and> time (ts_manager db4) = 4 \<and> may_write db4 3 c4
     \<and> redo_buffer c4 = redo_buffer (new_TransactionContext 3 (txn_id 3))"
proof -
  let ?gc = init_GarbageCollector and ?c = "\<lambda>t. new_TransactionContext t (txn_id t)"
  obtain slot db1 where r1: "run scenario_step scenario_init [Internal, Begin 0, Inserted 0 slot (scenario_row 7), Committed_txn 0] (?gc, db1)"
      "valid_slot db1 slot" "time (ts_manager db1) = 2" "\<And>t. \<not> active db1 t"
    using scenario_inserted by blast
  obtain db2 where s2: "scenario_step (?gc, db1) (Begin 2) (?gc, db2)" "same_world db1 2 db2" "may_write db2 2 (?c 2)" "time (ts_manager db2) = 3"
    using begin_progress [of db1 2 False "\<lambda>_ _. []" ?gc] r1(3) by (auto simp: clock_left_def)
  obtain db3 where s3: "scenario_step (?gc, db2) (Begin 3) (?gc, db3)" "same_world db2 3 db3" "may_write db3 3 (?c 3)" "time (ts_manager db3) = 4"
    using begin_progress [of db2 3 False "\<lambda>_ _. []" ?gc] s2(4) by (auto simp: clock_left_def)
  have v3: "valid_slot db3 slot" using r1(2) same_world_valid [OF s2(2)] same_world_valid [OF s3(2)] by simp
  have run3: "run scenario_step scenario_init
      ([Internal, Begin 0] @ (Inserted 0 slot (scenario_row 7) # [] @ Committed_txn 0 # [Begin 2] @ [Begin 3])) (?gc, db3)"
    using run_snoc [OF run_snoc [OF r1(1) s2(1)] s3(1)] by simp
  then obtain a3 where a3: "engine_refines (?gc, db3) a3" using run_ref by blast
  then obtain C3 where C3: "db_inv ?gc db3 C3" by (auto simp: engine_refines_def)
  have c2: "contexts db3 2 = Some (?c 2)" using s2(3) s3(2) by (simp add: may_write_def same_world_def)
  have idle: "undo_buffer d = []" if "u \<noteq> 3" "contexts db3 u = Some d" "finish_time d = txn_id u" for u d
    using that r1(4) s2(2) s3(2) c2 by (cases "u = 2") (auto simp: same_world_def active_def new_TransactionContext_def)
  have nc: "\<not> HasConflict_slot (?c 3) slot (store db3)"
    using fresh_no_conflict [OF C3 s3(3) v3 _ idle] s3(4) by simp
  have act: "active db3 3" using s3(3) by (auto simp: may_write_def active_def)
  obtain r where rd: "engine_reads (?gc, db3) 3 slot (col_ids (scenario_row 7)) r"
    using engine_reads_total [OF a3, of 3 slot "scenario_row 7"] act v3 by auto
  obtain s02 where p: "run scenario_step scenario_init [Internal, Begin 0] s02"
      "run scenario_step s02 (Inserted 0 slot (scenario_row 7) # [] @ Committed_txn 0 # [Begin 2] @ [Begin 3]) (?gc, db3)"
    using run3 unfolding run_append [of _ _ "[Internal, Begin 0]"] by blast
  obtain a02 where a02: "engine_refines s02 a02" using run_ref [OF p(1)] by blast
  have "shows_read (Some (scenario_row 7)) (col_ids (scenario_row 7)) r"
    by (rule engine.committed_write_visible [OF p(2) a02 _ _ _ _ _ rd]) auto
  then have rd': "engine_reads (?gc, db3) 3 slot [1] (Some [Some [7]])" using rd by simp
  obtain db4 c4 where s4: "scenario_step (?gc, db3) (Updated 3 slot (scenario_row 9)) (?gc, db4)" "same_world db3 3 db4"
      "time (ts_manager db4) = 4" "may_write db4 3 c4" "redo_buffer c4 = redo_buffer (?c 3)"
    using update_progress [OF a3 s3(3) v3 _ nc rd', of "scenario_row 9" False "\<lambda>_ _. []"] s3(4) by auto
  show ?thesis using r1(1,2) s2(1-3) s3(1,2) s4 by blast
qed

lemma scenario_exists: "\<exists>slot s1 s2 s3 s4 s5 s6 s5' s6'. scenario slot s1 s2 s3 s4 s5 s6 s5' s6'"
proof -
  let ?gc = init_GarbageCollector and ?c = "\<lambda>t. new_TransactionContext t (txn_id t)"
  obtain slot db1 db2 db3 db4 c4 where r1:
      "run scenario_step scenario_init [Internal, Begin 0, Inserted 0 slot (scenario_row 7), Committed_txn 0] (?gc, db1)" "valid_slot db1 slot"
    and s2: "scenario_step (?gc, db1) (Begin 2) (?gc, db2)" "same_world db1 2 db2" "may_write db2 2 (?c 2)"
    and s3: "scenario_step (?gc, db2) (Begin 3) (?gc, db3)" "same_world db2 3 db3"
    and s4: "scenario_step (?gc, db3) (Updated 3 slot (scenario_row 9)) (?gc, db4)" "same_world db3 3 db4"
      "time (ts_manager db4) = 4" "may_write db4 3 c4" "redo_buffer c4 = redo_buffer (?c 3)"
    using scenario_updated by blast
  obtain a4 where a4: "engine_refines (?gc, db4) a4" using run_ref [OF run_snoc [OF run_snoc [OF run_snoc [OF r1(1) s2(1)] s3(1)] s4(1)]] by blast
  obtain db5 where s5: "scenario_step (?gc, db4) (Committed_txn 3) (?gc, db5)" "same_world db4 3 db5" "time (ts_manager db5) = 5"
    using commit_progress [OF _ s4(4), of False "\<lambda>_ _. []" ?gc] s4(3) by (auto simp: clock_left_def)
  have "abort_ready c4 (store db4)"
    using s4(5) by (simp add: abort_ready_def new_TransactionContext_def RedoBuffer_LastRecord_def)
  then obtain db5' where s5': "scenario_step (?gc, db4) (Aborted_txn 3) (?gc, db5')" "same_world db4 3 db5'" "time (ts_manager db5') = 5"
    using abort_progress [OF a4, of 3 c4 False "\<lambda>_ _. []"] s4(3,4) by (auto simp: clock_left_def may_write_def)
  obtain db6 where s6: "scenario_step (?gc, db5) (Begin 5) (?gc, db6)" "same_world db5 5 db6" "may_write db6 5 (?c 5)"
    using begin_progress [of db5 5 False "\<lambda>_ _. []" ?gc] s5(3) by (auto simp: clock_left_def)
  obtain db6' where s6': "scenario_step (?gc, db5') (Begin 5) (?gc, db6')" "same_world db5' 5 db6'" "may_write db6' 5 (?c 5)"
    using begin_progress [of db5' 5 False "\<lambda>_ _. []" ?gc] s5'(3) by (auto simp: clock_left_def)
  note W = s2(2) s3(2) s4(2) s5(2) s6(2) s5'(2) s6'(2)
  have v: "valid_slot db slot" if "db \<in> {db1, db2, db3, db4, db5, db6, db5', db6'}" for db
    using that r1(2) by (auto simp: W [THEN same_world_valid])
  have "contexts db 2 = Some (?c 2)" if "db \<in> {db2, db3, db4, db5, db6, db5', db6'}" for db
    using that s2(3) W(2-7) by (auto simp: same_world_def may_write_def)
  then have mw2: "\<exists>c. may_write db 2 c" if "db \<in> {db2, db3, db4, db5, db6, db5', db6'}" for db
    using that s2(3) by (auto simp: may_write_def)
  have "scenario slot (?gc, db1) (?gc, db2) (?gc, db3) (?gc, db4) (?gc, db5) (?gc, db6) (?gc, db5') (?gc, db6')"
    unfolding scenario_def
    using r1(1) s2(1) s3(1) s4(1,4) s5(1) s6(1,3) s5'(1) s6'(1,3) v mw2 by auto
  then show ?thesis by blast
qed

text \<open>After the first commit the log removes the transaction, and nothing runs.\<close>

lemma RemoveTransactions_all: "curr_running_txns (RemoveTransactions (curr_running_txns tm) tm) = []"
proof -
  have "curr_running_txns tm = ts \<Longrightarrow> curr_running_txns (fold RemoveTransaction ts tm) = []" for ts
    by (induction ts arbitrary: tm) (simp_all add: RemoveTransaction_def)
  then show ?thesis by (simp add: RemoveTransactions_def)
qed

lemma scenario_run: "run scenario_step scenario_init es s \<Longrightarrow> engine_run False (\<lambda>_ _. []) es s"
  unfolding engine_run_def scenario_init_def using scenario_allocator by blast

lemma scenario_idle:
  "\<exists>slot s. engine_run False (\<lambda>_ _. []) [Internal, Begin 0, Inserted 0 slot (scenario_row 7), Committed_txn 0, Internal] s
    \<and> valid_slot (snd s) slot \<and> curr_running_txns (ts_manager (snd s)) = [] \<and> clock_left 6 (snd s) \<and> gc_enabled (snd s)"
proof -
  obtain slot db where r: "run scenario_step scenario_init [Internal, Begin 0, Inserted 0 slot (scenario_row 7), Committed_txn 0] (init_GarbageCollector, db)"
      "valid_slot db slot" "time (ts_manager db) = 2" "\<And>t. \<not> active db t"
    using scenario_inserted by blast
  let ?db = "db\<lparr>ts_manager := RemoveTransactions (curr_running_txns (ts_manager db)) (ts_manager db), log_queue := [], callbacks := []\<rparr>"
  have "scenario_step (init_GarbageCollector, db) Internal (init_GarbageCollector, ?db)"
    using r(4) by (intro engine_logged) blast
  from run_snoc [OF r(1) this]
  have run: "run scenario_step scenario_init [Internal, Begin 0, Inserted 0 slot (scenario_row 7), Committed_txn 0, Internal]
      (init_GarbageCollector, ?db)" by simp
  have "engine_refines scenario_init si_init" "tracked scenario_init" "gc_enabled (snd scenario_init)"
    unfolding scenario_init_def using engine_init_refines [OF scenario_allocator] init_tracked by (simp_all add: init_database_def)
  then have "gc_enabled ?db" using run_tracked(2) [OF run] by simp
  moreover have "valid_slot ?db slot" "curr_running_txns (ts_manager ?db) = []" "clock_left 6 ?db"
    using r(2,3) by (simp_all add: valid_slot_def clock_left_def RemoveTransactions_all RemoveTransactions_running)
  ultimately show ?thesis using scenario_run [OF run] by (intro exI [of _ slot] exI [of _ "(init_GarbageCollector, ?db)"]) simp
qed

text \<open>The runs that lead to the states of the scenario.\<close>

lemma scenario_runs:
  assumes "scenario slot s1 s2 s3 s4 s5 s6 s5' s6'"
  shows "run scenario_step scenario_init [Internal, Begin 0, Inserted 0 slot (scenario_row 7), Committed_txn 0, Begin 2] s2"
    and "run scenario_step scenario_init [Internal, Begin 0, Inserted 0 slot (scenario_row 7), Committed_txn 0, Begin 2, Begin 3,
      Updated 3 slot (scenario_row 9)] s4"
    and "run scenario_step scenario_init [Internal, Begin 0, Inserted 0 slot (scenario_row 7), Committed_txn 0, Begin 2, Begin 3,
      Updated 3 slot (scenario_row 9), Committed_txn 3] s5"
    and "run scenario_step scenario_init [Internal, Begin 0, Inserted 0 slot (scenario_row 7), Committed_txn 0, Begin 2, Begin 3,
      Updated 3 slot (scenario_row 9), Committed_txn 3, Begin 5] s6"
    and "run scenario_step scenario_init [Internal, Begin 0, Inserted 0 slot (scenario_row 7), Committed_txn 0, Begin 2, Begin 3,
      Updated 3 slot (scenario_row 9), Aborted_txn 3, Begin 5] s6'"
proof -
  have S: "run scenario_step scenario_init [Internal, Begin 0, Inserted 0 slot (scenario_row 7), Committed_txn 0] s1"
      "scenario_step s1 (Begin 2) s2" "scenario_step s2 (Begin 3) s3" "scenario_step s3 (Updated 3 slot (scenario_row 9)) s4"
      "scenario_step s4 (Committed_txn 3) s5" "scenario_step s5 (Begin 5) s6"
      "scenario_step s4 (Aborted_txn 3) s5'" "scenario_step s5' (Begin 5) s6'"
    using assms by (simp_all add: scenario_def)
  note r2 = run_snoc [OF S(1,2), simplified]
  note r4 = run_snoc [OF run_snoc [OF r2 S(3)] S(4), simplified]
  note r5 = run_snoc [OF r4 S(5), simplified]
  show "run scenario_step scenario_init [Internal, Begin 0, Inserted 0 slot (scenario_row 7), Committed_txn 0, Begin 2] s2" by (rule r2)
  show "run scenario_step scenario_init [Internal, Begin 0, Inserted 0 slot (scenario_row 7), Committed_txn 0, Begin 2, Begin 3,
      Updated 3 slot (scenario_row 9)] s4" by (rule r4)
  show "run scenario_step scenario_init [Internal, Begin 0, Inserted 0 slot (scenario_row 7), Committed_txn 0, Begin 2, Begin 3,
      Updated 3 slot (scenario_row 9), Committed_txn 3] s5" by (rule r5)
  show "run scenario_step scenario_init [Internal, Begin 0, Inserted 0 slot (scenario_row 7), Committed_txn 0, Begin 2, Begin 3,
      Updated 3 slot (scenario_row 9), Committed_txn 3, Begin 5] s6" using run_snoc [OF r5 S(6)] by simp
  show "run scenario_step scenario_init [Internal, Begin 0, Inserted 0 slot (scenario_row 7), Committed_txn 0, Begin 2, Begin 3,
      Updated 3 slot (scenario_row 9), Aborted_txn 3, Begin 5] s6'" using run_snoc [OF run_snoc [OF r4 S(7)] S(8)] by simp
qed

text \<open>Transaction 2 reads the row that transaction 0 inserted.\<close>

lemma scenario_reads:
  assumes "scenario slot s1 s2 s3 s4 s5 s6 s5' s6'"
  shows "engine_reads s2 2 slot [1] (Some [Some [7]])"
proof -
  note S = assms [unfolded scenario_def]
  have r: "run scenario_step scenario_init
      ([Internal, Begin 0] @ (Inserted 0 slot (scenario_row 7) # [] @ Committed_txn 0 # [] @ [Begin 2])) s2"
    using scenario_runs(1) [OF assms] by simp
  obtain a2 where a2: "engine_refines s2 a2" using run_ref [OF r] by blast
  obtain c where "may_write (snd s2) 2 c" using S by blast
  then have "active (snd s2) 2" "valid_slot (snd s2) slot" using S by (auto simp: may_write_def active_def)
  then obtain x where x: "engine_reads s2 2 slot [1] x"
    using engine_reads_total [OF a2, of 2 slot "scenario_row 7"] by auto
  obtain s02 where p: "run scenario_step scenario_init [Internal, Begin 0] s02"
      "run scenario_step s02 (Inserted 0 slot (scenario_row 7) # [] @ Committed_txn 0 # [] @ [Begin 2]) s2"
    using r unfolding run_append [of _ _ "[Internal, Begin 0]"] by blast
  obtain a02 where a02: "engine_refines s02 a02" using run_ref [OF p(1)] by blast
  have "shows_read (Some (scenario_row 7)) [1] x"
    by (rule engine.committed_write_visible [OF p(2) a02 _ _ _ _ _ x]) auto
  then show ?thesis using x by simp
qed

lemma scenario_reads_aborted:
  assumes "scenario slot s1 s2 s3 s4 s5 s6 s5' s6'"
  shows "engine_reads s6' 2 slot [1] (Some [Some [7]])"
proof -
  note S = assms [unfolded scenario_def]
  have r: "run scenario_step s2 [Begin 3, Updated 3 slot (scenario_row 9), Aborted_txn 3, Begin 5] s6'"
    using S by (blast intro: run.intros)
  obtain a2 where a2: "engine_refines s2 a2" using run_ref [OF scenario_runs(1) [OF assms]] by blast
  show ?thesis
    by (rule run_reads [OF r a2 engine_runD(2) [OF scenario_run [OF scenario_runs(1) [OF assms]]] _ scenario_reads [OF assms]]) simp
qed

lemma scenario_context:
  assumes "scenario slot s1 s2 s3 s4 s5 s6 s5' s6'"
  shows "contexts (snd s2) 2 = Some (new_TransactionContext 2 (txn_id 2))"
proof -
  have "scenario_step s1 (Begin 2) s2" using assms by (simp add: scenario_def)
  then show ?thesis
    by cases (auto simp: BeginTransaction_def TimestampManager_BeginTransaction_def txn_id_def)
qed

section \<open>A transaction with two writes\<close>

text \<open>
  Transactions 0 and 1 begin; 1 inserts the rows 7 and 8 into two slots and commits at time 2, and
  transaction 3 begins.
\<close>

definition two_writes :: "TupleSlot \<Rightarrow> TupleSlot \<Rightarrow> engine \<Rightarrow> engine \<Rightarrow> engine \<Rightarrow> bool" where
  "two_writes slot slot' s1 s2 s3 \<longleftrightarrow>
     slot' \<noteq> slot
     \<and> run scenario_step scenario_init [Internal, Begin 0, Begin 1, Inserted 1 slot (scenario_row 7), Inserted 1 slot' (scenario_row 8)] s1
     \<and> scenario_step s1 (Committed_txn 1) s2 \<and> scenario_step s2 (Begin 3) s3
     \<and> (\<forall>s \<in> {s1, s2, s3}. valid_slot (snd s) slot) \<and> (\<exists>c. may_write (snd s2) 0 c)"

lemma two_writes_exists: "\<exists>slot slot' s1 s2 s3. two_writes slot slot' s1 s2 s3"
proof -
  let ?gc = init_GarbageCollector
  obtain db1 where s1: "scenario_step scenario_init Internal (?gc, db1)" "blocks (tables db1 0) \<noteq> []"
      "free_blocks (tables db1 0) (memory (store db1)) \<noteq> []" "\<And>e. BlockStore_Get (block_store db1) \<noteq> Inl e" "time (ts_manager db1) = 0"
    using scenario_created by blast
  obtain db2 where s2: "scenario_step (?gc, db1) (Begin 0) (?gc, db2)" "same_world db1 0 db2" "store db2 = store db1"
      "may_write db2 0 (new_TransactionContext 0 (txn_id 0))" "time (ts_manager db2) = 0 + 1"
    using begin_progress [of db1 0 False "\<lambda>_ _. []" ?gc] s1(5) by (auto simp: clock_left_def)
  obtain db3 where s3: "scenario_step (?gc, db2) (Begin 1) (?gc, db3)" "same_world db2 1 db3" "store db3 = store db2"
      "may_write db3 1 (new_TransactionContext 1 (txn_id 1))" "time (ts_manager db3) = 1 + 1"
    using begin_progress [of db2 1 False "\<lambda>_ _. []" ?gc] s2(5) by (auto simp: clock_left_def)
  have run3: "run scenario_step scenario_init [Internal, Begin 0, Begin 1] (?gc, db3)" using s1(1) s2(1) s3(1) by (auto intro: run.intros)
  obtain a3 where a3: "engine_refines (?gc, db3) a3" using run_ref [OF run3] by blast
  have W: "tables db3 = tables db1" "block_store db3 = block_store db1" "store db3 = store db1"
    using s2(2,3) s3(2,3) by (simp_all add: same_world_def)
  obtain slot db4 c4 where s4: "scenario_step (?gc, db3) (Inserted 1 slot (scenario_row 7)) (?gc, db4)" "valid_slot db4 slot"
      "may_write db4 1 c4" "time (ts_manager db4) = 2" "\<And>u. u \<noteq> 1 \<Longrightarrow> contexts db4 u = contexts db3 u" "blocks (tables db4 0) \<noteq> []"
      "block_store db4 = block_store db3"
    using insert_progress [OF a3 s3(4), of "scenario_row 7" 0 False "\<lambda>_ _. []"] s1(2-4) s3(5) W by auto
  obtain a4 where a4: "engine_refines (?gc, db4) a4" "si_step a3 (Inserted 1 slot (scenario_row 7)) a4"
    using engine.simulation [OF a3 s4(1)] by blast
  obtain slot' db5 c5 where s5: "scenario_step (?gc, db4) (Inserted 1 slot' (scenario_row 8)) (?gc, db5)"
      "may_write db5 1 c5" "time (ts_manager db5) = 2" "\<And>u. u \<noteq> 1 \<Longrightarrow> contexts db5 u = contexts db4 u"
    using insert_progress [OF a4(1) s4(3), of "scenario_row 8" 0 False "\<lambda>_ _. []"] s1(4) s4(4,6,7) W(2) by auto
  obtain a5 where a5: "si_step a4 (Inserted 1 slot' (scenario_row 8)) a5" using engine.simulation [OF a4(1) s5(1)] by blast
  have "slot' \<noteq> slot"
    using si_write_event(1) [OF a4(2)] a5 by (fastforce elim!: si_step_cases(3))
  obtain db6 where s6: "scenario_step (?gc, db5) (Committed_txn 1) (?gc, db6)" "same_world db5 1 db6" "time (ts_manager db6) = 3"
    using commit_progress [OF _ s5(2), of False "\<lambda>_ _. []" ?gc] s5(3) by (auto simp: clock_left_def)
  obtain db7 where s7: "scenario_step (?gc, db6) (Begin 3) (?gc, db7)" "same_world db6 3 db7"
    using begin_progress [of db6 3 False "\<lambda>_ _. []" ?gc] s6(3) by (auto simp: clock_left_def)
  have "valid_slot db5 slot" using engine_progress [OF s5(1) a4(1)] s4(2) by (simp add: progresses_def)
  then have "valid_slot db6 slot" "valid_slot db7 slot" using same_world_valid [OF s6(2)] same_world_valid [OF s7(2)] by simp_all
  moreover have "contexts db6 0 = contexts db2 0" using s6(2) s5(4) s4(5) s3(2) by (simp add: same_world_def)
  then have "\<exists>c. may_write db6 0 c" using s2(4) by (auto simp: may_write_def)
  ultimately show ?thesis
    using run_snoc [OF run_snoc [OF run3 s4(1)] s5(1)] s6(1) s7(1) \<open>slot' \<noteq> slot\<close> \<open>valid_slot db5 slot\<close>
    unfolding two_writes_def by (intro exI) auto
qed

lemma two_writes_runs:
  assumes "two_writes slot slot' s1 s2 s3"
  shows "engine_run False (\<lambda>_ _. []) ([Internal, Begin 0, Begin 1] @ Inserted 1 slot (scenario_row 7) # [Inserted 1 slot' (scenario_row 8)]) s1"
    and "engine_run False (\<lambda>_ _. []) ([Internal] @ Begin 0 # [Begin 1] @ Inserted 1 slot (scenario_row 7)
      # [Inserted 1 slot' (scenario_row 8)] @ Committed_txn 1 # []) s2"
    and "engine_run False (\<lambda>_ _. []) ([Internal, Begin 0, Begin 1] @ Inserted 1 slot (scenario_row 7)
      # [Inserted 1 slot' (scenario_row 8)] @ Committed_txn 1 # [] @ [Begin 3]) s3"
proof -
  note S = assms [unfolded two_writes_def]
  have r: "run scenario_step scenario_init [Internal, Begin 0, Begin 1, Inserted 1 slot (scenario_row 7), Inserted 1 slot' (scenario_row 8)] s1"
    using S by blast
  then show "engine_run False (\<lambda>_ _. []) ([Internal, Begin 0, Begin 1] @ Inserted 1 slot (scenario_row 7) # [Inserted 1 slot' (scenario_row 8)]) s1"
    using scenario_run by simp
  have r2: "run scenario_step scenario_init
      [Internal, Begin 0, Begin 1, Inserted 1 slot (scenario_row 7), Inserted 1 slot' (scenario_row 8), Committed_txn 1] s2"
    using run_snoc [OF r, of "Committed_txn 1" s2] S by simp
  then show "engine_run False (\<lambda>_ _. []) ([Internal] @ Begin 0 # [Begin 1] @ Inserted 1 slot (scenario_row 7)
      # [Inserted 1 slot' (scenario_row 8)] @ Committed_txn 1 # []) s2"
    using scenario_run by simp
  show "engine_run False (\<lambda>_ _. []) ([Internal, Begin 0, Begin 1] @ Inserted 1 slot (scenario_row 7)
      # [Inserted 1 slot' (scenario_row 8)] @ Committed_txn 1 # [] @ [Begin 3]) s3"
    using scenario_run run_snoc [OF r2, of "Begin 3" s3] S by simp
qed

end
