(* ===== verification/Initializers.thy ===== *)
theory Initializers
  imports ColumnMap Scenario
begin

text \<open>
  \<open>ProjectedRowInitializer\<close> of \<^verbatim>\<open>storage/projected_row.cpp\<close>, \<open>ProjectedColumnsInitializer\<close> of
  \<^verbatim>\<open>storage/projected_columns.cpp\<close> and the calls of \<open>SqlTable\<close> that build them from column oids. The
  results: the values of a row lie in its buffer, aligned and without overlap; the rows that clients
  get from a table are of the form that the table operations need; and the projection map finds each
  column in them.
\<close>

section \<open>Rows\<close>

record ProjectedRowInitializer =
  pri_size :: u32
  pri_col_ids :: "col_id list"
  pri_offsets :: "u32 list"

text \<open>The loop of the constructor: the offsets of the values and the size after the last one.\<close>

fun row_offsets :: "u32 \<Rightarrow> u16 list \<Rightarrow> u32 list \<times> u32" where
  "row_offsets sz [] = ([], sz)"
| "row_offsets sz (a # as) =
     (let next_alignment = (case as of [] \<Rightarrow> 8 | b # _ \<Rightarrow> min b 8)
      in case row_offsets (PadUpToSize (ucast next_alignment) (sz + ucast a)) as of
           (offsets, end_size) \<Rightarrow> (sz # offsets, end_size))"

text \<open>\<open>sizeof(ProjectedRow)\<close> is 6, since the class is packed.\<close>

definition row_header_size :: "nat \<Rightarrow> u32" where
  "row_header_size n = PadUpToSize 4 (6 + of_nat (n * 2)) + of_nat (n * 4)"

definition row_initializer :: "u16 list \<Rightarrow> col_id list \<Rightarrow> ProjectedRowInitializer" where
  "row_initializer sizes ids =
     (let n = length ids;
          first_alignment = min (sizes ! 0) 8;
          start = PadUpToSize (ucast first_alignment) (row_header_size n + of_nat (SizeInBytes n));
          (offsets, end_size) = row_offsets start sizes
      in \<lparr>pri_size = end_size, pri_col_ids = ids, pri_offsets = offsets\<rparr>)"

text \<open>The constructor; a row without columns fails its assertion, and there is no first size to read.\<close>

definition make_ProjectedRowInitializer :: "u16 list \<Rightarrow> col_id list \<Rightarrow> ProjectedRowInitializer option" where
  "make_ProjectedRowInitializer sizes ids = (if ids = [] then None else Some (row_initializer sizes ids))"

definition InitializeRow :: "ProjectedRowInitializer \<Rightarrow> ProjectedRow \<Rightarrow> ProjectedRow" where
  "InitializeRow init head =
     head\<lparr>pr_size := pri_size init, col_ids := pri_col_ids init, attr_value_offsets := pri_offsets init,
          pr_bitmap := Clear (pr_bitmap head) (length (pri_col_ids init))\<rparr>"

text \<open>\<open>None\<close> is the exception of \<open>AttrSize\<close> for a column that the layout does not have.\<close>

fun col_sizes :: "BlockLayout \<Rightarrow> col_id list \<Rightarrow> u16 list option" where
  "col_sizes layout [] = Some []"
| "col_sizes layout (c # cs) =
     (case AttrSize layout c of
        None \<Rightarrow> None
      | Some sz \<Rightarrow> map_option (\<lambda>szs. sz # szs) (col_sizes layout cs))"

definition PRI_Create :: "BlockLayout \<Rightarrow> col_id list \<Rightarrow> ProjectedRowInitializer option" where
  "PRI_Create layout ids =
     (let ids = sort ids
      in case col_sizes layout ids of
           None \<Rightarrow> None
         | Some sizes \<Rightarrow> make_ProjectedRowInitializer sizes ids)"

text \<open>The other factories: sizes that are not those of a layout, with the ids that the caller gives.\<close>

definition PRI_Create_offsets :: "u16 list \<Rightarrow> u16 list \<Rightarrow> ProjectedRowInitializer option" where
  "PRI_Create_offsets real_attr_sizes pr_offsets =
     make_ProjectedRowInitializer (rev (sort real_attr_sizes)) pr_offsets"

definition PRI_Create_sizes :: "u16 list \<Rightarrow> col_id list \<Rightarrow> ProjectedRowInitializer option" where
  "PRI_Create_sizes real_attr_sizes ids = make_ProjectedRowInitializer real_attr_sizes ids"

definition InitializerForProjectedRow :: "DataTableVersion \<Rightarrow> col_oid list \<Rightarrow> ProjectedRowInitializer option" where
  "InitializerForProjectedRow tab col_oids =
     (case ColIdsForOids tab col_oids of
        None \<Rightarrow> None
      | Some ids \<Rightarrow> PRI_Create (version_layout tab) ids)"

section \<open>Columns\<close>

record ProjectedColumnsInitializer =
  pci_size :: u32
  pci_max_tuples :: u32
  pci_attr_ends :: "u16 list"
  pci_col_ids :: "col_id list"
  pci_offsets :: "u32 list"

definition NUM_ATTR_BOUNDARIES :: nat where
  "NUM_ATTR_BOUNDARIES = 4"

text \<open>The inner loop moves to the next smaller size; it ends because the shifted size becomes zero.\<close>

function next_boundary :: "nat \<Rightarrow> nat \<Rightarrow> u16 list \<Rightarrow> nat \<times> u16 list" where
  "next_boundary attr_size k ends =
     (if attr_size < 16 div 2 ^ k
      then next_boundary attr_size (k + 1)
             (if k < NUM_ATTR_BOUNDARIES - 1 then ends[k + 1 := ends ! k] else ends)
      else (k, ends))"
  by pat_completeness auto
termination
proof (relation "measure (\<lambda>(attr_size, k, ends). 5 - k)")
  fix attr_size k :: nat and ends :: "u16 list"
  assume "attr_size < 16 div 2 ^ k"
  then have "k < 5" by (cases "k < 5") (auto simp: div_eq_0_iff not_less dest: power_increasing [of 5 k "2 :: nat"])
  then show "((attr_size, k + 1, if k < NUM_ATTR_BOUNDARIES - 1 then ends[k + 1 := ends ! k] else ends), attr_size, k, ends)
      \<in> measure (\<lambda>(attr_size, k, ends). 5 - k)" by simp
qed simp

declare next_boundary.simps [simp del]

fun column_starts ::
  "u32 \<Rightarrow> u32 \<Rightarrow> nat \<Rightarrow> u16 list \<Rightarrow> u16 list \<Rightarrow> u32 list \<times> u32 \<times> u16 list" where
  "column_starts max_tuples sz k ends [] = ([], sz, ends)"
| "column_starts max_tuples sz k ends (a # as) =
     (case next_boundary (unat a) k ends of
        (k', ends') \<Rightarrow>
          let ends'' = (if k' < NUM_ATTR_BOUNDARIES then ends'[k' := ends' ! k' + 1] else ends');
              sz' = PadUpToSize 8 (sz + of_nat (SizeInBytes (unat max_tuples)));
              sz'' = PadUpToSize 8 (sz' + ucast a * max_tuples)
          in case column_starts max_tuples sz'' k' ends'' as of
               (offsets, end_size, ends) \<Rightarrow> (sz # offsets, end_size, ends))"

text \<open>\<open>sizeof(ProjectedColumns)\<close> is 22 and \<open>sizeof(TupleSlot)\<close> is 8.\<close>

definition make_ProjectedColumnsInitializer ::
  "BlockLayout \<Rightarrow> col_id list \<Rightarrow> u32 \<Rightarrow> ProjectedColumnsInitializer option" where
  "make_ProjectedColumnsInitializer layout ids max_tuples =
     (let ids = sort ids; n = length ids;
          sz = PadUpToSize 4 (22 + of_nat (n * 2));
          sz = PadUpToSize 8 (sz + of_nat (n * 4));
          sz = sz + 8 * max_tuples
      in if ids = [] then None
         else map_option
           (\<lambda>sizes. case column_starts max_tuples sz 0 (replicate NUM_ATTR_BOUNDARIES 0) sizes of
              (offsets, end_size, ends) \<Rightarrow>
                \<lparr>pci_size = end_size, pci_max_tuples = max_tuples, pci_attr_ends = ends, pci_col_ids = ids,
                 pci_offsets = offsets\<rparr>)
           (col_sizes layout ids))"

definition InitializerForProjectedColumns ::
  "DataTableVersion \<Rightarrow> col_oid list \<Rightarrow> u32 \<Rightarrow> ProjectedColumnsInitializer option" where
  "InitializerForProjectedColumns tab col_oids max_tuples =
     (case ColIdsForOids tab col_oids of
        None \<Rightarrow> None
      | Some ids \<Rightarrow> make_ProjectedColumnsInitializer (version_layout tab) ids max_tuples)"

text \<open>The size of a column from the boundaries: how many of them its index has passed.\<close>

fun passed_boundaries :: "u16 \<Rightarrow> u16 list \<Rightarrow> nat" where
  "passed_boundaries i [] = 0"
| "passed_boundaries i (b # bs) = (if i < b then 0 else Suc (passed_boundaries i bs))"

definition AttrSizeFromBoundaries :: "u16 list \<Rightarrow> u16 \<Rightarrow> u8" where
  "AttrSizeFromBoundaries boundaries col_idx = drop_bit (passed_boundaries col_idx boundaries) 16"

definition AttrSizeForColumn :: "ProjectedColumnsInitializer \<Rightarrow> u16 \<Rightarrow> u32" where
  "AttrSizeForColumn pc i = drop_bit (passed_boundaries i (pci_attr_ends pc)) 16"

text \<open>\<open>ComputeAttributeSizeBoundaries\<close> is the same loop over the sizes alone.\<close>

fun ComputeAttributeSizeBoundaries :: "nat \<Rightarrow> u16 list \<Rightarrow> u16 list \<Rightarrow> u16 list" where
  "ComputeAttributeSizeBoundaries k [] ends = ends"
| "ComputeAttributeSizeBoundaries k (a # as) ends =
     (case next_boundary (unat a) k ends of
        (k', ends') \<Rightarrow>
          ComputeAttributeSizeBoundaries k' as (if k' < NUM_ATTR_BOUNDARIES then ends'[k' := ends' ! k' + 1] else ends'))"

section \<open>The layout of a row\<close>

lemma pad_bounds:
  assumes "0 < w"
  shows "n \<le> pad w n" "pad w n \<le> n + w - 1" "w dvd pad w n"
proof -
  have q: "n + w - 1 = (n + w - 1) div w * w + (n + w - 1) mod w" and r: "(n + w - 1) mod w < w" using assms by simp_all
  show "n \<le> pad w n" using q r assms unfolding pad_def by linarith
  show "pad w n \<le> n + w - 1" using q unfolding pad_def by linarith
  show "w dvd pad w n" by (simp add: pad_def)
qed

lemma unat_PadUpToSize:
  assumes "unat x + 8 \<le> 2 ^ 32" and "w \<in> {8, 4, 2, 1 :: u8}"
  shows "unat (PadUpToSize w x) = pad (unat w) (unat x)"
proof -
  obtain k where k: "k \<le> 3" "w = 2 ^ k"
  proof -
    have "w = 2 ^ 3 \<or> w = 2 ^ 2 \<or> w = 2 ^ 1 \<or> w = 2 ^ 0" using assms(2) by auto
    then show ?thesis using that [of 3] that [of 2] that [of 1] that [of 0] by auto
  qed
  have "(2 :: nat) ^ k \<le> 2 ^ 3" using k(1) by (intro power_increasing) simp_all
  then have "unat (PadUpToSize w x) = pad (2 ^ k) (unat x)"
    using unat_pad_mask [of x k] assms(1) k(1)
    by (auto simp: PadUpToSize_def Let_def k(2) mask_eq_exp_minus_1 le_Suc_eq numeral_3_eq_3)
  moreover have "unat w = 2 ^ k" using k by (auto simp: le_Suc_eq numeral_3_eq_3)
  ultimately show ?thesis by simp
qed

text \<open>Values one after the other between two positions, each aligned to its size or to 8.\<close>

fun cells_ok :: "nat \<Rightarrow> nat list \<Rightarrow> nat list \<Rightarrow> nat \<Rightarrow> bool" where
  "cells_ok start [] [] stop = (start \<le> stop)"
| "cells_ok start (s # ss) (p # ps) stop = (start \<le> p \<and> min s 8 dvd p \<and> cells_ok (p + s) ss ps stop)"
| "cells_ok start _ _ stop = False"

lemma cells_ok_weaken: "cells_ok start ss ps stop \<Longrightarrow> start' \<le> start \<Longrightarrow> cells_ok start' ss ps stop"
  by (cases ss; cases ps) auto

lemma cells_okD:
  assumes "cells_ok start ss ps stop"
  shows "length ps = length ss" and "start \<le> stop"
    and "i < length ss \<Longrightarrow> start \<le> ps ! i \<and> ps ! i + ss ! i \<le> stop \<and> min (ss ! i) 8 dvd ps ! i"
    and "i < j \<Longrightarrow> j < length ss \<Longrightarrow> ps ! i + ss ! i \<le> ps ! j"
proof -
  have "length ps = length ss \<and> start \<le> stop
    \<and> (\<forall>i < length ss. start \<le> ps ! i \<and> ps ! i + ss ! i \<le> stop \<and> min (ss ! i) 8 dvd ps ! i)
    \<and> (\<forall>i j. i < j \<longrightarrow> j < length ss \<longrightarrow> ps ! i + ss ! i \<le> ps ! j)"
    using assms
  proof (induction start ss ps stop rule: cells_ok.induct)
    case (2 start s ss p ps stop)
    then have IH: "length ps = length ss" "p + s \<le> stop"
        "\<And>i. i < length ss \<Longrightarrow> p + s \<le> ps ! i \<and> ps ! i + ss ! i \<le> stop \<and> min (ss ! i) 8 dvd ps ! i"
        "\<And>i j. i < j \<Longrightarrow> j < length ss \<Longrightarrow> ps ! i + ss ! i \<le> ps ! j" by auto
    have "start \<le> (p # ps) ! i \<and> (p # ps) ! i + (s # ss) ! i \<le> stop \<and> min ((s # ss) ! i) 8 dvd (p # ps) ! i"
      if "i < length (s # ss)" for i
      using that 2(2) IH(2) IH(3) [of "i - 1"] by (cases i) auto
    moreover have "(p # ps) ! i + (s # ss) ! i \<le> (p # ps) ! j" if "i < j" "j < length (s # ss)" for i j
      using that IH(3) [of "j - 1"] IH(4) [of "i - 1" "j - 1"] by (cases i; cases j) auto
    ultimately show ?case using 2(2) IH(1,2) by auto
  qed auto
  then show "length ps = length ss" and "start \<le> stop"
    and "i < length ss \<Longrightarrow> start \<le> ps ! i \<and> ps ! i + ss ! i \<le> stop \<and> min (ss ! i) 8 dvd ps ! i"
    and "i < j \<Longrightarrow> j < length ss \<Longrightarrow> ps ! i + ss ! i \<le> ps ! j" by blast+
qed

abbreviation real_size :: "u16 \<Rightarrow> bool" where
  "real_size sz \<equiv> sz \<in> {16, 8, 4, 2, 1}"

lemma real_size_align: "real_size a \<Longrightarrow> (ucast (min a 8) :: u8) \<in> {8, 4, 2, 1} \<and> unat (ucast (min a 8) :: u8) = min (unat a) 8"
  by (auto simp: min_def)

lemma row_offsets_ok:
  assumes "list_all real_size sizes" and "unat sz + 24 * length sizes + 8 \<le> 2 ^ 32"
    and "sizes \<noteq> [] \<longrightarrow> min (unat (hd sizes)) 8 dvd unat sz"
  shows "cells_ok (unat sz) (map unat sizes) (map unat (fst (row_offsets sz sizes))) (unat (snd (row_offsets sz sizes)))
    \<and> (sizes \<noteq> [] \<longrightarrow> 8 dvd unat (snd (row_offsets sz sizes)))"
  using assms
proof (induction sizes arbitrary: sz)
  case (Cons a as)
  let ?al = "case as of [] \<Rightarrow> 8 | b # _ \<Rightarrow> min b 8"
  let ?w = "ucast ?al :: u8" and ?n = "if as = [] then 8 else min (unat (hd as)) 8"
  have al: "?w \<in> {8, 4, 2, 1}" "unat ?w = ?n"
    using real_size_align [of "hd as"] Cons.prems(1) by (cases as; auto)+
  have a: "unat a \<le> 16" "real_size a" using Cons.prems(1) by auto
  have add: "unat (sz + ucast a) = unat sz + unat a"
    using Cons.prems(2) a(1) by (simp add: unat_word_ariths unat_ucast_16_32)
  let ?sz = "PadUpToSize ?w (sz + ucast a)"
  have p: "unat ?sz = pad ?n (unat sz + unat a)"
    using unat_PadUpToSize [of "sz + ucast a" ?w] al add Cons.prems(2) a(1) by simp
  have n: "0 < ?n" "?n \<le> 8" using Cons.prems(1) by (cases as; auto)+
  note B = pad_bounds [OF n(1), of "unat sz + unat a"]
  have "cells_ok (unat ?sz) (map unat as) (map unat (fst (row_offsets ?sz as))) (unat (snd (row_offsets ?sz as)))
      \<and> (as \<noteq> [] \<longrightarrow> 8 dvd unat (snd (row_offsets ?sz as)))"
  proof (rule Cons.IH)
    show "unat ?sz + 24 * length as + 8 \<le> 2 ^ 32" using Cons.prems(2) a(1) B(2) n(2) p by simp
    show "as \<noteq> [] \<longrightarrow> min (unat (hd as)) 8 dvd unat ?sz" using B(3) p by auto
  qed (use Cons.prems in simp)
  moreover have "8 dvd unat ?sz" if "as = []" using B(3) p that by simp
  ultimately show ?case
    using cells_ok_weaken B(1) p Cons.prems(3) by (auto simp: Let_def case_prod_unfold)
qed simp

lemma unat_row_header_size:
  assumes "n \<le> MAX_COL"
  shows "unat (row_header_size n) = pad 4 (6 + n * 2) + n * 4" and "pad 4 (6 + n * 2) \<le> n * 2 + 9"
proof -
  have "unat (6 + of_nat (n * 2) :: u32) = 6 + n * 2" using assms by (simp add: unat_word_ariths unat_of_nat MAX_COL_def)
  then have p: "unat (PadUpToSize 4 (6 + of_nat (n * 2))) = pad 4 (6 + n * 2)"
    using unat_PadUpToSize [of "6 + of_nat (n * 2)" 4] assms by (simp add: MAX_COL_def)
  show b: "pad 4 (6 + n * 2) \<le> n * 2 + 9" using pad_bounds(2) [of 4 "6 + n * 2"] by simp
  show "unat (row_header_size n) = pad 4 (6 + n * 2) + n * 4"
    using p b assms by (simp add: row_header_size_def unat_word_ariths unat_of_nat MAX_COL_def)
qed

lemma row_initializer_ok:
  assumes "list_all real_size sizes" and "sizes \<noteq> []" and "length ids = length sizes" and "length sizes \<le> MAX_COL"
  defines "init \<equiv> row_initializer sizes ids"
  shows "cells_ok (pad 4 (6 + length ids * 2) + length ids * 4 + SizeInBytes (length ids)) (map unat sizes) (map unat (pri_offsets init)) (unat (pri_size init))"
    and "8 dvd unat (pri_size init)"
proof -
  let ?n = "length ids" and ?w = "ucast (min (sizes ! 0) 8) :: u8"
  let ?x = "row_header_size ?n + of_nat (SizeInBytes ?n)" and ?h = "pad 4 (6 + ?n * 2) + ?n * 4"
  have n: "?n \<le> MAX_COL" using assms(3,4) by simp
  note H = unat_row_header_size [OF n]
  have sb: "SizeInBytes ?n \<le> ?n" by (rule SizeInBytes_le)
  have x: "unat ?x = ?h + SizeInBytes ?n"
    using H sb n by (simp add: unat_word_ariths unat_of_nat MAX_COL_def)
  have hd: "sizes ! 0 = hd sizes" "real_size (hd sizes)" using assms(1,2) by (cases sizes; auto)+
  note A = real_size_align [OF hd(2)]
  let ?st = "PadUpToSize ?w ?x"
  have st: "unat ?st = pad (min (unat (hd sizes)) 8) (?h + SizeInBytes ?n)"
    using unat_PadUpToSize [of ?x ?w] A x H(2) sb n hd(1) by (simp add: MAX_COL_def)
  have pos: "0 < min (unat (hd sizes)) 8" using hd(2) by auto
  note B = pad_bounds [OF pos, of "?h + SizeInBytes ?n"]
  have "unat ?st + 24 * length sizes + 8 \<le> 2 ^ 32" using B(2) st H(2) sb n assms(3) by (simp add: MAX_COL_def)
  from row_offsets_ok [OF assms(1) this] B(3) st
  have R: "cells_ok (unat ?st) (map unat sizes) (map unat (fst (row_offsets ?st sizes))) (unat (snd (row_offsets ?st sizes)))"
      "8 dvd unat (snd (row_offsets ?st sizes))"
    using assms(2) by simp_all
  have "?h + SizeInBytes ?n \<le> unat ?st" using B(1) st by simp
  with R show "cells_ok (?h + SizeInBytes ?n) (map unat sizes) (map unat (pri_offsets init)) (unat (pri_size init))"
    and "8 dvd unat (pri_size init)"
    using cells_ok_weaken by (simp_all add: init_def row_initializer_def Let_def case_prod_unfold)
qed

text \<open>
  Where \<open>ProjectedRow\<close> itself looks for its value offsets and its null bitmap, in a row at the address
  \<open>head\<close>: after the size, the number of columns and the column ids, padded to four bytes.
\<close>

definition PR_AttrValueOffsets :: "u64 \<Rightarrow> nat \<Rightarrow> u64" where
  "PR_AttrValueOffsets head num_cols = AlignedPtr 4 (head + 6 + 2 * of_nat num_cols)"

definition PR_Bitmap :: "u64 \<Rightarrow> nat \<Rightarrow> u64" where
  "PR_Bitmap head num_cols = PR_AttrValueOffsets head num_cols + 4 * of_nat num_cols"

lemma pad_add:
  assumes "0 < w" and "w dvd h"
  shows "pad w (h + n) = h + pad w n"
proof -
  obtain k where k: "h = w * k" using assms(2) by auto
  have "h + n + w - 1 = (n + w - 1) + k * w" using assms(1) by (simp add: k mult.commute)
  then have "(h + n + w - 1) div w = k + (n + w - 1) div w" using assms(1) by (simp only: div_mult_self1)
  then show ?thesis by (simp add: pad_def k algebra_simps)
qed

lemma unat_AlignedPtr_4:
  assumes "unat x + 4 \<le> 2 ^ 64"
  shows "unat (AlignedPtr 4 x) = pad 4 (unat x)"
proof -
  have "(ucast (4 :: u8) - 1 :: u64) = mask 2" by (simp add: mask_eq_exp_minus_1)
  then show ?thesis using unat_pad_mask [of x 2] assms by (simp add: AlignedPtr_def Let_def)
qed

lemma PR_addresses:
  assumes "4 dvd unat head" and "n \<le> MAX_COL" and "unat head + (pad 4 (6 + n * 2) + n * 4) < 2 ^ 64"
  shows "unat (PR_AttrValueOffsets head n) = unat head + pad 4 (6 + n * 2)"
    and "unat (PR_Bitmap head n) = unat head + (pad 4 (6 + n * 2) + n * 4)"
proof -
  have le: "6 + n * 2 \<le> pad 4 (6 + n * 2)" by (rule pad_bounds(1)) simp
  have n: "unat (2 * of_nat n :: u64) = 2 * n" "unat (4 * of_nat n :: u64) = 4 * n"
    using assms(2) by (simp_all add: unat_word_ariths unat_of_nat MAX_COL_def)
  have x: "unat (head + 6 + 2 * of_nat n) = unat head + (6 + n * 2)"
    using assms(3) le n(1) by (simp add: unat_word_ariths)
  have "4 dvd (2 :: nat) ^ 64" by simp
  then have "unat head + pad 4 (6 + n * 2) + 4 \<le> 2 ^ 64"
    using assms(1,3) pad_bounds(3) [of 4 "6 + n * 2"] by (auto elim!: dvdE) presburger
  then have "unat (head + 6 + 2 * of_nat n) + 4 \<le> 2 ^ 64" using x le by simp
  then have "unat (AlignedPtr 4 (head + 6 + 2 * of_nat n)) = pad 4 (unat (head + 6 + 2 * of_nat n))"
    by (rule unat_AlignedPtr_4)
  also have "\<dots> = unat head + pad 4 (6 + n * 2)" unfolding x by (rule pad_add) (use assms(1) in simp_all)
  finally show "unat (PR_AttrValueOffsets head n) = unat head + pad 4 (6 + n * 2)" by (simp add: PR_AttrValueOffsets_def)
  then show "unat (PR_Bitmap head n) = unat head + (pad 4 (6 + n * 2) + n * 4)"
    using assms(3) n(2) by (simp add: PR_Bitmap_def unat_word_ariths)
qed

text \<open>
  C22. The values of a projected row are where they should be. For every non-empty projection list and
  all attribute sizes, \<open>ProjectedRowInitializer\<close> places each value after the end of the null bitmap at the
  address where \<open>ProjectedRow\<close> looks for it, inside the size that it computes, aligned to the size of the
  attribute (8 for larger ones), and no two values overlap; the size is a multiple of 8. The row is in
  memory that is aligned to 8 bytes.
\<close>

theorem row_layout_fits:
  assumes "list_all real_size sizes" and "sizes \<noteq> []" and "length ids = length sizes" and "length sizes \<le> MAX_COL"
  shows "\<exists>init. make_ProjectedRowInitializer sizes ids = Some init
    \<and> length (pri_offsets init) = length ids \<and> 8 dvd unat (pri_size init)
    \<and> (\<forall>i < length ids. unat (pri_offsets init ! i) + unat (sizes ! i) \<le> unat (pri_size init)
         \<and> min (unat (sizes ! i)) 8 dvd unat (pri_offsets init ! i))
    \<and> (\<forall>i j. i < j \<longrightarrow> j < length ids \<longrightarrow> unat (pri_offsets init ! i) + unat (sizes ! i) \<le> unat (pri_offsets init ! j))
    \<and> (\<forall>head i. 8 dvd unat head \<longrightarrow> unat head + unat (pri_size init) < 2 ^ 64 \<longrightarrow> i < length ids \<longrightarrow>
         unat (PR_Bitmap head (length ids)) + SizeInBytes (length ids) \<le> unat head + unat (pri_offsets init ! i))"
proof -
  let ?n = "length ids" and ?i = "row_initializer sizes ids"
  note R = row_initializer_ok [OF assms]
  note C = cells_okD [OF R(1)]
  have len: "length (pri_offsets ?i) = ?n" using C(1) assms(3) by simp
  have "unat (PR_Bitmap head ?n) + SizeInBytes ?n \<le> unat head + unat (pri_offsets ?i ! i)"
    if "8 dvd unat head" "unat head + unat (pri_size ?i) < 2 ^ 64" "i < ?n" for head i
  proof -
    have "4 dvd unat head" using dvd_trans [of 4 8 "unat head"] that(1) by simp
    then have "unat (PR_Bitmap head ?n) = unat head + (pad 4 (6 + ?n * 2) + ?n * 4)"
      using PR_addresses(2) [of head ?n] C(2) that(2) assms(3,4) by simp
    then show ?thesis using C(3) [of i] that(3) len assms(3) by simp
  qed
  then show ?thesis
    using C(3,4) R(2) assms(2,3) len by (intro exI [of _ ?i]) (auto simp: make_ProjectedRowInitializer_def)
qed

theorem row_layout_fits_witness:
  "\<exists>init. make_ProjectedRowInitializer [1, 1] [1, 2] = Some init
     \<and> unat (PR_Bitmap 4096 2) + SizeInBytes 2 \<le> 4096 + unat (pri_offsets init ! 0) \<and> unat (pri_size init) = 24"
proof -
  have p: "list_all real_size [1, 1]" "[1, 1 :: u16] \<noteq> []" "length [1, 2 :: u16] = length [1, 1 :: u16]"
      "length [1, 1 :: u16] \<le> MAX_COL" by (simp_all add: MAX_COL_def)
  from row_layout_fits [OF p] obtain init where i: "make_ProjectedRowInitializer [1, 1] [1, 2] = Some init"
    and b: "\<And>head i. 8 dvd unat head \<Longrightarrow> unat head + unat (pri_size init) < 2 ^ 64 \<Longrightarrow> i < 2 \<Longrightarrow>
         unat (PR_Bitmap head 2) + SizeInBytes 2 \<le> unat head + unat (pri_offsets init ! i)"
    by (auto simp: numeral_2_eq_2)
  have "pri_size init = 24"
    using i by (simp add: make_ProjectedRowInitializer_def row_initializer_def row_header_size_def PadUpToSize_def SizeInBytes_def Let_def)
      auto
  then show ?thesis using b [of 4096 0] i by auto
qed

section \<open>Rows for the columns of a table\<close>

lemma ColIdsForOids_eq:
  assumes "set oids \<subseteq> dom (column_map tab)" and "oids \<noteq> []"
  shows "ColIdsForOids tab oids = Some (map (\<lambda>x. the (column_map tab x)) oids)"
proof -
  have "col_ids_loop tab oids = Some (map (\<lambda>x. the (column_map tab x)) oids)" using assms(1) by (induction oids) auto
  then show ?thesis using assms(2) by (simp add: ColIdsForOids_def)
qed

lemma col_sizes_eq:
  "\<forall>c \<in> set ids. AttrSize layout c \<noteq> None \<Longrightarrow> col_sizes layout ids = Some (map (\<lambda>c. the (AttrSize layout c)) ids)"
  by (induction ids) auto

lemma fold_map_upd_inverse:
  assumes "distinct ids" and "length ids = length oids" and "i < length ids"
  shows "fold (\<lambda>(c, x) m. m(c \<mapsto> x)) (zip ids oids) m (ids ! i) = Some (oids ! i)"
proof -
  have out: "fold (\<lambda>(c, x) m. m(c \<mapsto> x)) (zip cs xs) m' y = m' y" if "y \<notin> set cs" for cs xs m' y
    using that
  proof (induction cs arbitrary: xs m')
    case (Cons c cs)
    then show ?case by (cases xs) auto
  qed simp
  show ?thesis
    using assms
  proof (induction ids arbitrary: oids i m)
    case (Cons c cs)
    then obtain x xs where xs: "oids = x # xs" by (cases oids) auto
    show ?case
    proof (cases i)
      case 0
      have "c \<notin> set cs" using Cons.prems(1) by simp
      from out [OF this, of xs "m(c \<mapsto> x)"] show ?thesis by (simp add: 0 xs del: fun_upd_apply) (simp add: fun_upd_same)
    next
      case (Suc k)
      then show ?thesis using Cons.prems Cons.IH [of xs k "m(c \<mapsto> x)"] by (simp add: xs del: fun_upd_apply)
    qed
  qed simp
qed

lemma fold_map_upd:
  assumes "inj_on g (set xs)" and "x \<in> set xs"
  shows "fold (\<lambda>x m. m(g x \<mapsto> f x)) xs m (g x) = Some (f x)"
proof -
  have same: "fold (\<lambda>x m. m(g x \<mapsto> f x)) ys m' (g x) = Some (f x)"
    if "m' (g x) = Some (f x) \<or> x \<in> set ys" "set ys \<subseteq> set xs" for ys m'
    using that
  proof (induction ys arbitrary: m')
    case (Cons y ys)
    have "(m'(g y \<mapsto> f y)) (g x) = Some (f x) \<or> x \<in> set ys"
      using Cons.prems assms by (auto simp: inj_on_def)
    then show ?case using Cons.IH [of "m'(g y \<mapsto> f y)"] Cons.prems(2) by simp
  qed simp
  show ?thesis by (rule same) (use assms in simp_all)
qed

lemma ProjectionMapForOids_index:
  assumes sub: "set oids \<subseteq> dom (column_map tab)" and inj: "inj_on (column_map tab) (dom (column_map tab))" and d: "distinct oids"
    and ne: "oids \<noteq> []"
  defines "ids \<equiv> map (\<lambda>x. the (column_map tab x)) oids"
  shows "distinct ids"
    and "\<exists>pm. ProjectionMapForOids tab oids = Some pm
      \<and> (\<forall>x \<in> set oids. \<exists>i < length ids. pm x = Some (of_nat i) \<and> column_map tab x = Some (sort ids ! i))"
proof -
  have at: "column_map tab x = Some (the (column_map tab x))" if "x \<in> set oids" for x using sub that by auto
  have "inj_on (\<lambda>x. the (column_map tab x)) (set oids)"
  proof (rule inj_onI)
    fix x y assume x: "x \<in> set oids" "y \<in> set oids" "the (column_map tab x) = the (column_map tab y)"
    then have "column_map tab x = column_map tab y" using at [of x] at [of y] by simp
    then show "x = y" using inj_onD [OF inj] x(1,2) sub by blast
  qed
  then show di: "distinct ids" using d by (simp add: ids_def distinct_map)
  define inv where "inv = fold (\<lambda>(c, x) m. m(c \<mapsto> x)) (zip ids oids) Map.empty"
  define g where "g = (\<lambda>i. the (inv (sort ids ! i)))"
  have inv: "inv (the (column_map tab x)) = Some x" if "x \<in> set oids" for x
  proof -
    obtain j where j: "j < length oids" "x = oids ! j" using \<open>x \<in> set oids\<close> by (auto simp: in_set_conv_nth)
    have "inv (ids ! j) = Some (oids ! j)" unfolding inv_def by (rule fold_map_upd_inverse) (use di j in \<open>simp_all add: ids_def\<close>)
    then show ?thesis using j by (simp add: ids_def)
  qed
  have g: "column_map tab (g i) = Some (sort ids ! i)" if "i < length ids" for i
  proof -
    have "sort ids ! i \<in> set ids" using that by (metis length_sort nth_mem set_sort)
    then obtain x where "x \<in> set oids" "sort ids ! i = the (column_map tab x)" by (auto simp: ids_def)
    then show ?thesis using inv [of x] at [of x] by (simp add: g_def)
  qed
  have "inj_on g (set [0..<length ids])"
  proof (rule inj_onI)
    fix i j assume i: "i \<in> set [0..<length ids]" "j \<in> set [0..<length ids]" "g i = g j"
    have "sort ids ! i = sort ids ! j" using g [of i] g [of j] i by simp
    then show "i = j" using di i nth_eq_iff_index_eq [of "sort ids" i j] by simp
  qed
  note pm = fold_map_upd [OF this, where f = of_nat and m = Map.empty]
  let ?pm = "fold (\<lambda>i m. m(g i \<mapsto> of_nat i)) [0..<length ids] Map.empty :: col_oid \<rightharpoonup> u16"
  have "\<exists>i < length ids. ?pm x = Some (of_nat i) \<and> column_map tab x = Some (sort ids ! i)" if x: "x \<in> set oids" for x
  proof -
    have "the (column_map tab x) \<in> set (sort ids)" using x by (simp add: ids_def)
    then obtain i where i: "i < length ids" "sort ids ! i = the (column_map tab x)" by (metis in_set_conv_nth length_sort)
    then have "g i = x" using inv [OF x] by (simp add: g_def)
    then have "?pm x = Some (of_nat i)" using pm [of i] i(1) by simp
    then show ?thesis using i at [OF x] by auto
  qed
  moreover have "ProjectionMapForOids tab oids = Some ?pm"
    using ColIdsForOids_eq [OF sub ne, folded ids_def] di
    by (simp only: ProjectionMapForOids_def Let_def option.case distinct_remdups_id length_sort g_def inv_def)
  ultimately show "\<exists>pm. ProjectionMapForOids tab oids = Some pm
      \<and> (\<forall>x \<in> set oids. \<exists>i < length ids. pm x = Some (of_nat i) \<and> column_map tab x = Some (sort ids ! i))"
    by blast
qed

text \<open>
  C20. The rows that a table hands out can be passed to its operations. For a table with a schema as in
  the type property and a projection on at least one of its columns, \<open>InitializerForProjectedRow\<close> and
  \<open>ProjectionMapForOids\<close> do not throw; a row initialized in any buffer has sorted columns without the
  version pointer, all values null, and holds each requested column at the index that the projection
  map gives.
\<close>

theorem initialized_rows_good:
  assumes "list_all valid_attr (map column_attr_size cols)" and "distinct (map column_oid cols)" and "length cols < MAX_COL"
    and "make_SqlTable i cols db = Some (Inr (tab, db'))"
    and "set oids \<subseteq> column_oid ` set cols" and "distinct oids" and "oids \<noteq> []"
  shows "\<exists>init pm. InitializerForProjectedRow tab oids = Some init \<and> ProjectionMapForOids tab oids = Some pm
    \<and> good_row (InitializeRow init head)
    \<and> (\<forall>k < length oids. PR_IsNull (InitializeRow init head) k)
    \<and> (\<forall>x \<in> set oids. \<exists>k < length oids. pm x = Some (of_nat k) \<and> column_map tab x = Some (col_ids (InitializeRow init head) ! k))"
proof -
  obtain m where m: "tab = \<lparr>version_table = i, version_layout = make_BlockLayout (schema_attr_sizes cols), column_map = m\<rparr>"
      "dom m = column_oid ` set cols" "\<And>j. j < length cols \<Longrightarrow> m (column_oid (cols ! j)) = Some (of_nat (assigned_col cols j))"
    using make_SqlTable_map [OF assms(1,2), of i db] assms(4)
    by (cases "CreateTable i (make_BlockLayout (schema_attr_sizes cols)) 0 db") auto
  note W = column_map_facts [OF assms(1-3) m(2,3)]
  have sub: "set oids \<subseteq> dom (column_map tab)" and inj: "inj_on (column_map tab) (dom (column_map tab))"
    using assms(5) m(1,2) W(1) by simp_all
  let ?ids = "map (\<lambda>x. the (column_map tab x)) oids"
  note P = ProjectionMapForOids_index [OF sub inj assms(6,7)]
  have id: "c \<noteq> VERSION_POINTER_COLUMN_ID \<and> AttrSize (version_layout tab) c \<noteq> None" if c: "c \<in> set ?ids" for c
  proof -
    obtain x where x: "x \<in> set oids" "c = the (column_map tab x)" using c by auto
    then obtain d where "d \<in> set cols" "x = column_oid d" using assms(5) by auto
    then show ?thesis using W(2) [of d] x(2) m(1) by auto
  qed
  moreover have "sort ?ids \<noteq> []" using assms(7) by (metis length_sort length_map length_0_conv)
  ultimately have "InitializerForProjectedRow tab oids =
      Some (row_initializer (map (\<lambda>c. the (AttrSize (version_layout tab) c)) (sort ?ids)) (sort ?ids))"
    using ColIdsForOids_eq [OF sub assms(7)] assms(7) col_sizes_eq [of "sort ?ids" "version_layout tab"]
    by (simp add: InitializerForProjectedRow_def PRI_Create_def make_ProjectedRowInitializer_def Let_def)
  moreover define init where "init = row_initializer (map (\<lambda>c. the (AttrSize (version_layout tab) c)) (sort ?ids)) (sort ?ids)"
  moreover have cols: "col_ids (InitializeRow init head) = sort ?ids"
    by (simp add: init_def InitializeRow_def row_initializer_def Let_def case_prod_unfold)
  moreover have "good_row (InitializeRow init head)"
    using P(1) id by (auto simp: good_row_def sorted_row_def cols strict_sorted_iff)
  moreover have "PR_IsNull (InitializeRow init head) k" if "k < length oids" for k
    using that by (simp add: PR_IsNull_def InitializeRow_def init_def row_initializer_def Let_def case_prod_unfold Test_Clear)
  ultimately show ?thesis using P(2) by auto
qed

theorem initialized_rows_good_witness:
  "\<exists>tab db' init. make_SqlTable 0 [\<lparr>column_oid = 7, column_attr_size = 4\<rparr>, \<lparr>column_oid = 9, column_attr_size = 8\<rparr>]
        (init_database scenario_blocks scenario_storage False True) = Some (Inr (tab, db'))
     \<and> InitializerForProjectedRow tab [7] = Some init \<and> good_row (InitializeRow init (scenario_row 0))"
proof -
  let ?cols = "[\<lparr>column_oid = 7, column_attr_size = 4\<rparr>, \<lparr>column_oid = 9, column_attr_size = 8\<rparr>]"
  let ?db = "init_database scenario_blocks scenario_storage False True"
  have v: "list_all valid_attr (map column_attr_size ?cols)" "distinct (map column_oid ?cols)" "length ?cols < MAX_COL"
    by (simp_all add: valid_attr_def MAX_COL_def)
  obtain m where m: "make_SqlTable 0 ?cols ?db = Some (case CreateTable 0 (make_BlockLayout (schema_attr_sizes ?cols)) 0 ?db of
        Inl e \<Rightarrow> Inl e
      | Inr db' \<Rightarrow> Inr (\<lparr>version_table = 0, version_layout = make_BlockLayout (schema_attr_sizes ?cols), column_map = m\<rparr>, db'))"
    using make_SqlTable_map [OF v(1,2)] by blast
  have "\<exists>db'. CreateTable 0 (make_BlockLayout (schema_attr_sizes ?cols)) 0 ?db = Inr db'"
    by (simp add: CreateTable_def make_DataTable_def NewBlock_def BlockStore_Get_def Get_def scenario_blocks_def init_database_def make_ObjectPool_def Let_def)
  then obtain tab db' where t: "make_SqlTable 0 ?cols ?db = Some (Inr (tab, db'))" using m by auto
  from initialized_rows_good [OF v t, of "[7]" "scenario_row 0"] show ?thesis using t by auto
qed

section \<open>The attribute sizes of projected columns\<close>

text \<open>How many of the sizes are at least that of a boundary.\<close>

definition at_least :: "nat \<Rightarrow> u16 list \<Rightarrow> nat" where
  "at_least k sizes = length (filter (\<lambda>a. 16 div 2 ^ k \<le> unat a) sizes)"

text \<open>The state of the loop: it stands at boundary \<open>k\<close> and has seen \<open>ps\<close>.\<close>

definition bounds_inv :: "nat \<Rightarrow> u16 list \<Rightarrow> u16 list \<Rightarrow> bool" where
  "bounds_inv k ends ps \<longleftrightarrow>
     k \<le> 4 \<and> length ends = 4 \<and> (\<forall>a \<in> set ps. 16 div 2 ^ k \<le> unat a)
     \<and> (\<forall>l < 4. l \<le> k \<longrightarrow> ends ! l = of_nat (at_least l ps))"

lemma at_least_all: "\<forall>a \<in> set ps. 16 div 2 ^ k \<le> unat a \<Longrightarrow> at_least k ps = length ps"
  by (simp add: at_least_def)

lemma shift_less:
  assumes "l < k" and "k \<le> 4"
  shows "16 div 2 ^ k < (16 div 2 ^ l :: nat)"
proof -
  have "k \<in> {1, 2, 3, 4}" "l \<in> {0, 1, 2, 3}" using assms by auto
  then show ?thesis using assms(1) by (elim insertE emptyE) simp_all
qed

lemma shift_of:
  assumes "s \<in> {16, 8, 4, 2, 1 :: nat}"
  shows "\<exists>j \<le> 4. s = 16 div 2 ^ j"
proof -
  have "s = 16 div 2 ^ 0 \<or> s = 16 div 2 ^ 1 \<or> s = 16 div 2 ^ 2 \<or> s = 16 div 2 ^ 3 \<or> s = 16 div 2 ^ 4" using assms by auto
  moreover have "(0 :: nat) \<le> 4" "(1 :: nat) \<le> 4" "(2 :: nat) \<le> 4" "(3 :: nat) \<le> 4" "(4 :: nat) \<le> 4" by simp_all
  ultimately show ?thesis by blast
qed

lemma shift_next:
  assumes "s \<in> {16, 8, 4, 2, 1 :: nat}" and "s < 16 div 2 ^ k" and "k < 4"
  shows "s \<le> 16 div 2 ^ (k + 1)"
proof -
  have "k \<in> {0, 1, 2, 3}" using assms(3) by auto
  then show ?thesis using assms(1,2) by (elim insertE emptyE) simp_all
qed

lemma next_boundary_inv:
  assumes "bounds_inv k ends ps" and "next_boundary s k ends = (k', ends')" and "s \<in> {16, 8, 4, 2, 1}" and "s \<le> 16 div 2 ^ k"
  shows "bounds_inv k' ends' ps \<and> s = 16 div 2 ^ k'"
  using assms
proof (induction s k ends rule: next_boundary.induct)
  case (1 s k ends)
  show ?case
  proof (cases "s < 16 div 2 ^ k")
    case True
    let ?ends = "if k < NUM_ATTR_BOUNDARIES - 1 then ends[k + 1 := ends ! k] else ends"
    have k: "k < 4" using True 1(2,4) by (cases "k = 4") (auto simp: bounds_inv_def)
    then have half: "s \<le> 16 div 2 ^ (k + 1)" using shift_next [OF 1(4) True] by blast
    have low: "16 div 2 ^ (k + 1) \<le> (16 div 2 ^ k :: nat)" using shift_less [of k "k + 1"] k by simp
    have seen: "\<forall>a \<in> set ps. 16 div 2 ^ (k + 1) \<le> unat a" "\<forall>a \<in> set ps. 16 div 2 ^ k \<le> unat a"
      using 1(2) low by (auto simp: bounds_inv_def intro: order.trans)
    have "ends ! k = of_nat (length ps)" using 1(2) k seen(2) by (simp add: bounds_inv_def at_least_all)
    then have "bounds_inv (k + 1) ?ends ps"
      using 1(2) k seen at_least_all [OF seen(1)]
      by (auto simp: bounds_inv_def NUM_ATTR_BOUNDARIES_def nth_list_update le_Suc_eq)
    then show ?thesis using 1(1) [OF True] 1(3,4) half True by (simp add: next_boundary.simps [of s k])
  next
    case False
    then have "next_boundary s k ends = (k, ends)" by (subst next_boundary.simps) simp
    then show ?thesis using 1(2,3,5) False by auto
  qed
qed

lemma count_step_inv:
  assumes "bounds_inv k ends ps" and "unat a = 16 div 2 ^ k"
  shows "bounds_inv k (if k < NUM_ATTR_BOUNDARIES then ends[k := ends ! k + 1] else ends) (ps @ [a])"
proof -
  have later: "\<not> 16 div 2 ^ l \<le> unat a" if "l < k" for l
  proof -
    have "k \<le> 4" using assms(1) by (simp add: bounds_inv_def)
    then show ?thesis using shift_less [OF that] assms(2) by simp
  qed
  show ?thesis
    using assms later by (auto simp: bounds_inv_def NUM_ATTR_BOUNDARIES_def at_least_def nth_list_update)
qed

lemma column_starts_bounds:
  assumes "bounds_inv k ends ps" and "list_all real_size sizes" and "sorted_wrt (\<ge>) (map unat sizes)"
    and "\<forall>a \<in> set sizes. unat a \<le> 16 div 2 ^ k"
  shows "\<exists>k'. bounds_inv k' (snd (snd (column_starts max_tuples sz k ends sizes))) (ps @ sizes)"
  using assms
proof (induction sizes arbitrary: k ends ps sz)
  case (Cons a as)
  obtain k1 ends1 where n: "next_boundary (unat a) k ends = (k1, ends1)" by fastforce
  have s: "unat a \<in> {16, 8, 4, 2, 1}" using Cons.prems(2) by auto
  note B = next_boundary_inv [OF Cons.prems(1) n s]
  have b: "bounds_inv k1 ends1 ps" "unat a = 16 div 2 ^ k1" using B Cons.prems(4) by auto
  note C = count_step_inv [OF b]
  have "\<forall>x \<in> set as. unat x \<le> 16 div 2 ^ k1" using Cons.prems(3) b(2) by simp
  from Cons.IH [OF C _ _ this] Cons.prems(2,3) show ?case
    by (auto simp: n Let_def case_prod_unfold)
qed auto

lemma sorted_at_least:
  assumes "sorted_wrt (\<ge>) (map unat sizes)" and "i < length sizes"
  shows "i < at_least l sizes \<longleftrightarrow> 16 div 2 ^ l \<le> unat (sizes ! i)"
  using assms
proof (induction sizes arbitrary: i)
  case (Cons a as)
  have "at_least l as = 0" if "\<not> 16 div 2 ^ l \<le> unat a"
  proof -
    have "\<forall>x \<in> set as. \<not> 16 div 2 ^ l \<le> unat x" using Cons.prems(1) that by auto
    then show ?thesis by (simp add: at_least_def)
  qed
  then show ?case
    using Cons.IH [of "i - 1"] Cons.prems by (cases i) (auto simp: at_least_def)
qed simp

lemma passed_boundaries_eq:
  "j \<le> length bs \<Longrightarrow> (\<And>l. l < j \<Longrightarrow> \<not> i < bs ! l) \<Longrightarrow> (j < length bs \<Longrightarrow> i < bs ! j) \<Longrightarrow> passed_boundaries i bs = j"
proof (induction bs arbitrary: j)
  case (Cons b bs)
  show ?case
  proof (cases j)
    case (Suc j')
    have "passed_boundaries i bs = j'"
      using Cons.IH [of j'] Cons.prems(1) Cons.prems(2) [of "Suc _"] Cons.prems(3) Suc by auto
    then show ?thesis using Cons.prems(2) [of 0] Suc by simp
  qed (use Cons.prems(3) in simp)
qed simp

lemma passed_boundaries_size:
  assumes b: "bounds_inv k ends sizes" and r: "list_all real_size sizes" and s: "sorted_wrt (\<ge>) (map unat sizes)"
    and i: "i < length sizes" and n: "length sizes \<le> MAX_COL"
  shows "unat (sizes ! i) = 16 div 2 ^ passed_boundaries (of_nat i) ends \<and> passed_boundaries (of_nat i) ends \<le> 4"
proof -
  have "unat (sizes ! i) \<in> {16, 8, 4, 2, 1}" using r i by (auto simp: list_all_length)
  then obtain j where j: "j \<le> 4" "unat (sizes ! i) = 16 div 2 ^ j" using shift_of by blast
  have k: "k \<le> 4" "length ends = 4" "16 div 2 ^ k \<le> unat (sizes ! i)" using b i by (simp_all add: bounds_inv_def)
  have jk: "j \<le> k"
  proof (rule ccontr)
    assume "\<not> j \<le> k"
    then show False using shift_less [of k j] j k(3) by simp
  qed
  have lt: "(of_nat i :: u16) < ends ! l \<longleftrightarrow> 16 div 2 ^ l \<le> unat (sizes ! i)" if "l \<le> k" "l < 4" for l
  proof -
    have "at_least l sizes \<le> length sizes" by (simp add: at_least_def)
    then have "(of_nat i :: u16) < of_nat (at_least l sizes) \<longleftrightarrow> i < at_least l sizes"
      using n i by (simp add: word_less_nat_alt unat_of_nat MAX_COL_def)
    then show ?thesis using sorted_at_least [OF s i, of l] b that by (simp add: bounds_inv_def)
  qed
  have "passed_boundaries (of_nat i) ends = j"
  proof (rule passed_boundaries_eq)
    show "\<not> of_nat i < ends ! l" if "l < j" for l
      using lt [of l] shift_less [OF that j(1)] j jk that by simp
    show "of_nat i < ends ! j" if "j < length ends" using lt [of j] j jk that k(2) by simp
  qed (use j k in simp)
  then show ?thesis using j by simp
qed

lemma layout_sizes_descend:
  assumes "valid_attrs szs" and "1 \<le> i" and "i \<le> j" and "j < length (attr_sizes (make_BlockLayout szs))"
  shows "attr_bytes (attr_sizes (make_BlockLayout szs) ! j) \<le> attr_bytes (attr_sizes (make_BlockLayout szs) ! i)"
proof -
  obtain r where r: "szs = 8 # r" "list_all valid_attr r" using assms(1) by (cases szs) (auto simp: valid_attrs_def)
  then have L: "attr_sizes (make_BlockLayout szs) = 8 # rev (sort r)"
    by (simp add: make_BlockLayout_def Let_def NUM_RESERVED_COLUMNS_def)
  let ?x = "rev (sort r) ! (i - 1)" and ?y = "rev (sort r) ! (j - 1)"
  have "sorted_wrt (\<ge>) (rev (sort r))" by (simp add: sorted_wrt_rev)
  then have "?y \<le> ?x" using assms(2-4) L by (cases "i = j") (auto simp: sorted_wrt_iff_nth_less)
  moreover have "?x \<in> set (rev (sort r))" "?y \<in> set (rev (sort r))" by (rule nth_mem; use assms(2-4) L in simp)+
  then have "valid_attr ?x" "valid_attr ?y" using r(2) by (auto simp: list_all_iff)
  ultimately have "attr_bytes ?y \<le> attr_bytes ?x"
    by (auto simp: valid_attr_def attr_bytes_def AttrSizeBytes_def VARLEN_COLUMN_def word_le_nat_alt)
  then show ?thesis using L assms(2,3) by (simp add: nth_Cons')
qed

text \<open>The sizes that a projection on columns of a layout has.\<close>

lemma projection_sizes:
  assumes "valid_attrs szs" and "distinct ids" and "\<forall>c \<in> set ids. 1 \<le> unat c \<and> unat c < length szs"
  defines "sizes \<equiv> map (\<lambda>c. the (AttrSize (make_BlockLayout szs) c)) (sort ids)"
  shows "col_sizes (make_BlockLayout szs) (sort ids) = Some sizes" and "list_all real_size sizes"
    and "sorted_wrt (\<ge>) (map unat sizes)" and "length sizes \<le> MAX_COL"
proof -
  let ?L = "make_BlockLayout szs" and ?c = "sort ids"
  have len: "length (attr_sizes ?L) = length szs" "length szs \<le> MAX_COL"
    using assms(1) by (simp_all add: make_BlockLayout_def Let_def valid_attrs_def min_def)
  have a: "AttrSize ?L c = Some (AttrSizeBytes (attr_sizes ?L ! unat c))" if "c \<in> set ids" for c
    using assms(3) that len by (simp add: AttrSize_def)
  show "col_sizes ?L ?c = Some sizes" unfolding sizes_def by (rule col_sizes_eq) (use a in simp)
  obtain r where r: "attr_sizes ?L = 8 # r" "list_all valid_attr (8 # r)" using attr_sizes_make [OF assms(1)] by blast
  have "real_size (the (AttrSize ?L c))" if c: "c \<in> set ids" for c
  proof -
    have "valid_attr (attr_sizes ?L ! unat c)"
      using r assms(3) c len nth_mem [of "unat c" "attr_sizes ?L"] by (auto simp: list_all_iff)
    then show ?thesis using a [OF c] by (auto simp: valid_attr_def AttrSizeBytes_def VARLEN_COLUMN_def)
  qed
  then show "list_all real_size sizes" by (simp add: sizes_def list_all_iff)
  have "sorted_wrt (\<lambda>x y. unat (the (AttrSize ?L y)) \<le> unat (the (AttrSize ?L x))) ?c"
  proof (rule sorted_wrt_mono_rel [of _ "(\<le>)"])
    fix x y assume xy: "x \<in> set ?c" "y \<in> set ?c" "x \<le> y"
    then show "unat (the (AttrSize ?L y)) \<le> unat (the (AttrSize ?L x))"
      using layout_sizes_descend [OF assms(1), of "unat x" "unat y"] assms(3) len(1) a by (simp add: word_le_nat_alt attr_bytes_def)
  qed simp
  then show "sorted_wrt (\<ge>) (map unat sizes)" by (simp add: sizes_def sorted_wrt_map)
  have "card (unat ` set ids) \<le> length szs"
    using card_mono [of "{..<length szs}" "unat ` set ids"] assms(3) by auto
  moreover have "card (unat ` set ids) = length ids"
    using assms(2) card_image [of unat "set ids"] by (auto simp: distinct_card inj_on_def dest: word_unat_eq_iff [THEN iffD2])
  ultimately show "length sizes \<le> MAX_COL" using len(2) by (simp add: sizes_def)
qed

text \<open>
  C23. The attribute sizes of projected columns. For a layout of a table and distinct columns of it other
  than the version pointer, the size that \<open>AttrSizeForColumn\<close> finds in the boundaries which the
  constructor of \<open>ProjectedColumnsInitializer\<close> collects is the attribute size of the column in the layout.
\<close>

theorem attr_size_for_column_correct:
  assumes "valid_attrs szs" and "distinct ids" and "\<forall>c \<in> set ids. 1 \<le> unat c \<and> unat c < length szs" and "i < length ids"
  shows "\<exists>pc. make_ProjectedColumnsInitializer (make_BlockLayout szs) ids max_tuples = Some pc
    \<and> map_option unat (AttrSize (make_BlockLayout szs) (pci_col_ids pc ! i)) = Some (unat (AttrSizeForColumn pc (of_nat i)))"
proof -
  let ?L = "make_BlockLayout szs" and ?c = "sort ids"
  let ?sizes = "map (\<lambda>c. the (AttrSize ?L c)) ?c"
  note S = projection_sizes [OF assms(1-3)]
  let ?sz = "PadUpToSize 8 (PadUpToSize 4 (22 + of_nat (length ids * 2)) + of_nat (length ids * 4)) + 8 * max_tuples"
  have init: "bounds_inv 0 (replicate NUM_ATTR_BOUNDARIES 0) []" by (simp add: bounds_inv_def NUM_ATTR_BOUNDARIES_def at_least_def)
  have "\<forall>x \<in> set ?sizes. unat x \<le> 16 div 2 ^ 0" using S(2) by (auto simp: list_all_iff)
  from column_starts_bounds [OF init S(2,3) this, of max_tuples ?sz] obtain k where
    k: "bounds_inv k (snd (snd (column_starts max_tuples ?sz 0 (replicate NUM_ATTR_BOUNDARIES 0) ?sizes))) ?sizes" by auto
  have i: "i < length ?sizes" using assms(4) by simp
  have ne: "sort ids \<noteq> []" using assms(4) by (metis length_sort list.size(3) not_less_zero)
  note P = passed_boundaries_size [OF k S(2,3) i S(4)]
  have "?c ! i \<in> set ids" using i by (metis length_map nth_mem set_sort)
  then have "unat (?c ! i) < length (attr_sizes ?L)"
    using assms(3) by (simp add: make_BlockLayout_def Let_def min_def)
  then obtain z where z: "AttrSize ?L (?c ! i) = Some z" by (simp add: AttrSize_def)
  then have "?sizes ! i = z" using i by simp
  moreover have "unat (drop_bit n (16 :: u32)) = 16 div 2 ^ n" for n by (simp add: unat_drop_bit_eq drop_bit_eq_div [where 'a = nat])
  ultimately show ?thesis
    using P S(1) z assms(4) ne by (simp add: make_ProjectedColumnsInitializer_def Let_def case_prod_unfold AttrSizeForColumn_def)
qed

theorem attr_size_for_column_correct_witness:
  "\<exists>pc. make_ProjectedColumnsInitializer (make_BlockLayout [8, 4, VARLEN_COLUMN]) [2, 1] 10 = Some pc
     \<and> map_option unat (AttrSize (make_BlockLayout [8, 4, VARLEN_COLUMN]) (pci_col_ids pc ! 1)) = Some (unat (AttrSizeForColumn pc 1))"
  using attr_size_for_column_correct [OF valid_attrs_example, of "[2, 1]" 1 10] by simp

end
