(* ===== verification/LogSerialization.thy ===== *)
theory LogSerialization
  imports LogIo Initializers
begin

text \<open>
  The bytes of a log record: \<open>SerializeRecord\<close> of \<^verbatim>\<open>storage/write_ahead_log/log_serializer_task.cpp\<close>
  and \<open>ReadNextRecord\<close> of \<^verbatim>\<open>storage/recovery/abstract_log_provider.cpp\<close>. The main result is that
  recovery reads back the record that was written, for every table layout and every row.
\<close>

section \<open>Writing\<close>

fun RecordType :: "LogRecordBody \<Rightarrow> u8" where
  "RecordType (RedoRecord _ _ _ _) = 1"
| "RecordType (DeleteRecord _ _ _) = 2"
| "RecordType (CommitRecord _ _ _) = 3"
| "RecordType AbortRecord = 4"

abbreviation u16_bytes :: "u16 \<Rightarrow> bytes" where "u16_bytes x \<equiv> le_bytes 2 (unat x)"
abbreviation u32_bytes :: "u32 \<Rightarrow> bytes" where "u32_bytes x \<equiv> le_bytes 4 (unat x)"
abbreviation u64_bytes :: "u64 \<Rightarrow> bytes" where "u64_bytes x \<equiv> le_bytes 8 (unat x)"

text \<open>The values that are written for one attribute; \<open>vm\<close> is the memory of the varlen buffers.\<close>

definition column_values :: "memory \<Rightarrow> BlockLayout \<Rightarrow> ProjectedRow \<Rightarrow> nat \<Rightarrow> bytes list" where
  "column_values vm layout delta i =
     (case PR_AccessWithNullCheck delta i of
        None \<Rightarrow> []
      | Some cell \<Rightarrow>
          (let col = col_ids delta ! i
           in if IsVarlen layout col then
                (let e = cell_varlen cell
                 in [u32_bytes (Size e),
                     if IsInlined e then take (unat (Size e)) (varlen_tail e) else Content vm e 0 (unat (Size e))])
              else [take (unat (the (AttrSize layout col))) cell]))"

text \<open>
  The arguments of the calls of \<open>WriteValue\<close> that \<open>SerializeRecord\<close> makes, in order. \<open>layout_of\<close> gives
  the layout of the table that owns the block of a slot.
\<close>

definition SerializeRecord :: "memory \<Rightarrow> (TupleSlot \<Rightarrow> BlockLayout) \<Rightarrow> LogRecord \<Rightarrow> bytes list" where
  "SerializeRecord vm layout_of r =
     [u32_bytes (LogRecord_Size r), [RecordType (log_body r)], u64_bytes (log_txn_begin r)] @
     (case log_body r of
        RedoRecord db table slot delta \<Rightarrow>
          (let layout = layout_of slot;
               sizes = map (\<lambda>c. the (AttrSize layout c)) (col_ids delta)
           in [u32_bytes db, u32_bytes table, u64_bytes slot,
               le_bytes 2 (PR_NumColumns delta), concat (map u16_bytes (col_ids delta)),
               concat (map u16_bytes (ComputeAttributeSizeBoundaries 0 sizes (replicate NUM_ATTR_BOUNDARIES 0))),
               map (pr_bitmap delta) [0..<SizeInBytes (PR_NumColumns delta)]] @
              concat (map (column_values vm layout delta) [0..<PR_NumColumns delta]))
      | DeleteRecord db table slot \<Rightarrow> [u32_bytes db, u32_bytes table, u64_bytes slot]
      | CommitRecord commit_time oldest_active_txn _ \<Rightarrow> [u64_bytes commit_time, u64_bytes oldest_active_txn]
      | AbortRecord \<Rightarrow> [])"

section \<open>Reading\<close>

text \<open>
  A log provider is given by its \<open>Read\<close>. \<open>Truncated\<close> stands for a read past the end of the log, which
  fails an assertion or leaves values uninitialized, \<open>EmptyRow\<close> for the assertion of the initializer that
  a row has columns; the other two are the exceptions of the code. The assertion of \<open>ReadNextRecord\<close> that
  the oldest active transaction of a commit record is not invalid is not made: such a record is read.
\<close>

datatype read_error = Truncated | EmptyRow | TooManyColumns | UnknownRecordType u8

definition ReadBytes :: "('p \<Rightarrow> u32 \<Rightarrow> (bool \<times> bytes \<times> 'p) option) \<Rightarrow> u32 \<Rightarrow> 'p \<Rightarrow> read_error + bytes \<times> 'p" where
  "ReadBytes rd n p = (case rd p n of Some (True, bs, p') \<Rightarrow> Inr (bs, p') | _ \<Rightarrow> Inl Truncated)"

text \<open>\<open>ReadValue<T>\<close> for an integer type of \<open>k\<close> bytes.\<close>

definition ReadValue :: "('p \<Rightarrow> u32 \<Rightarrow> (bool \<times> bytes \<times> 'p) option) \<Rightarrow> nat \<Rightarrow> 'p \<Rightarrow> read_error + nat \<times> 'p" where
  "ReadValue rd k p = and_then (ReadBytes rd (of_nat k) p) (\<lambda>(bs, p). Inr (le_nat bs, p))"

text \<open>The loops that read column ids and boundaries.\<close>

fun read_u16s :: "('p \<Rightarrow> u32 \<Rightarrow> (bool \<times> bytes \<times> 'p) option) \<Rightarrow> nat \<Rightarrow> 'p \<Rightarrow> read_error + u16 list \<times> 'p" where
  "read_u16s rd 0 p = Inr ([], p)"
| "read_u16s rd (Suc n) p =
     and_then (ReadValue rd 2 p) (\<lambda>(x, p).
     and_then (read_u16s rd n p) (\<lambda>(xs, p). Inr (of_nat x # xs, p)))"

definition varlen_cell :: "VarlenEntry \<Rightarrow> bytes" where
  "varlen_cell e = u32_bytes (varlen_size e) @ varlen_tail e"

text \<open>
  The varlen entry of an attribute. \<open>alloc k\<close> is the address that the \<open>k\<close>-th call of \<open>AllocateAligned\<close>
  for varlen contents returns, \<open>junk\<close> what the stack object held before.
\<close>

definition read_varlen ::
  "('p \<Rightarrow> u32 \<Rightarrow> (bool \<times> bytes \<times> 'p) option) \<Rightarrow> (nat \<Rightarrow> u64) \<Rightarrow> bytes \<Rightarrow> 'p \<Rightarrow> memory \<Rightarrow> u64 list
     \<Rightarrow> read_error + VarlenEntry \<times> 'p \<times> memory \<times> u64 list" where
  "read_varlen rd alloc junk p vm contents =
     and_then (ReadValue rd 4 p) (\<lambda>(n, p).
       let varlen_attribute_size = of_nat n :: u32
       in if unat varlen_attribute_size \<le> InlineThreshold then
            and_then (ReadBytes rd varlen_attribute_size p) (\<lambda>(bs, p).
              Inr (CreateInline junk bs varlen_attribute_size, p, vm, contents))
          else
            and_then (ReadBytes rd varlen_attribute_size p) (\<lambda>(bs, p).
              let a = alloc (length contents); vm = write_bytes vm a bs
              in Inr (Create vm a varlen_attribute_size True, p, vm, contents @ [a])))"

text \<open>The body of the loop over the columns, and the loop.\<close>

definition read_column ::
  "('p \<Rightarrow> u32 \<Rightarrow> (bool \<times> bytes \<times> 'p) option) \<Rightarrow> (nat \<Rightarrow> u64) \<Rightarrow> bytes \<Rightarrow> bitmap \<Rightarrow> u16 list \<Rightarrow> nat
     \<Rightarrow> ProjectedRow \<Rightarrow> 'p \<Rightarrow> memory \<Rightarrow> u64 list \<Rightarrow> read_error + ProjectedRow \<times> 'p \<times> memory \<times> u64 list" where
  "read_column rd alloc junk bitmap sizes i delta p vm contents =
     (if \<not> Test bitmap i then Inr (PR_SetNull delta i, p, vm, contents)
      else let delta = PR_AccessForceNotNull delta i
           in if sizes ! i = AttrSizeBytes VARLEN_COLUMN then
                and_then (read_varlen rd alloc junk p vm contents) (\<lambda>(e, p, vm, contents).
                  Inr (delta\<lparr>pr_values := (pr_values delta)(i := varlen_cell e)\<rparr>, p, vm, contents))
              else
                and_then (ReadBytes rd (ucast (sizes ! i)) p) (\<lambda>(bs, p).
                  Inr (delta\<lparr>pr_values := (pr_values delta)(i := bs)\<rparr>, p, vm, contents)))"

fun read_columns ::
  "('p \<Rightarrow> u32 \<Rightarrow> (bool \<times> bytes \<times> 'p) option) \<Rightarrow> (nat \<Rightarrow> u64) \<Rightarrow> bytes \<Rightarrow> bitmap \<Rightarrow> u16 list \<Rightarrow> nat list
     \<Rightarrow> ProjectedRow \<Rightarrow> 'p \<Rightarrow> memory \<Rightarrow> u64 list \<Rightarrow> read_error + ProjectedRow \<times> 'p \<times> memory \<times> u64 list" where
  "read_columns rd alloc junk bitmap sizes [] delta p vm contents = Inr (delta, p, vm, contents)"
| "read_columns rd alloc junk bitmap sizes (i # is) delta p vm contents =
     and_then (read_column rd alloc junk bitmap sizes i delta p vm contents) (\<lambda>(delta, p, vm, contents).
       read_columns rd alloc junk bitmap sizes is delta p vm contents)"

text \<open>
  The row of a redo record and the varlen contents that were allocated for it; \<open>head\<close> is the memory
  that the record is initialized in.
\<close>

definition read_delta ::
  "('p \<Rightarrow> u32 \<Rightarrow> (bool \<times> bytes \<times> 'p) option) \<Rightarrow> (nat \<Rightarrow> u64) \<Rightarrow> bytes \<Rightarrow> ProjectedRow \<Rightarrow> 'p \<Rightarrow> memory
     \<Rightarrow> read_error + ProjectedRow \<times> 'p \<times> memory \<times> u64 list" where
  "read_delta rd alloc junk head p vm =
     and_then (ReadValue rd 2 p) (\<lambda>(num_cols, p).
     if num_cols > MAX_COL then Inl TooManyColumns
     else
       and_then (read_u16s rd num_cols p) (\<lambda>(ids, p).
       and_then (read_u16s rd NUM_ATTR_BOUNDARIES p) (\<lambda>(boundaries, p).
       let sizes = map (\<lambda>i. ucast (AttrSizeFromBoundaries boundaries (of_nat i))) [0..<num_cols]
       in case PRI_Create_sizes sizes ids of
            None \<Rightarrow> Inl EmptyRow
          | Some init \<Rightarrow>
              and_then (ReadBytes rd (of_nat (SizeInBytes num_cols)) p) (\<lambda>(bitmap, p).
                read_columns rd alloc junk ((!) bitmap) sizes [0..<num_cols] (InitializeRow init head) p vm []))))"

definition ReadNextRecord ::
  "('p \<Rightarrow> u32 \<Rightarrow> (bool \<times> bytes \<times> 'p) option) \<Rightarrow> (nat \<Rightarrow> u64) \<Rightarrow> bytes \<Rightarrow> ProjectedRow \<Rightarrow> 'p \<Rightarrow> memory
     \<Rightarrow> read_error + LogRecord \<times> 'p \<times> memory \<times> u64 list" where
  "ReadNextRecord rd alloc junk head p vm =
     and_then (ReadValue rd 4 p) (\<lambda>(_, p).
     and_then (ReadValue rd 1 p) (\<lambda>(record_type, p).
     and_then (ReadValue rd 8 p) (\<lambda>(txn_begin, p).
     if record_type = 3 then
       and_then (ReadValue rd 8 p) (\<lambda>(txn_commit, p).
       and_then (ReadValue rd 8 p) (\<lambda>(oldest_active_txn, p).
         Inr (\<lparr>log_txn_begin = of_nat txn_begin, log_body = CommitRecord (of_nat txn_commit) (of_nat oldest_active_txn) False\<rparr>, p, vm, [])))
     else if record_type = 4 then Inr (\<lparr>log_txn_begin = of_nat txn_begin, log_body = AbortRecord\<rparr>, p, vm, [])
     else if record_type = 1 \<or> record_type = 2 then
       and_then (ReadValue rd 4 p) (\<lambda>(database_oid, p).
       and_then (ReadValue rd 4 p) (\<lambda>(table_oid, p).
       and_then (ReadValue rd 8 p) (\<lambda>(tuple_slot, p).
       if record_type = 2 then
         Inr (\<lparr>log_txn_begin = of_nat txn_begin, log_body = DeleteRecord (of_nat database_oid) (of_nat table_oid) (of_nat tuple_slot)\<rparr>, p, vm, [])
       else
         and_then (read_delta rd alloc junk head p vm) (\<lambda>(delta, p, vm, contents).
           Inr (\<lparr>log_txn_begin = of_nat txn_begin, log_body = RedoRecord (of_nat database_oid) (of_nat table_oid) (of_nat tuple_slot) delta\<rparr>, p, vm, contents)))))
     else Inl (UnknownRecordType (of_nat record_type)))))"

text \<open>\<open>GetNextRecord\<close>; \<open>None\<close> is the null pointer at the end of the log.\<close>

definition GetNextRecord ::
  "('p \<Rightarrow> u32 \<Rightarrow> (bool \<times> bytes \<times> 'p) option) \<Rightarrow> ('p \<Rightarrow> bool) \<Rightarrow> (nat \<Rightarrow> u64) \<Rightarrow> bytes \<Rightarrow> ProjectedRow \<Rightarrow> 'p \<Rightarrow> memory
     \<Rightarrow> read_error + (LogRecord \<times> 'p \<times> memory \<times> u64 list) option" where
  "GetNextRecord rd has_more alloc junk head p vm =
     (if has_more p then and_then (ReadNextRecord rd alloc junk head p vm) (\<lambda>x. Inr (Some x)) else Inr None)"


section \<open>Providers\<close>

text \<open>
  What recovery needs of a provider: a read that the rest of the log can satisfy returns the next
  bytes and moves past them.
\<close>

locale log_provider =
  fixes rd :: "'p \<Rightarrow> u32 \<Rightarrow> (bool \<times> bytes \<times> 'p) option"
    and ok :: "'p \<Rightarrow> bool"
    and left :: "'p \<Rightarrow> bytes"
  assumes rd_next: "ok p \<Longrightarrow> unat n < 2 ^ 31 \<Longrightarrow> unat n \<le> length (left p) \<Longrightarrow>
    \<exists>p'. rd p n = Some (True, take (unat n) (left p), p') \<and> ok p' \<and> left p' = drop (unat n) (left p)"
begin

definition at :: "'p \<Rightarrow> bytes \<Rightarrow> bool" where
  "at p bs \<longleftrightarrow> ok p \<and> left p = bs"

lemma ReadBytes_at:
  assumes "at p (bs @ rest)" and "length bs = unat n" and "unat n < 2 ^ 31"
  shows "\<exists>p'. ReadBytes rd n p = Inr (bs, p') \<and> at p' rest"
proof -
  have "unat n \<le> length (left p)" using assms(1,2) by (simp add: at_def)
  from rd_next [OF _ assms(3) this] assms(1) obtain p' where
    "rd p n = Some (True, take (unat n) (left p), p')" "ok p'" "left p' = drop (unat n) (left p)"
    by (auto simp: at_def)
  then show ?thesis using assms(1,2) by (auto simp: ReadBytes_def at_def)
qed

lemma ReadValue_at:
  assumes "at p (le_bytes k x @ rest)" and "x < 256 ^ k" and "k < 2 ^ 31"
  shows "\<exists>p'. ReadValue rd k p = Inr (x, p') \<and> at p' rest"
proof -
  have k: "unat (of_nat k :: u32) = k" using assms(3) by (simp add: unat_of_nat_u32)
  obtain p' where "ReadBytes rd (of_nat k) p = Inr (le_bytes k x, p')" "at p' rest"
    using ReadBytes_at [OF assms(1), of "of_nat k"] assms(3) k by auto
  then show ?thesis using assms(2) by (simp add: ReadValue_def le_nat_le_bytes)
qed

lemma ReadValue_word:
  "at p (u16_bytes h @ rest) \<Longrightarrow> \<exists>p'. ReadValue rd 2 p = Inr (unat h, p') \<and> at p' rest"
  "at p (u32_bytes w @ rest) \<Longrightarrow> \<exists>p'. ReadValue rd 4 p = Inr (unat w, p') \<and> at p' rest"
  "at p (u64_bytes d @ rest) \<Longrightarrow> \<exists>p'. ReadValue rd 8 p = Inr (unat d, p') \<and> at p' rest"
  "at p ([b] @ rest) \<Longrightarrow> \<exists>p'. ReadValue rd 1 p = Inr (unat b, p') \<and> at p' rest"
proof -
  show "at p (u16_bytes h @ rest) \<Longrightarrow> \<exists>p'. ReadValue rd 2 p = Inr (unat h, p') \<and> at p' rest"
    by (rule ReadValue_at) (use unsigned_less [of h, where ?'a = nat] in simp_all)
  show "at p (u32_bytes w @ rest) \<Longrightarrow> \<exists>p'. ReadValue rd 4 p = Inr (unat w, p') \<and> at p' rest"
    by (rule ReadValue_at) (use unsigned_less [of w, where ?'a = nat] in simp_all)
  show "at p (u64_bytes d @ rest) \<Longrightarrow> \<exists>p'. ReadValue rd 8 p = Inr (unat d, p') \<and> at p' rest"
    by (rule ReadValue_at) (use unsigned_less [of d, where ?'a = nat] in simp_all)
  show "at p ([b] @ rest) \<Longrightarrow> \<exists>p'. ReadValue rd 1 p = Inr (unat b, p') \<and> at p' rest"
    using ReadValue_at [of p 1 "unat b" rest] unat_u8_less [of b] by simp
qed

lemma read_u16s_at:
  "at p (concat (map u16_bytes xs) @ rest) \<Longrightarrow> \<exists>p'. read_u16s rd (length xs) p = Inr (xs, p') \<and> at p' rest"
proof (induction xs arbitrary: p)
  case (Cons x xs)
  then obtain p1 where p1: "ReadValue rd 2 p = Inr (unat x, p1)" "at p1 (concat (map u16_bytes xs) @ rest)"
    using ReadValue_word(1) [of p x "concat (map u16_bytes xs) @ rest"] by auto
  from Cons.IH [OF p1(2)] show ?case by (auto simp: p1(1))
qed simp

end


section \<open>Contents of attributes\<close>

text \<open>The contents of an attribute: the string of a varlen entry, the bytes of any other value.\<close>

definition attr_content :: "memory \<Rightarrow> BlockLayout \<Rightarrow> ProjectedRow \<Rightarrow> nat \<Rightarrow> bytes option" where
  "attr_content vm layout row i =
     map_option (\<lambda>cell. if IsVarlen layout (col_ids row ! i) then StringView vm (cell_varlen cell) else cell)
       (PR_AccessWithNullCheck row i)"

fun encoded :: "bool \<Rightarrow> bytes option \<Rightarrow> bytes" where
  "encoded varlen None = []"
| "encoded varlen (Some c) = (if varlen then le_bytes 4 (length c) @ c else c)"

text \<open>The lengths of the varlens that need a buffer, in the order of the columns.\<close>

definition buffer_lengths :: "(nat \<Rightarrow> bool) \<Rightarrow> (nat \<Rightarrow> bytes option) \<Rightarrow> nat list \<Rightarrow> nat list" where
  "buffer_lengths varlen v is =
     map (\<lambda>i. length (the (v i))) (filter (\<lambda>i. varlen i \<and> v i \<noteq> None \<and> InlineThreshold < length (the (v i))) is)"

text \<open>No buffer that is allocated begins in another one.\<close>

definition separate :: "(nat \<Rightarrow> u64) \<Rightarrow> nat list \<Rightarrow> bool" where
  "separate alloc lens \<longleftrightarrow>
     (\<forall>j < length lens. \<forall>k < length lens. j \<noteq> k \<longrightarrow> lens ! k \<le> unat (alloc j - alloc k))"

lemma read_bytes_write_other:
  assumes "length bs \<le> unat (q - p)" and "n \<le> unat (p - q)" and "0 < length bs"
  shows "read_bytes (write_bytes vm p bs) q n = read_bytes vm q n"
proof -
  have d: "unat (p - q) = 2 ^ 64 - unat (q - p)"
    using assms(1,3) unsigned_less [of p, where ?'a = nat] unsigned_less [of q, where ?'a = nat]
    by (auto simp: unat_sub_if' word_le_nat_alt split: if_splits)
  have "\<not> unat (q + of_nat i - p) < length bs" if i: "i < n" for i
  proof -
    have lt: "unat (q - p) + i < 2 ^ 64" using i assms(2) d by linarith
    then have "i < 2 ^ 64" by linarith
    then have "unat (of_nat i :: u64) = i" by (simp add: unat_of_nat take_bit_nat_eq_self)
    then have "unat (q - p + of_nat i) = unat (q - p) + i" using lt by (simp add: unat_word_ariths)
    then have "unat (q + of_nat i - p) = unat (q - p) + i" by (simp add: diff_add_eq)
    then show ?thesis using assms(1) by linarith
  qed
  then show ?thesis by (simp add: read_bytes_def write_bytes_def)
qed

lemma cell_varlen_cell [simp]: "cell_varlen (varlen_cell e) = e"
  using unsigned_less [of "varlen_size e", where ?'a = nat]
  by (cases e) (simp add: cell_varlen_def varlen_cell_def le_nat_le_bytes)

text \<open>
  An attribute of a row under construction holds the contents \<open>v\<close>; \<open>m\<close> of the buffers with the
  lengths \<open>lens\<close> are in use.
\<close>

definition holds :: "(nat \<Rightarrow> u64) \<Rightarrow> nat list \<Rightarrow> nat \<Rightarrow> memory \<Rightarrow> ProjectedRow \<Rightarrow> bool \<Rightarrow> bytes option \<Rightarrow> nat \<Rightarrow> bool" where
  "holds alloc lens m vm row varlen v i \<longleftrightarrow>
     v = map_option (\<lambda>cell. if varlen then StringView vm (cell_varlen cell) else cell) (PR_AccessWithNullCheck row i)
     \<and> (\<forall>cell. varlen \<longrightarrow> PR_AccessWithNullCheck row i = Some cell \<longrightarrow> \<not> IsInlined (cell_varlen cell) \<longrightarrow>
          (\<exists>j < m. varlen_content (cell_varlen cell) = alloc j \<and> unat (Size (cell_varlen cell)) = lens ! j))"

lemma holds_mono: "holds alloc lens m vm row varlen v i \<Longrightarrow> m \<le> m' \<Longrightarrow> holds alloc lens m' vm row varlen v i"
  unfolding holds_def by (meson less_le_trans)

lemma StringView_write_other:
  assumes "separate alloc lens" and "j < m" and "m < length lens" and "length bs = lens ! m" and "0 < length bs"
    and "varlen_content e = alloc j" and "unat (Size e) = lens ! j"
  shows "StringView (write_bytes vm (alloc m) bs) e = StringView vm e"
proof -
  have "lens ! m \<le> unat (alloc j - alloc m)" "lens ! j \<le> unat (alloc m - alloc j)"
    using assms(1-3) by (auto simp: separate_def)
  then show ?thesis
    using read_bytes_write_other [of bs "alloc j" "alloc m" "lens ! j" vm] assms(4-7)
    by (simp add: StringView_def Content_def)
qed

lemma StringView_inlined: "IsInlined e \<Longrightarrow> StringView vm e = StringView vm' e"
  by (simp add: StringView_def Content_def)

lemma holds_write:
  assumes "holds alloc lens m vm row varlen v i" and "separate alloc lens" and "m < length lens"
    and "length bs = lens ! m" and "0 < length bs"
  shows "holds alloc lens (Suc m) (write_bytes vm (alloc m) bs) row varlen v i"
proof -
  have "StringView (write_bytes vm (alloc m) bs) (cell_varlen cell) = StringView vm (cell_varlen cell)"
    if "varlen" "PR_AccessWithNullCheck row i = Some cell" for cell
    using assms that StringView_write_other [OF assms(2) _ assms(3-5)] StringView_inlined [of "cell_varlen cell"]
    unfolding holds_def by (cases "IsInlined (cell_varlen cell)") blast+
  then show ?thesis
    using assms(1) unfolding holds_def by (cases "PR_AccessWithNullCheck row i") (auto simp: less_Suc_eq)
qed


section \<open>Rows of a table\<close>

text \<open>
  A row for a table whose layout has the attribute sizes \<open>szs\<close>, as \<open>InitializerForProjectedRow\<close> lays
  it out: sorted columns other than the version pointer, and values of the sizes of their columns.
\<close>

definition table_row :: "u16 list \<Rightarrow> ProjectedRow \<Rightarrow> bool" where
  "table_row szs row \<longleftrightarrow>
     valid_attrs szs \<and> sorted_row row \<and> (\<forall>c \<in> set (col_ids row). 1 \<le> unat c \<and> unat c < length szs)
     \<and> (\<exists>init. PRI_Create (make_BlockLayout szs) (col_ids row) = Some init
          \<and> pr_size row = pri_size init \<and> attr_value_offsets row = pri_offsets init)
     \<and> (\<forall>i < PR_NumColumns row. Test (pr_bitmap row) i \<longrightarrow>
          length (pr_values row i) = unat (the (AttrSize (make_BlockLayout szs) (col_ids row ! i))))"

definition row_sizes :: "u16 list \<Rightarrow> ProjectedRow \<Rightarrow> u16 list" where
  "row_sizes szs row = map (\<lambda>c. the (AttrSize (make_BlockLayout szs) c)) (col_ids row)"

lemma ComputeAttributeSizeBoundaries_bounds:
  assumes "bounds_inv k ends ps" and "list_all real_size sizes" and "sorted_wrt (\<ge>) (map unat sizes)"
    and "\<forall>a \<in> set sizes. unat a \<le> 16 div 2 ^ k"
  shows "\<exists>k'. bounds_inv k' (ComputeAttributeSizeBoundaries k sizes ends) (ps @ sizes)"
  using assms
proof (induction sizes arbitrary: k ends ps)
  case (Cons a as)
  obtain k1 ends1 where n: "next_boundary (unat a) k ends = (k1, ends1)" by fastforce
  have s: "unat a \<in> {16, 8, 4, 2, 1}" using Cons.prems(2) by auto
  have b: "bounds_inv k1 ends1 ps" "unat a = 16 div 2 ^ k1"
    using next_boundary_inv [OF Cons.prems(1) n s] Cons.prems(4) by auto
  have "\<forall>x \<in> set as. unat x \<le> 16 div 2 ^ k1" using Cons.prems(3) b(2) by simp
  from Cons.IH [OF count_step_inv [OF b] _ _ this] Cons.prems(2,3) show ?case by (auto simp: n)
qed auto

lemma table_row_sizes:
  assumes "table_row szs row"
  shows "list_all real_size (row_sizes szs row)" and "sorted_wrt (\<ge>) (map unat (row_sizes szs row))"
    and "length (row_sizes szs row) = PR_NumColumns row" and "PR_NumColumns row \<le> MAX_COL"
    and "col_ids row \<noteq> []" and "pr_size row = pri_size (row_initializer (row_sizes szs row) (col_ids row))"
    and "attr_value_offsets row = pri_offsets (row_initializer (row_sizes szs row) (col_ids row))"
proof -
  have d: "distinct (col_ids row)" "sort (col_ids row) = col_ids row"
    using assms by (auto simp: table_row_def sorted_row_def strict_sorted_iff sorted_sort_id)
  note P = projection_sizes [of szs "col_ids row", unfolded d(2), folded row_sizes_def]
  show "list_all real_size (row_sizes szs row)" "sorted_wrt (\<ge>) (map unat (row_sizes szs row))"
    "length (row_sizes szs row) = PR_NumColumns row" "PR_NumColumns row \<le> MAX_COL"
    "col_ids row \<noteq> []" "pr_size row = pri_size (row_initializer (row_sizes szs row) (col_ids row))"
    "attr_value_offsets row = pri_offsets (row_initializer (row_sizes szs row) (col_ids row))"
    using P assms d by (auto simp: table_row_def PRI_Create_def make_ProjectedRowInitializer_def Let_def row_sizes_def PR_NumColumns_def split: if_splits)
qed

lemma sizes_from_boundaries:
  assumes "table_row szs row"
  defines "boundaries \<equiv> ComputeAttributeSizeBoundaries 0 (row_sizes szs row) (replicate NUM_ATTR_BOUNDARIES 0)"
  shows "map (\<lambda>i. ucast (AttrSizeFromBoundaries boundaries (of_nat i))) [0..<PR_NumColumns row] = row_sizes szs row"
    and "length boundaries = NUM_ATTR_BOUNDARIES"
proof -
  note T = table_row_sizes [OF assms(1)]
  have init: "bounds_inv 0 (replicate NUM_ATTR_BOUNDARIES 0) []" by (simp add: bounds_inv_def NUM_ATTR_BOUNDARIES_def at_least_def)
  have "\<forall>x \<in> set (row_sizes szs row). unat x \<le> 16 div 2 ^ 0" using T(1) by (auto simp: list_all_iff)
  from ComputeAttributeSizeBoundaries_bounds [OF init T(1,2) this] obtain k where
    k: "bounds_inv k boundaries (row_sizes szs row)" by (auto simp: boundaries_def)
  show "length boundaries = NUM_ATTR_BOUNDARIES" using k by (simp add: bounds_inv_def NUM_ATTR_BOUNDARIES_def)
  have "(ucast (AttrSizeFromBoundaries boundaries (of_nat i)) :: u16) = row_sizes szs row ! i" if i: "i < PR_NumColumns row" for i
  proof -
    have i': "i < length (row_sizes szs row)" and n: "length (row_sizes szs row) \<le> MAX_COL" using i T(3,4) by simp_all
    note P = passed_boundaries_size [OF k T(1,2) i' n]
    have "unat (ucast (drop_bit n (16 :: u8)) :: u16) = 16 div 2 ^ n" for n
    proof -
      have "(16 :: nat) div 2 ^ n < 2 ^ 16" by (rule order.strict_trans1 [OF div_le_dividend]) simp
      then show ?thesis
        by (simp add: unsigned_ucast_eq unat_drop_bit_eq drop_bit_eq_div [where 'a = nat] take_bit_nat_eq_self)
    qed
    then show ?thesis using P by (simp add: AttrSizeFromBoundaries_def word_eq_iff_unsigned [where ?'a = nat])
  qed
  then show "map (\<lambda>i. ucast (AttrSizeFromBoundaries boundaries (of_nat i))) [0..<PR_NumColumns row] = row_sizes szs row"
    using T(3) by (intro nth_equalityI) simp_all
qed

lemma table_row_column:
  assumes "table_row szs row" and "i < PR_NumColumns row"
  defines "layout \<equiv> make_BlockLayout szs"
  shows "IsVarlen layout (col_ids row ! i) \<longleftrightarrow> row_sizes szs row ! i = AttrSizeBytes VARLEN_COLUMN"
    and "\<And>c. attr_content vm layout row i = Some c \<Longrightarrow>
      if IsVarlen layout (col_ids row ! i) then length c < 2 ^ 31 else length c = unat (row_sizes szs row ! i)"
    and "concat (column_values vm layout row i) = encoded (IsVarlen layout (col_ids row ! i)) (attr_content vm layout row i)"
    and "Test (pr_bitmap row) i \<longleftrightarrow> attr_content vm layout row i \<noteq> None"
proof -
  let ?c = "col_ids row ! i"
  have c: "1 \<le> unat ?c" "unat ?c < length szs"
    using assms(1,2) nth_mem [of i "col_ids row"] by (auto simp: table_row_def PR_NumColumns_def)
  have v: "valid_attrs szs" using assms(1) by (simp add: table_row_def)
  have len: "length (attr_sizes layout) = length szs" using v by (simp add: layout_def make_BlockLayout_def Let_def min_def valid_attrs_def)
  obtain r where r: "attr_sizes layout = 8 # r" "list_all valid_attr (8 # r)" using attr_sizes_make [OF v] by (auto simp: layout_def)
  have va: "valid_attr (attr_sizes layout ! unat ?c)" using r c(2) len nth_mem [of "unat ?c" "attr_sizes layout"] by (auto simp: list_all_iff)
  have sz: "row_sizes szs row ! i = AttrSizeBytes (attr_sizes layout ! unat ?c)" "AttrSize layout ?c = Some (row_sizes szs row ! i)"
    using assms(2) c(2) len by (simp_all add: row_sizes_def PR_NumColumns_def AttrSize_def flip: layout_def)
  show vl: "IsVarlen layout ?c \<longleftrightarrow> row_sizes szs row ! i = AttrSizeBytes VARLEN_COLUMN"
    using va c(2) len by (auto simp: IsVarlen_def sz(1) valid_attr_def AttrSizeBytes_def VARLEN_COLUMN_def)
  have cell: "length cell = unat (row_sizes szs row ! i)" if "PR_AccessWithNullCheck row i = Some cell" for cell
    using assms(1,2) that sz(2) by (auto simp: table_row_def PR_AccessWithNullCheck_def layout_def split: if_splits)
  have view: "length (StringView vm (cell_varlen cell)) = unat (Size (cell_varlen cell))"
    if "PR_AccessWithNullCheck row i = Some cell" "IsVarlen layout ?c" for cell
    using cell [OF that(1)] that(2) vl
    by (simp add: StringView_def Content_def cell_varlen_def IsInlined_def InlineThreshold_def AttrSizeBytes_def VARLEN_COLUMN_def)
  have sb: "unat (Size e) < 2 ^ 31" for e by (simp add: unat_Size)
  show "if IsVarlen layout ?c then length c < 2 ^ 31 else length c = unat (row_sizes szs row ! i)"
    if "attr_content vm layout row i = Some c" for c
    using that cell view sb by (auto simp: attr_content_def)
  show "concat (column_values vm layout row i) = encoded (IsVarlen layout ?c) (attr_content vm layout row i)"
    using cell view sz(2)
    by (auto simp: column_values_def attr_content_def Let_def StringView_def Content_def split: option.split)
  show "Test (pr_bitmap row) i \<longleftrightarrow> attr_content vm layout row i \<noteq> None"
    by (simp add: attr_content_def PR_AccessWithNullCheck_def)
qed

section \<open>Reading back\<close>

lemma Create_view:
  fixes vm :: memory and a :: u64
  assumes "InlineThreshold < length c" and "length c < 2 ^ 31"
  defines "vm' \<equiv> write_bytes vm a c" and "e \<equiv> Create (write_bytes vm a c) a (of_nat (length c)) True"
  shows "StringView vm' e = c" and "\<not> IsInlined e" and "varlen_content e = a" and "unat (Size e) = length c"
proof -
  let ?sz = "of_nat (length c) :: u32"
  have sz: "unat ?sz = length c" using assms(2) by (simp add: unat_of_nat_u32)
  note C = Create_simps [of ?sz, unfolded sz, OF assms(1,2), where mem = vm' and p = a and r = True]
  show s: "unat (Size e) = length c" "\<not> IsInlined e" "varlen_content e = a"
    using C sz by (simp_all add: e_def vm'_def)
  have "read_bytes vm' (a + of_nat 0) (length c) = take (length c) (drop 0 c)"
    unfolding vm'_def using assms(2) by (intro read_write_bytes) simp_all
  then show "StringView vm' e = c" using s by (simp add: StringView_def Content_def)
qed

definition same_layout :: "ProjectedRow \<Rightarrow> ProjectedRow \<Rightarrow> bool" where
  "same_layout row row' \<longleftrightarrow> pr_size row = pr_size row' \<and> col_ids row = col_ids row' \<and> attr_value_offsets row = attr_value_offsets row'"

lemma concat_concat_map: "concat (concat (map f xs)) = concat (map (\<lambda>x. concat (f x)) xs)"
  by (induction xs) simp_all

lemma same_layout_copy: "same_layout (PR_CopyWithNullCheck w row i) row"
  by (simp add: same_layout_def PR_CopyWithNullCheck_def PR_SetNull_def PR_AccessForceNotNull_def Let_def split: option.split)

lemma same_layout_trans: "same_layout a b \<Longrightarrow> same_layout b c \<Longrightarrow> same_layout a c"
  by (simp add: same_layout_def)

lemma holds_copy_other:
  "j \<noteq> i \<Longrightarrow> holds alloc lens m vm (PR_CopyWithNullCheck w row i) varlen v j = holds alloc lens m vm row varlen v j"
  by (simp add: holds_def access_simps)

context log_provider
begin

lemma read_varlen_at:
  fixes alloc :: "nat \<Rightarrow> u64" and contents :: "u64 list"
  assumes "at p (le_bytes 4 (length c) @ c @ rest)" and "length c < 2 ^ 31"
  defines "a \<equiv> alloc (length contents)" and "big \<equiv> InlineThreshold < length c"
  shows "\<exists>e p'. read_varlen rd alloc junk p vm contents =
      Inr (e, p', if big then write_bytes vm a c else vm, if big then contents @ [a] else contents)
    \<and> at p' rest \<and> StringView (if big then write_bytes vm a c else vm) e = c
    \<and> (\<not> IsInlined e \<longrightarrow> big \<and> varlen_content e = a \<and> unat (Size e) = length c)"
proof -
  let ?sz = "of_nat (length c) :: u32"
  have sz: "unat ?sz = length c" using assms(2) by (simp add: unat_of_nat_u32)
  have "at p (u32_bytes ?sz @ c @ rest)" using assms(1) sz by simp
  from ReadValue_word(2) [OF this] obtain p1 where p1: "ReadValue rd 4 p = Inr (length c, p1)" "at p1 (c @ rest)"
    unfolding sz by blast
  obtain p2 where p2: "ReadBytes rd ?sz p1 = Inr (c, p2)" "at p2 rest"
    using ReadBytes_at [OF p1(2), of ?sz] sz assms(2) by auto
  show ?thesis
  proof (cases big)
    case True
    then show ?thesis
      using Create_view [OF _ assms(2), of vm a] p1 p2 sz by (simp add: read_varlen_def big_def a_def Let_def)
  next
    case False
    then have "unat ?sz \<le> InlineThreshold" "unat ?sz \<le> length c" using sz by (simp_all add: big_def)
    from CreateInline_simps [OF this] show ?thesis
      using False p1 p2 sz by (simp add: read_varlen_def big_def Let_def)
  qed
qed

lemma read_column_at:
  assumes p: "at p (encoded varlen v @ rest)" and t: "Test bitmap i \<longleftrightarrow> v \<noteq> None"
    and s: "varlen \<longleftrightarrow> sizes ! i = AttrSizeBytes VARLEN_COLUMN"
    and c: "\<forall>c. v = Some c \<longrightarrow> (if varlen then length c < 2 ^ 31 else length c = unat (sizes ! i))"
    and sep: "separate alloc lens" and len: "lens = used @ buffer_lengths (\<lambda>_. varlen) (\<lambda>_. v) [i] @ later" "length contents = length used"
  shows "\<exists>w p' vm' contents'. read_column rd alloc junk bitmap sizes i delta p vm contents = Inr (PR_CopyWithNullCheck w delta i, p', vm', contents')
    \<and> at p' rest \<and> length contents' = length (used @ buffer_lengths (\<lambda>_. varlen) (\<lambda>_. v) [i])
    \<and> holds alloc lens (length contents') vm' (PR_CopyWithNullCheck w delta i) varlen v i
    \<and> (\<forall>x y j. holds alloc lens (length contents) vm delta x y j \<longrightarrow> holds alloc lens (length contents') vm' delta x y j)"
proof (cases v)
  case None
  have "read_column rd alloc junk bitmap sizes i delta p vm contents = Inr (PR_CopyWithNullCheck None delta i, p, vm, contents)"
    using t None by (simp add: read_column_def PR_CopyWithNullCheck_def)
  then show ?thesis using p len(2) None by (auto simp: buffer_lengths_def holds_def access_simps)
next
  case (Some c)
  show ?thesis
  proof (cases varlen)
    case False
    obtain p1 where p1: "ReadBytes rd (ucast (sizes ! i)) p = Inr (c, p1)" "at p1 rest"
      using ReadBytes_at [of p c rest "ucast (sizes ! i)"] p c Some False unsigned_less [of "sizes ! i", where ?'a = nat]
      by (auto simp: unat_ucast_16_32)
    have "read_column rd alloc junk bitmap sizes i delta p vm contents = Inr (PR_CopyWithNullCheck (Some c) delta i, p1, vm, contents)"
      using t s Some False p1(1) by (simp add: read_column_def PR_CopyWithNullCheck_def Let_def)
    then show ?thesis
      using p1(2) len(2) Some False by (auto simp: buffer_lengths_def holds_def access_simps)
  next
    case True
    define big where "big \<longleftrightarrow> InlineThreshold < length c"
    define vm1 where "vm1 = (if big then write_bytes vm (alloc (length contents)) c else vm)"
    define contents1 where "contents1 = (if big then contents @ [alloc (length contents)] else contents)"
    have "at p (le_bytes 4 (length c) @ c @ rest)" using p Some True by simp
    from read_varlen_at [OF this, of alloc junk vm contents, folded big_def, folded vm1_def contents1_def] c Some True
    obtain e p1 where e: "read_varlen rd alloc junk p vm contents = Inr (e, p1, vm1, contents1)" "at p1 rest" "StringView vm1 e = c"
        "\<not> IsInlined e \<longrightarrow> big \<and> varlen_content e = alloc (length contents) \<and> unat (Size e) = length c"
      by auto
    have b: "buffer_lengths (\<lambda>_. varlen) (\<lambda>_. v) [i] = (if big then [length c] else [])"
      using True Some by (simp add: buffer_lengths_def big_def)
    have nth: "big \<Longrightarrow> length contents < length lens" "big \<Longrightarrow> lens ! length contents = length c"
      using len b by (simp_all add: nth_append)
    have "read_column rd alloc junk bitmap sizes i delta p vm contents = Inr (PR_CopyWithNullCheck (Some (varlen_cell e)) delta i, p1, vm1, contents1)"
      using t s Some True e(1) by (simp add: read_column_def PR_CopyWithNullCheck_def Let_def)
    moreover have "holds alloc lens (length contents1) vm1 (PR_CopyWithNullCheck (Some (varlen_cell e)) delta i) varlen v i"
      using Some True e(3,4) nth by (auto simp: holds_def access_simps contents1_def)
    moreover have "holds alloc lens (length contents1) vm1 delta x y j" if "holds alloc lens (length contents) vm delta x y j" for x y j
      using that holds_write [OF that sep nth(1) nth(2) [symmetric]] by (cases c) (auto simp: contents1_def vm1_def big_def)
    ultimately show ?thesis
      using e(2) len(2) b by (intro exI [of _ "Some (varlen_cell e)"] exI [of _ p1] exI [of _ vm1] exI [of _ contents1]) (auto simp: contents1_def)
  qed
qed

lemma read_columns_at:
  assumes "at p (concat (map (\<lambda>i. encoded (varlen i) (v i)) is) @ rest)" and "distinct is"
    and "\<forall>i \<in> set is. (Test bitmap i \<longleftrightarrow> v i \<noteq> None) \<and> (varlen i \<longleftrightarrow> sizes ! i = AttrSizeBytes VARLEN_COLUMN)
      \<and> (\<forall>c. v i = Some c \<longrightarrow> (if varlen i then length c < 2 ^ 31 else length c = unat (sizes ! i)))"
    and "separate alloc lens" and "lens = used @ buffer_lengths varlen v is" and "length contents = length used"
    and "\<forall>i \<in> D. holds alloc lens (length contents) vm delta (varlen i) (v i) i" and "D \<inter> set is = {}"
  shows "\<exists>delta' p' vm' contents'. read_columns rd alloc junk bitmap sizes is delta p vm contents = Inr (delta', p', vm', contents')
    \<and> at p' rest \<and> same_layout delta' delta
    \<and> (\<forall>i \<in> D \<union> set is. holds alloc lens (length contents') vm' delta' (varlen i) (v i) i)"
  using assms
proof (induction "is" arbitrary: p vm delta contents used D)
  case (Cons i "is")
  let ?l = "buffer_lengths (\<lambda>_. varlen i) (\<lambda>_. v i) [i]"
  have b: "buffer_lengths varlen v (i # is) = ?l @ buffer_lengths varlen v is" by (simp add: buffer_lengths_def)
  have p: "at p (encoded (varlen i) (v i) @ concat (map (\<lambda>i. encoded (varlen i) (v i)) is) @ rest)" using Cons.prems(1) by simp
  obtain w p1 vm1 contents1 where R: "read_column rd alloc junk bitmap sizes i delta p vm contents = Inr (PR_CopyWithNullCheck w delta i, p1, vm1, contents1)"
      "at p1 (concat (map (\<lambda>i. encoded (varlen i) (v i)) is) @ rest)" "length contents1 = length (used @ ?l)"
      "holds alloc lens (length contents1) vm1 (PR_CopyWithNullCheck w delta i) (varlen i) (v i) i"
      "\<And>x y j. holds alloc lens (length contents) vm delta x y j \<Longrightarrow> holds alloc lens (length contents1) vm1 delta x y j"
    using read_column_at [OF p _ _ _ Cons.prems(4) _ Cons.prems(6), of bitmap i sizes "buffer_lengths varlen v is" junk delta vm]
      Cons.prems(3,5) b by auto
  have l: "lens = (used @ ?l) @ buffer_lengths varlen v is" using Cons.prems(5) b by simp
  have D: "\<forall>j \<in> insert i D. holds alloc lens (length contents1) vm1 (PR_CopyWithNullCheck w delta i) (varlen j) (v j) j"
  proof
    fix j assume "j \<in> insert i D"
    then show "holds alloc lens (length contents1) vm1 (PR_CopyWithNullCheck w delta i) (varlen j) (v j) j"
      using R(4) R(5) Cons.prems(7) holds_copy_other [of j i] by (cases "j = i") auto
  qed
  have d: "distinct is" "insert i D \<inter> set is = {}" using Cons.prems(2,8) by auto
  have c: "\<forall>j \<in> set is. (Test bitmap j \<longleftrightarrow> v j \<noteq> None) \<and> (varlen j \<longleftrightarrow> sizes ! j = AttrSizeBytes VARLEN_COLUMN)
      \<and> (\<forall>c. v j = Some c \<longrightarrow> (if varlen j then length c < 2 ^ 31 else length c = unat (sizes ! j)))"
    using Cons.prems(3) unfolding list.set by blast
  obtain delta' p' vm' contents' where "read_columns rd alloc junk bitmap sizes is (PR_CopyWithNullCheck w delta i) p1 vm1 contents1 = Inr (delta', p', vm', contents')"
      "at p' rest" "same_layout delta' (PR_CopyWithNullCheck w delta i)"
      "\<forall>j \<in> insert i D \<union> set is. holds alloc lens (length contents') vm' delta' (varlen j) (v j) j"
    using Cons.IH [OF R(2) d(1) c Cons.prems(4) l R(3) D d(2)] by blast
  then show ?case using same_layout_trans [OF _ same_layout_copy] R(1) by auto
qed (auto simp: same_layout_def)

lemma table_columns_at:
  fixes row :: ProjectedRow and szs :: "u16 list"
  assumes row: "table_row szs row"
  defines "layout \<equiv> make_BlockLayout szs" and "n \<equiv> PR_NumColumns row"
  assumes p: "at p (concat (concat (map (column_values vm layout row) [0..<n])) @ rest)"
    and sep: "separate alloc (buffer_lengths (\<lambda>i. IsVarlen layout (col_ids row ! i)) (attr_content vm layout row) [0..<n])"
  shows "\<exists>delta' p' vm' contents'.
      read_columns rd alloc junk ((!) (map (pr_bitmap row) [0..<SizeInBytes n])) (row_sizes szs row) [0..<n] delta p vm0 [] = Inr (delta', p', vm', contents')
    \<and> at p' rest \<and> same_layout delta' delta
    \<and> (\<forall>i < n. attr_content vm layout row i =
         map_option (\<lambda>cell. if IsVarlen layout (col_ids row ! i) then StringView vm' (cell_varlen cell) else cell) (PR_AccessWithNullCheck delta' i))"
proof -
  note C = table_row_column [OF row, folded layout_def n_def]
  let ?bm = "map (pr_bitmap row) [0..<SizeInBytes n]" and ?vl = "\<lambda>i. IsVarlen layout (col_ids row ! i)"
  have "concat (concat (map (column_values vm layout row) [0..<n])) = concat (map (\<lambda>i. encoded (?vl i) (attr_content vm layout row i)) [0..<n])"
    using C(3) [of _ vm] unfolding concat_concat_map by (intro arg_cong [where f = concat] map_cong) simp_all
  then have p': "at p (concat (map (\<lambda>i. encoded (?vl i) (attr_content vm layout row i)) [0..<n]) @ rest)" using p by simp
  have bit: "Test ((!) ?bm) i = Test (pr_bitmap row) i" if "i < n" for i
  proof -
    have "i div 8 < SizeInBytes n" using that by (auto simp: SizeInBytes_def div_less_iff_less_mult)
    then show ?thesis by (simp add: Test_def)
  qed
  have "(Test ((!) ?bm) i \<longleftrightarrow> attr_content vm layout row i \<noteq> None) \<and> (?vl i \<longleftrightarrow> row_sizes szs row ! i = AttrSizeBytes VARLEN_COLUMN)
      \<and> (\<forall>c. attr_content vm layout row i = Some c \<longrightarrow> (if ?vl i then length c < 2 ^ 31 else length c = unat (row_sizes szs row ! i)))"
    if "i < n" for i
    using C(1,4) [OF that] C(2) [OF that, of vm] bit [OF that] by blast
  then have col: "\<forall>i \<in> set [0..<n]. (Test ((!) ?bm) i \<longleftrightarrow> attr_content vm layout row i \<noteq> None) \<and> (?vl i \<longleftrightarrow> row_sizes szs row ! i = AttrSizeBytes VARLEN_COLUMN)
      \<and> (\<forall>c. attr_content vm layout row i = Some c \<longrightarrow> (if ?vl i then length c < 2 ^ 31 else length c = unat (row_sizes szs row ! i)))"
    by (metis atLeastLessThan_iff set_upt)
  have "\<exists>delta' p' vm' contents'. read_columns rd alloc junk ((!) ?bm) (row_sizes szs row) [0..<n] delta p vm0 [] = Inr (delta', p', vm', contents')
      \<and> at p' rest \<and> same_layout delta' delta
      \<and> (\<forall>i \<in> {} \<union> set [0..<n]. holds alloc (buffer_lengths ?vl (attr_content vm layout row) [0..<n]) (length contents') vm' delta' (?vl i) (attr_content vm layout row i) i)"
    by (rule read_columns_at [OF p' distinct_upt col sep, where used = "[]"]) simp_all
  then show ?thesis by (auto simp: holds_def)
qed

lemma read_delta_at:
  fixes row :: ProjectedRow and szs :: "u16 list" and vm :: memory
  assumes row: "table_row szs row"
  defines "layout \<equiv> make_BlockLayout szs" and "n \<equiv> PR_NumColumns row"
  defines "boundaries \<equiv> ComputeAttributeSizeBoundaries 0 (row_sizes szs row) (replicate NUM_ATTR_BOUNDARIES 0)"
    and "vals \<equiv> concat (concat (map (column_values vm layout row) [0..<n]))"
  assumes p: "at p (le_bytes 2 n @ concat (map u16_bytes (col_ids row)) @ concat (map u16_bytes boundaries) @
      map (pr_bitmap row) [0..<SizeInBytes n] @ vals @ rest)"
    and sep: "separate alloc (buffer_lengths (\<lambda>i. IsVarlen layout (col_ids row ! i)) (attr_content vm layout row) [0..<n])"
  shows "\<exists>delta p' vm' contents. read_delta rd alloc junk head p vm0 = Inr (delta, p', vm', contents)
    \<and> at p' rest \<and> same_layout delta row \<and> (\<forall>i < n. attr_content vm' layout delta i = attr_content vm layout row i)"
proof -
  note T = table_row_sizes [OF row] and B = sizes_from_boundaries [OF row, folded boundaries_def n_def]
  let ?bm = "map (pr_bitmap row) [0..<SizeInBytes n]"
  have n: "n = length (col_ids row)" "n \<le> MAX_COL" "SizeInBytes n < 2 ^ 31"
    using T(4) SizeInBytes_le [of n] by (simp_all add: n_def PR_NumColumns_def MAX_COL_def)
  obtain p1 where p1: "ReadValue rd 2 p = Inr (n, p1)"
      "at p1 (concat (map u16_bytes (col_ids row)) @ concat (map u16_bytes boundaries) @ ?bm @ vals @ rest)"
    using ReadValue_at [OF p] n(2) by (auto simp: MAX_COL_def)
  obtain p2 where p2: "read_u16s rd n p1 = Inr (col_ids row, p2)" "at p2 (concat (map u16_bytes boundaries) @ ?bm @ vals @ rest)"
    using read_u16s_at [OF p1(2)] n(1) by auto
  obtain p3 where p3: "read_u16s rd NUM_ATTR_BOUNDARIES p2 = Inr (boundaries, p3)" "at p3 (?bm @ vals @ rest)"
    using read_u16s_at [OF p2(2)] B(2) by auto
  have "unat (of_nat (SizeInBytes n) :: u32) = SizeInBytes n" using n(3) by (simp add: unat_of_nat_u32)
  then obtain p4 where p4: "ReadBytes rd (of_nat (SizeInBytes n)) p3 = Inr (?bm, p4)" "at p4 (vals @ rest)"
    using ReadBytes_at [OF p3(2), of "of_nat (SizeInBytes n)"] n(3) by auto
  have cr: "PRI_Create_sizes (row_sizes szs row) (col_ids row) = Some (row_initializer (row_sizes szs row) (col_ids row))"
    using T(5) by (simp add: PRI_Create_sizes_def make_ProjectedRowInitializer_def)
  let ?delta = "InitializeRow (row_initializer (row_sizes szs row) (col_ids row)) head"
  from table_columns_at [OF row, folded layout_def n_def, OF p4(2) [unfolded vals_def] sep, of junk ?delta vm0]
  obtain delta' p' vm' contents' where R: "read_columns rd alloc junk ((!) ?bm) (row_sizes szs row) [0..<n] ?delta p4 vm0 [] = Inr (delta', p', vm', contents')"
      "at p' rest" "same_layout delta' ?delta"
      "\<And>i. i < n \<Longrightarrow> attr_content vm layout row i =
         map_option (\<lambda>cell. if IsVarlen layout (col_ids row ! i) then StringView vm' (cell_varlen cell) else cell) (PR_AccessWithNullCheck delta' i)"
    by blast
  have "same_layout ?delta row"
    using T(6,7) by (simp add: same_layout_def InitializeRow_def) (simp add: row_initializer_def Let_def case_prod_unfold)
  then have "same_layout delta' row" using R(3) same_layout_trans by blast
  moreover have "read_delta rd alloc junk head p vm0 = Inr (delta', p', vm', contents')"
    using p1(1) p2(1) p3(1) p4(1) R(1) B(1) n(2) cr by (simp add: read_delta_def Let_def)
  ultimately show ?thesis using R(2,4) by (auto simp: attr_content_def [of vm'] same_layout_def)
qed

end

section \<open>Round trip\<close>

text \<open>
  Records that the engine logs: rows belong to their tables, and the allocator keeps the buffers that
  reading them back needs apart. Read-only commit records are never written.
\<close>

fun loggable :: "(nat \<Rightarrow> u64) \<Rightarrow> memory \<Rightarrow> (TupleSlot \<Rightarrow> u16 list) \<Rightarrow> LogRecordBody \<Rightarrow> bool" where
  "loggable alloc vm szs (RedoRecord _ _ slot delta) =
     (table_row (szs slot) delta
      \<and> separate alloc (buffer_lengths (\<lambda>i. IsVarlen (make_BlockLayout (szs slot)) (col_ids delta ! i))
          (attr_content vm (make_BlockLayout (szs slot)) delta) [0..<PR_NumColumns delta]))"
| "loggable alloc vm szs (CommitRecord _ _ read_only) = (\<not> read_only)"
| "loggable alloc vm szs _ = True"

text \<open>Two records with the same contents, where the varlens of the first are in \<open>vm'\<close> and those of the second in \<open>vm\<close>.\<close>

fun same_body :: "memory \<Rightarrow> memory \<Rightarrow> (TupleSlot \<Rightarrow> u16 list) \<Rightarrow> LogRecordBody \<Rightarrow> LogRecordBody \<Rightarrow> bool" where
  "same_body vm' vm szs (RedoRecord db' table' slot' delta') (RedoRecord db table slot delta) =
     (db' = db \<and> table' = table \<and> slot' = slot \<and> same_layout delta' delta
      \<and> (\<forall>i < PR_NumColumns delta. attr_content vm' (make_BlockLayout (szs slot)) delta' i = attr_content vm (make_BlockLayout (szs slot)) delta i))"
| "same_body vm' vm szs b' b = (b' = b)"

context log_provider
begin

lemma read_target_at:
  assumes "at p (u32_bytes db @ u32_bytes table @ u64_bytes slot @ rest)"
  shows "\<exists>p1 p2 p3. ReadValue rd 4 p = Inr (unat db, p1) \<and> ReadValue rd 4 p1 = Inr (unat table, p2)
    \<and> ReadValue rd 8 p2 = Inr (unat slot, p3) \<and> at p3 rest"
  using ReadValue_word(2) [OF assms] ReadValue_word(2) [of _ table "u64_bytes slot @ rest"] ReadValue_word(3) [of _ slot rest] by blast

lemma read_header_at:
  assumes "at p (u32_bytes n @ [b] @ u64_bytes t @ rest)"
  shows "\<exists>p1 p2 p3. ReadValue rd 4 p = Inr (unat n, p1) \<and> ReadValue rd 1 p1 = Inr (unat b, p2)
    \<and> ReadValue rd 8 p2 = Inr (unat t, p3) \<and> at p3 rest"
  using ReadValue_word(2) [OF assms] ReadValue_word(4) [of _ b "u64_bytes t @ rest"] ReadValue_word(3) [of _ t rest] by blast

lemma ReadNextRecord_at:
  assumes ok: "loggable alloc vm szs (log_body r)"
    and p: "at p (concat (SerializeRecord vm (\<lambda>slot. make_BlockLayout (szs slot)) r) @ rest)"
  shows "\<exists>r' p' vm' contents. ReadNextRecord rd alloc junk head p vm0 = Inr (r', p', vm', contents) \<and> at p' rest
    \<and> log_txn_begin r' = log_txn_begin r \<and> same_body vm' vm szs (log_body r') (log_body r) \<and> LogRecord_Size r' = LogRecord_Size r"
proof -
  define tail where "tail = concat (drop 3 (SerializeRecord vm (\<lambda>slot. make_BlockLayout (szs slot)) r)) @ rest"
  have "at p (u32_bytes (LogRecord_Size r) @ [RecordType (log_body r)] @ u64_bytes (log_txn_begin r) @ tail)"
    using p by (simp add: tail_def SerializeRecord_def)
  from read_header_at [OF this] obtain p1 p2 p3 where h: "ReadValue rd 4 p = Inr (unat (LogRecord_Size r), p1)"
      "ReadValue rd 1 p1 = Inr (unat (RecordType (log_body r)), p2)" "ReadValue rd 8 p2 = Inr (unat (log_txn_begin r), p3)"
    and p3: "at p3 tail" by blast
  show ?thesis
  proof (cases "log_body r")
    case (RedoRecord db table slot delta)
    let ?L = "make_BlockLayout (szs slot)"
    have "tail = u32_bytes db @ u32_bytes table @ u64_bytes slot @ le_bytes 2 (PR_NumColumns delta) @ concat (map u16_bytes (col_ids delta)) @
        concat (map u16_bytes (ComputeAttributeSizeBoundaries 0 (row_sizes (szs slot) delta) (replicate NUM_ATTR_BOUNDARIES 0))) @
        map (pr_bitmap delta) [0..<SizeInBytes (PR_NumColumns delta)] @
        concat (concat (map (column_values vm ?L delta) [0..<PR_NumColumns delta])) @ rest" (is "_ = _ @ _ @ _ @ ?d")
      by (simp add: tail_def SerializeRecord_def RedoRecord row_sizes_def Let_def)
    then obtain p4 p5 p6 where o: "ReadValue rd 4 p3 = Inr (unat db, p4)" "ReadValue rd 4 p4 = Inr (unat table, p5)"
        "ReadValue rd 8 p5 = Inr (unat slot, p6)" "at p6 ?d"
      using read_target_at [of p3 db table slot ?d] p3 by auto
    have t: "table_row (szs slot) delta"
        "separate alloc (buffer_lengths (\<lambda>i. IsVarlen ?L (col_ids delta ! i)) (attr_content vm ?L delta) [0..<PR_NumColumns delta])"
      using ok RedoRecord by simp_all
    from read_delta_at [OF t(1) o(4) t(2)] obtain delta' p' vm' contents where
        "read_delta rd alloc junk head p6 vm0 = Inr (delta', p', vm', contents)" "at p' rest" "same_layout delta' delta"
        "\<forall>i < PR_NumColumns delta. attr_content vm' ?L delta' i = attr_content vm ?L delta i"
      by blast
    then show ?thesis
      using h o by (simp add: ReadNextRecord_def RedoRecord LogRecord_Size_def same_layout_def)
  next
    case (DeleteRecord db table slot)
    then have "tail = u32_bytes db @ u32_bytes table @ u64_bytes slot @ rest" by (simp add: tail_def SerializeRecord_def)
    then obtain p4 p5 p6 where "ReadValue rd 4 p3 = Inr (unat db, p4)" "ReadValue rd 4 p4 = Inr (unat table, p5)"
        "ReadValue rd 8 p5 = Inr (unat slot, p6)" "at p6 rest"
      using read_target_at [of p3 db table slot rest] p3 by auto
    then show ?thesis using h by (simp add: ReadNextRecord_def DeleteRecord LogRecord_Size_def)
  next
    case (CommitRecord commit_time oldest read_only)
    then have "at p3 (u64_bytes commit_time @ u64_bytes oldest @ rest)" using p3 by (simp add: tail_def SerializeRecord_def)
    from ReadValue_word(3) [OF this] obtain p4 where p4: "ReadValue rd 8 p3 = Inr (unat commit_time, p4)" "at p4 (u64_bytes oldest @ rest)" by blast
    from ReadValue_word(3) [OF p4(2)] p4(1) obtain p5 where
      "ReadValue rd 8 p3 = Inr (unat commit_time, p4)" "ReadValue rd 8 p4 = Inr (unat oldest, p5)" "at p5 rest" by blast
    then show ?thesis using h ok by (simp add: ReadNextRecord_def CommitRecord LogRecord_Size_def)
  next
    case AbortRecord
    then show ?thesis using h p3 by (simp add: ReadNextRecord_def tail_def SerializeRecord_def LogRecord_Size_def)
  qed
qed

end


section \<open>The log on disk\<close>

lemma Read_next:
  assumes "reader_ok p" and "unat n < 2 ^ 31" and "unat n \<le> length (remaining p)"
  shows "\<exists>p'. Read p n = Some (True, take (unat n) (remaining p), p') \<and> reader_ok p' \<and> remaining p' = drop (unat n) (remaining p)"
  using Read_result [OF assms(1), of n] assms(2,3) by (auto simp: read_result_def LOG_BUFFER_SIZE_def)

interpretation disk_log: log_provider Read reader_ok remaining
  by unfold_locales (rule Read_next)

lemma HasMore_remaining: "reader_ok p \<Longrightarrow> remaining p \<noteq> [] \<Longrightarrow> HasMore p"
  using reader_okD(5) by blast

text \<open>
  C16. Log records survive the log file. Whatever \<open>SerializeRecord\<close> writes for a record of any type, for
  tables of any layout and rows with nulls and varlens of any length, \<open>GetNextRecord\<close> of the disk log
  provider reads back: the same transaction, oids and slot, a row of the same size and layout with
  the same contents in every column, and the reader stands at the next record.
\<close>

theorem log_record_roundtrip:
  assumes "loggable alloc vm szs (log_body r)" and "reader_ok p"
    and "remaining p = concat (SerializeRecord vm (\<lambda>slot. make_BlockLayout (szs slot)) r) @ rest"
  shows "\<exists>r' p' vm' contents. GetNextRecord Read HasMore alloc junk head p vm0 = Inr (Some (r', p', vm', contents))
    \<and> reader_ok p' \<and> remaining p' = rest \<and> log_txn_begin r' = log_txn_begin r
    \<and> same_body vm' vm szs (log_body r') (log_body r) \<and> LogRecord_Size r' = LogRecord_Size r"
proof -
  have "remaining p \<noteq> []" using assms(3) by (simp add: SerializeRecord_def)
  then have "HasMore p" by (rule HasMore_remaining [OF assms(2)])
  then show ?thesis
    using disk_log.ReadNextRecord_at [OF assms(1), of p rest junk head vm0] assms(2,3)
    by (auto simp: GetNextRecord_def disk_log.at_def)
qed

text \<open>A row with one varlen column.\<close>

definition example_row :: ProjectedRow where
  "example_row =
     (InitializeRow (row_initializer [16] [1]) (scenario_row 0))
       \<lparr>pr_bitmap := (\<lambda>_. 1), pr_values := (\<lambda>_. varlen_cell (CreateInline (replicate 12 0) [1, 2, 3] 3))\<rparr>"

lemma example_row: "table_row [8, VARLEN_COLUMN] example_row"
proof -
  have v: "valid_attrs [8, VARLEN_COLUMN]" by (simp add: valid_attrs_def valid_attr_def MAX_COL_def)
  have a: "AttrSize (make_BlockLayout [8, VARLEN_COLUMN]) 1 = Some 16"
    by (simp add: AttrSize_def make_BlockLayout_def NUM_RESERVED_COLUMNS_def Let_def AttrSizeBytes_def VARLEN_COLUMN_def)
  have c: "col_ids example_row = [1]" "PR_NumColumns example_row = 1"
    by (simp_all add: example_row_def InitializeRow_def row_initializer_def Let_def case_prod_unfold PR_NumColumns_def)
  have "PRI_Create (make_BlockLayout [8, VARLEN_COLUMN]) [1] = Some (row_initializer [16] [1])"
    using a by (simp add: PRI_Create_def make_ProjectedRowInitializer_def)
  then show ?thesis
    using v a by (simp add: table_row_def c sorted_row_def) (simp add: example_row_def InitializeRow_def varlen_cell_def CreateInline_def)
qed

theorem log_record_roundtrip_witness:
  "\<exists>delta p' vm' contents. GetNextRecord Read HasMore (\<lambda>_. 0) [] (scenario_row 0)
      (open_reader (concat (SerializeRecord (\<lambda>_. 0) (\<lambda>_. make_BlockLayout [8, VARLEN_COLUMN]) \<lparr>log_txn_begin = 5, log_body = RedoRecord 1 2 3 example_row\<rparr>))) (\<lambda>_. 0) =
      Inr (Some (\<lparr>log_txn_begin = 5, log_body = RedoRecord 1 2 3 delta\<rparr>, p', vm', contents))
    \<and> attr_content vm' (make_BlockLayout [8, VARLEN_COLUMN]) delta 0 = attr_content (\<lambda>_. 0) (make_BlockLayout [8, VARLEN_COLUMN]) example_row 0"
proof -
  let ?r = "\<lparr>log_txn_begin = 5, log_body = RedoRecord 1 2 3 example_row\<rparr>" and ?szs = "\<lambda>_ :: TupleSlot. [8, VARLEN_COLUMN]"
  let ?p = "open_reader (concat (SerializeRecord (\<lambda>_. 0) (\<lambda>_. make_BlockLayout [8, VARLEN_COLUMN]) ?r))"
  have n: "PR_NumColumns example_row = 1"
    by (simp add: example_row_def InitializeRow_def row_initializer_def Let_def case_prod_unfold PR_NumColumns_def)
  have "loggable (\<lambda>_. 0) (\<lambda>_. 0) ?szs (log_body ?r)"
    using example_row n by (auto simp: separate_def buffer_lengths_def)
  from log_record_roundtrip [OF this, of ?p "[]" "[]" "scenario_row 0" "\<lambda>_. 0"] obtain r' p' vm' contents where
    R: "GetNextRecord Read HasMore (\<lambda>_. 0) [] (scenario_row 0) ?p (\<lambda>_. 0) = Inr (Some (r', p', vm', contents))"
      "log_txn_begin r' = 5" "same_body vm' (\<lambda>_. 0) ?szs (log_body r') (RedoRecord 1 2 3 example_row)" by auto
  then obtain delta where "log_body r' = RedoRecord 1 2 3 delta"
      "attr_content vm' (make_BlockLayout [8, VARLEN_COLUMN]) delta 0 = attr_content (\<lambda>_. 0) (make_BlockLayout [8, VARLEN_COLUMN]) example_row 0"
    using n by (cases "log_body r'") auto
  then show ?thesis using R(1,2) by (cases r') auto
qed

text \<open>
  C29. The end of the log is missed at a multiple of the buffer size. When the length of the log file is
  a multiple of \<open>LOG_BUFFER_SIZE\<close> (an empty file included) and all of it has been read, \<open>GetNextRecord\<close>
  does not report the end of the log but tries to read another record.
\<close>

theorem end_of_log_missed:
  assumes "LOG_BUFFER_SIZE dvd length contents" and "\<forall>n \<in> set ns. unat n < 2 ^ 32 - LOG_BUFFER_SIZE"
    and "sum_list (map unat ns) = length contents"
  shows "\<exists>bss p. Read_seq (open_reader contents) ns = Some (bss, p)
    \<and> GetNextRecord Read HasMore alloc junk head p vm = Inl Truncated"
proof -
  obtain bss p p' where "Read_seq (open_reader contents) ns = Some (bss, p)" "HasMore p" "Read p 4 = Some (False, [], p')"
    using HasMore_at_end_of_log [OF assms, of 4] by (auto simp: LOG_BUFFER_SIZE_def)
  then show ?thesis by (auto simp: GetNextRecord_def ReadNextRecord_def ReadValue_def ReadBytes_def)
qed

theorem end_of_log_missed_witness:
  "\<exists>bss p. Read_seq (open_reader (replicate LOG_BUFFER_SIZE 0)) [of_nat LOG_BUFFER_SIZE] = Some (bss, p)
    \<and> GetNextRecord Read HasMore (\<lambda>_. 0) [] (scenario_row 0) p (\<lambda>_. 0) = Inl Truncated"
proof -
  have "unat (of_nat LOG_BUFFER_SIZE :: u32) = LOG_BUFFER_SIZE" "LOG_BUFFER_SIZE < 2 ^ 32 - LOG_BUFFER_SIZE"
    by (simp_all add: LOG_BUFFER_SIZE_def)
  then show ?thesis by (intro end_of_log_missed) simp_all
qed

end
