(* ===== verification/LogManager.thy ===== *)
theory LogManager
  imports LogSerialization "HOL-Library.Sublist"
begin

text \<open>
  The way of log records to disk: \<^verbatim>\<open>storage/write_ahead_log/log_serializer_task.{h,cpp}\<close>,
  \<^verbatim>\<open>disk_log_consumer_task.cpp\<close> and \<^verbatim>\<open>log_manager.cpp\<close>. Transactions hand over segments of records,
  the serializer task writes them into buffers, the consumer task writes the buffers to the log file
  and persists it, and then calls the callbacks of the commit records. The results: the log file
  holds the records in the order in which they were handed over, a callback runs only after its
  commit record and everything before it is persistent, a flush without interference persists
  everything, and with interference it may return too early.
\<close>

section \<open>State\<close>

text \<open>
  A filled buffer is the index of a \<open>BufferedLogWriter\<close> in \<open>buffers_\<close> with its contents; the buffers in
  the empty queue hold nothing. A callback is identified by the start time of its transaction.
  \<open>persisted\<close> is how much of the log file the last \<open>fsync\<close> has covered, \<open>invoked\<close> the callbacks that
  have been called. Writes and \<open>fsync\<close> succeed. \<open>SetNumBuffers\<close> adds buffers; that growing the vector of
  buffers moves those that the queues point to is not represented.
\<close>

record LogManager =
  num_buffers :: nat
  lm_flush_queue :: flush_queue
  filled_buffer :: "(nat \<times> BufferedLogWriter) option"
  commits_in_buffer :: "timestamp list"
  serialized_txns :: "timestamp list"
  empty_buffer_queue :: "nat list"
  filled_buffer_queue :: "((nat \<times> BufferedLogWriter) option \<times> timestamp list) list"
  log_file :: bytes
  commit_callbacks :: "timestamp list"
  current_data_written :: nat
  persist_threshold :: nat
  do_persist :: bool
  persisted :: nat
  invoked :: "timestamp list"

definition LogManager_Start :: "nat \<Rightarrow> nat \<Rightarrow> bytes \<Rightarrow> LogManager" where
  "LogManager_Start n threshold contents =
     \<lparr>num_buffers = n, lm_flush_queue = [], filled_buffer = None, commits_in_buffer = [], serialized_txns = [],
      empty_buffer_queue = [0..<n], filled_buffer_queue = [], log_file = contents, commit_callbacks = [],
      current_data_written = 0, persist_threshold = threshold, do_persist = False, persisted = length contents,
      invoked = []\<rparr>"

definition AddBufferToFlushQueue :: "LogRecord list \<Rightarrow> LogManager \<Rightarrow> LogManager" where
  "AddBufferToFlushQueue segment lm = lm\<lparr>lm_flush_queue := lm_flush_queue lm @ [segment]\<rparr>"

definition SetNumBuffers :: "nat \<Rightarrow> LogManager \<Rightarrow> bool \<times> LogManager" where
  "SetNumBuffers n lm =
     (if n \<ge> num_buffers lm
      then (True, lm\<lparr>empty_buffer_queue := empty_buffer_queue lm @ [num_buffers lm..<n], num_buffers := n\<rparr>)
      else (False, lm))"

section \<open>The consumer task\<close>

definition write_filled :: "(nat \<times> BufferedLogWriter) option \<times> timestamp list \<Rightarrow> LogManager \<Rightarrow> LogManager" where
  "write_filled logs lm =
     (case fst logs of
        None \<Rightarrow> lm\<lparr>commit_callbacks := commit_callbacks lm @ snd logs\<rparr>
      | Some (b, w) \<Rightarrow>
          (case FlushBuffer w (log_file lm) of
             (n, w', out) \<Rightarrow>
               lm\<lparr>log_file := out, current_data_written := current_data_written lm + n,
                  commit_callbacks := commit_callbacks lm @ snd logs,
                  empty_buffer_queue := empty_buffer_queue lm @ [b]\<rparr>))"

definition WriteBuffersToLogFile :: "LogManager \<Rightarrow> LogManager" where
  "WriteBuffersToLogFile lm = fold write_filled (filled_buffer_queue lm) (lm\<lparr>filled_buffer_queue := []\<rparr>)"

definition PersistLogFile :: "LogManager \<Rightarrow> nat \<times> LogManager" where
  "PersistLogFile lm =
     (length (commit_callbacks lm),
      lm\<lparr>persisted := (if num_buffers lm \<noteq> 0 then length (log_file lm) else persisted lm),
         invoked := invoked lm @ commit_callbacks lm, commit_callbacks := []\<rparr>)"

text \<open>
  The second half of the body of \<open>DiskLogConsumerTaskLoop\<close>. \<open>timeout\<close> says whether the persist interval
  has passed or the task is being shut down.
\<close>

definition persist_if_due :: "bool \<Rightarrow> LogManager \<Rightarrow> LogManager" where
  "persist_if_due timeout lm =
     (if timeout \<or> current_data_written lm > persist_threshold lm \<or> do_persist lm
      then (snd (PersistLogFile lm))\<lparr>current_data_written := 0, do_persist := False\<rparr>
      else lm)"

definition consumer_iteration :: "bool \<Rightarrow> LogManager \<Rightarrow> LogManager" where
  "consumer_iteration timeout lm = persist_if_due timeout (WriteBuffersToLogFile lm)"

section \<open>The serializer task\<close>

definition HandFilledBufferToWriter :: "LogManager \<Rightarrow> LogManager" where
  "HandFilledBufferToWriter lm =
     lm\<lparr>filled_buffer_queue := filled_buffer_queue lm @ [(filled_buffer lm, commits_in_buffer lm)],
        commits_in_buffer := [], filled_buffer := None\<rparr>"

text \<open>
  \<open>Dequeue\<close> of the blocking queue waits until the consumer task has gone through its loop and released
  the buffers that it wrote; \<open>None\<close> if there is no buffer to wait for.
\<close>

definition GetCurrentWriteBuffer :: "bool \<Rightarrow> LogManager \<Rightarrow> LogManager option" where
  "GetCurrentWriteBuffer timeout lm =
     (if filled_buffer lm \<noteq> None then Some lm
      else let lm = (if empty_buffer_queue lm = [] then consumer_iteration timeout lm else lm)
           in case empty_buffer_queue lm of
                [] \<Rightarrow> None
              | b # bs \<Rightarrow> Some (lm\<lparr>filled_buffer := Some (b, \<lparr>write_buffer = []\<rparr>), empty_buffer_queue := bs\<rparr>))"

partial_function (option) WriteValue_loop :: "bool \<Rightarrow> bytes \<Rightarrow> LogManager \<Rightarrow> LogManager option" where
  "WriteValue_loop timeout val lm =
     (if val = [] then Some lm
      else case filled_buffer lm of
        None \<Rightarrow> None
      | Some (b, out) \<Rightarrow>
          let (n, out) = BufferWrite out val;
              lm = lm\<lparr>filled_buffer := Some (b, out)\<rparr>
          in if IsBufferFull out then
               (case GetCurrentWriteBuffer timeout (HandFilledBufferToWriter lm) of
                  None \<Rightarrow> None
                | Some lm \<Rightarrow> WriteValue_loop timeout (drop n val) lm)
             else WriteValue_loop timeout (drop n val) lm)"

definition WriteValue :: "bool \<Rightarrow> bytes \<Rightarrow> LogManager \<Rightarrow> LogManager option" where
  "WriteValue timeout val lm =
     (case GetCurrentWriteBuffer timeout lm of None \<Rightarrow> None | Some lm \<Rightarrow> WriteValue_loop timeout val lm)"

fun write_values :: "bool \<Rightarrow> bytes list \<Rightarrow> LogManager \<Rightarrow> LogManager option" where
  "write_values timeout [] lm = Some lm"
| "write_values timeout (v # vs) lm =
     (case WriteValue timeout v lm of None \<Rightarrow> None | Some lm \<Rightarrow> write_values timeout vs lm)"

text \<open>One record in \<open>SerializeBuffer\<close>; \<open>ser\<close> is \<open>SerializeRecord\<close> in the memory of that moment.\<close>

definition serialize_one :: "(LogRecord \<Rightarrow> bytes list) \<Rightarrow> bool \<Rightarrow> LogRecord \<Rightarrow> LogManager \<Rightarrow> LogManager option" where
  "serialize_one ser timeout r lm =
     (case log_body r of
        CommitRecord _ _ read_only \<Rightarrow>
          map_option (\<lambda>lm. lm\<lparr>commits_in_buffer := commits_in_buffer lm @ [log_txn_begin r],
                              serialized_txns := serialized_txns lm @ [log_txn_begin r]\<rparr>)
            (if \<not> read_only then write_values timeout (ser r) lm else Some lm)
      | AbortRecord \<Rightarrow>
          map_option (\<lambda>lm. lm\<lparr>serialized_txns := serialized_txns lm @ [log_txn_begin r]\<rparr>)
            (write_values timeout (ser r) lm)
      | _ \<Rightarrow> write_values timeout (ser r) lm)"

fun SerializeBuffer :: "(LogRecord \<Rightarrow> bytes list) \<Rightarrow> bool \<Rightarrow> LogRecord list \<Rightarrow> LogManager \<Rightarrow> LogManager option" where
  "SerializeBuffer ser timeout [] lm = Some lm"
| "SerializeBuffer ser timeout (r # rs) lm =
     (case serialize_one ser timeout r lm of None \<Rightarrow> None | Some lm \<Rightarrow> SerializeBuffer ser timeout rs lm)"

fun serialize_queue :: "(LogRecord \<Rightarrow> bytes list) \<Rightarrow> bool \<Rightarrow> LogRecord list list \<Rightarrow> LogManager \<Rightarrow> LogManager option" where
  "serialize_queue ser timeout [] lm = Some lm"
| "serialize_queue ser timeout (seg # segs) lm =
     (case SerializeBuffer ser timeout seg lm of None \<Rightarrow> None | Some lm \<Rightarrow> serialize_queue ser timeout segs lm)"

text \<open>
  The outer loop of \<open>Process\<close>. \<open>arrivals\<close> are the segments that transactions hand over while the first,
  the second, ... batch is being serialized; the loop ends when it finds none.
\<close>

fun process_loop ::
  "(LogRecord \<Rightarrow> bytes list) \<Rightarrow> bool \<Rightarrow> LogRecord list list list \<Rightarrow> bool \<Rightarrow> LogManager \<Rightarrow> (bool \<times> LogManager) option" where
  "process_loop ser timeout arrivals processed lm =
     (if lm_flush_queue lm = [] then Some (processed, lm)
      else case serialize_queue ser timeout (lm_flush_queue lm) (lm\<lparr>lm_flush_queue := []\<rparr>) of
        None \<Rightarrow> None
      | Some lm \<Rightarrow>
          (case arrivals of
             [] \<Rightarrow> Some (True, lm)
           | a # as \<Rightarrow> process_loop ser timeout as True (lm\<lparr>lm_flush_queue := a\<rparr>)))"

declare process_loop.simps [simp del]

definition LogSerializerTask_Process ::
  "(LogRecord \<Rightarrow> bytes list) \<Rightarrow> bool \<Rightarrow> LogRecord list list list \<Rightarrow> LogManager \<times> TimestampManager
     \<Rightarrow> (bool \<times> LogManager \<times> TimestampManager) option" where
  "LogSerializerTask_Process ser timeout arrivals s =
     (case s of (lm, tm) \<Rightarrow>
        case process_loop ser timeout arrivals False lm of
          None \<Rightarrow> None
        | Some (buffers_processed, lm) \<Rightarrow>
            (let lm = (if buffers_processed then HandFilledBufferToWriter lm else lm)
             in Some (buffers_processed, lm\<lparr>serialized_txns := []\<rparr>, RemoveTransactions (serialized_txns lm) tm)))"


section \<open>What is in the pipeline\<close>

fun buf_bytes :: "(nat \<times> BufferedLogWriter) option \<Rightarrow> bytes" where
  "buf_bytes None = []"
| "buf_bytes (Some (_, w)) = write_buffer w"

text \<open>Everything that was written, and all callbacks, from the disk back to the serializer.\<close>

definition queue_bytes :: "((nat \<times> BufferedLogWriter) option \<times> timestamp list) list \<Rightarrow> bytes" where
  "queue_bytes q = concat (map (buf_bytes \<circ> fst) q)"

definition stream :: "LogManager \<Rightarrow> bytes" where
  "stream lm = log_file lm @ queue_bytes (filled_buffer_queue lm) @ buf_bytes (filled_buffer lm)"

definition all_commits :: "LogManager \<Rightarrow> timestamp list" where
  "all_commits lm = invoked lm @ commit_callbacks lm @ concat (map snd (filled_buffer_queue lm)) @ commits_in_buffer lm"

text \<open>What serializing a list of records writes, and the callbacks of their commits.\<close>

definition read_only_commit :: "LogRecord \<Rightarrow> bool" where
  "read_only_commit r \<longleftrightarrow> (case log_body r of CommitRecord _ _ ro \<Rightarrow> ro | _ \<Rightarrow> False)"

definition is_commit :: "LogRecord \<Rightarrow> bool" where
  "is_commit r \<longleftrightarrow> (case log_body r of CommitRecord _ _ _ \<Rightarrow> True | _ \<Rightarrow> False)"

definition log_bytes :: "(LogRecord \<Rightarrow> bytes list) \<Rightarrow> LogRecord list \<Rightarrow> bytes" where
  "log_bytes ser rs = concat (map (\<lambda>r. if read_only_commit r then [] else concat (ser r)) rs)"

definition commits :: "LogRecord list \<Rightarrow> timestamp list" where
  "commits rs = map log_txn_begin (filter is_commit rs)"

lemma log_bytes_simps [simp]:
  "log_bytes ser [] = []" "log_bytes ser (rs @ rs') = log_bytes ser rs @ log_bytes ser rs'"
  "log_bytes ser [r] = (if read_only_commit r then [] else concat (ser r))"
  by (simp_all add: log_bytes_def)

lemma commits_simps [simp]:
  "commits [] = []" "commits (rs @ rs') = commits rs @ commits rs'"
  "commits [r] = (if is_commit r then [log_txn_begin r] else [])"
  by (simp_all add: commits_def)

text \<open>The callbacks are those of records that end before byte \<open>n\<close> of the log; \<open>base\<close> is what the file held at the start.\<close>

definition covered :: "(LogRecord \<Rightarrow> bytes list) \<Rightarrow> bytes \<Rightarrow> LogRecord list \<Rightarrow> timestamp list \<Rightarrow> nat \<Rightarrow> bool" where
  "covered ser base hs cbs n \<longleftrightarrow>
     (\<exists>a b. hs = a @ b \<and> cbs = commits a \<and> length base + length (log_bytes ser a) \<le> n)"

lemma covered_mono: "covered ser base hs cbs n \<Longrightarrow> n \<le> n' \<Longrightarrow> covered ser base (hs @ x) cbs n'"
  unfolding covered_def by (metis append_assoc le_trans)

lemma covered_all: "covered ser base hs (commits hs) (length base + length (log_bytes ser hs))"
  unfolding covered_def by (metis append_Nil2 order_refl)

definition marks :: "(LogRecord \<Rightarrow> bytes list) \<Rightarrow> bytes \<Rightarrow> LogRecord list \<Rightarrow> LogManager \<Rightarrow> bool" where
  "marks ser base hs lm \<longleftrightarrow>
     covered ser base hs (invoked lm) (persisted lm)
     \<and> (\<forall>k \<le> length (filled_buffer_queue lm).
          covered ser base hs (invoked lm @ commit_callbacks lm @ concat (map snd (take k (filled_buffer_queue lm))))
            (length (log_file lm) + length (queue_bytes (take k (filled_buffer_queue lm)))))"

definition pool_ok :: "LogManager \<Rightarrow> bool" where
  "pool_ok lm \<longleftrightarrow>
     0 < num_buffers lm \<and> persisted lm \<le> length (log_file lm)
     \<and> length (empty_buffer_queue lm) + length (filter (\<lambda>x. fst x \<noteq> None) (filled_buffer_queue lm))
         + (if filled_buffer lm = None then 0 else 1) = num_buffers lm"

definition not_full :: "LogManager \<Rightarrow> bool" where
  "not_full lm \<longleftrightarrow> (\<forall>b w. filled_buffer lm = Some (b, w) \<longrightarrow> length (write_buffer w) < LOG_BUFFER_SIZE)"

definition lm_inv :: "(LogRecord \<Rightarrow> bytes list) \<Rightarrow> bytes \<Rightarrow> LogRecord list \<Rightarrow> LogManager \<Rightarrow> bool" where
  "lm_inv ser base hs lm \<longleftrightarrow> pool_ok lm \<and> marks ser base hs lm"

lemma marks_mono: "marks ser base hs lm \<Longrightarrow> marks ser base (hs @ x) lm"
  unfolding marks_def using covered_mono [of ser base hs] by blast

lemma lm_inv_mono: "lm_inv ser base hs lm \<Longrightarrow> lm_inv ser base (hs @ x) lm"
  unfolding lm_inv_def using marks_mono by blast

text \<open>The parts of the state that only the serializer changes.\<close>

definition same_serializer :: "LogManager \<Rightarrow> LogManager \<Rightarrow> bool" where
  "same_serializer lm' lm \<longleftrightarrow>
     lm_flush_queue lm' = lm_flush_queue lm \<and> serialized_txns lm' = serialized_txns lm \<and> num_buffers lm' = num_buffers lm"

definition keeps :: "(LogRecord \<Rightarrow> bytes list) \<Rightarrow> bytes \<Rightarrow> LogRecord list \<Rightarrow> bytes \<Rightarrow> LogManager \<Rightarrow> LogManager \<Rightarrow> bool" where
  "keeps ser base hs extra lm lm' \<longleftrightarrow>
     lm_inv ser base hs lm' \<and> stream lm' = stream lm @ extra \<and> all_commits lm' = all_commits lm \<and> same_serializer lm' lm
     \<and> (not_full lm \<longrightarrow> not_full lm')"

lemma keeps_trans: "keeps ser base hs x a b \<Longrightarrow> keeps ser base hs y b c \<Longrightarrow> keeps ser base hs (x @ y) a c"
  by (simp add: keeps_def same_serializer_def)

section \<open>The consumer keeps the log\<close>

lemma WriteBuffersToLogFile_eq:
  "WriteBuffersToLogFile lm =
     lm\<lparr>filled_buffer_queue := [], log_file := log_file lm @ queue_bytes (filled_buffer_queue lm),
        current_data_written := current_data_written lm + length (queue_bytes (filled_buffer_queue lm)),
        commit_callbacks := commit_callbacks lm @ concat (map snd (filled_buffer_queue lm)),
        empty_buffer_queue := empty_buffer_queue lm @ map fst (List.map_filter fst (filled_buffer_queue lm))\<rparr>"
proof -
  have "fold write_filled q lm =
     lm\<lparr>log_file := log_file lm @ queue_bytes q, current_data_written := current_data_written lm + length (queue_bytes q),
        commit_callbacks := commit_callbacks lm @ concat (map snd q),
        empty_buffer_queue := empty_buffer_queue lm @ map fst (List.map_filter fst q)\<rparr>" for q lm
  proof (induction q arbitrary: lm)
    case (Cons x q)
    obtain o' c where x: "x = (o', c)" by fastforce
    show ?case
    proof (cases o')
      case None
      then show ?thesis by (simp add: Cons x write_filled_def [of "(None, c)"] queue_bytes_def map_filter_simps)
    next
      case (Some bw)
      then show ?thesis
        by (cases bw) (simp add: Cons x write_filled_def [of "(Some (b, w), c)" for b w] queue_bytes_def FlushBuffer_def map_filter_simps)
    qed
  qed (simp add: queue_bytes_def map_filter_simps)
  then show ?thesis by (simp add: WriteBuffersToLogFile_def)
qed

lemma map_filter_length: "length (List.map_filter f xs) = length (filter (\<lambda>x. f x \<noteq> None) xs)"
  by (induction xs) (auto simp: map_filter_simps)

lemma WriteBuffersToLogFile_keeps:
  assumes "lm_inv ser base hs lm"
  shows "keeps ser base hs [] lm (WriteBuffersToLogFile lm)"
proof -
  have "covered ser base hs (invoked lm @ commit_callbacks lm @ concat (map snd (take k q))) (length (log_file lm) + length (queue_bytes (take k q)))"
    if "k \<le> length (filled_buffer_queue lm)" "q = filled_buffer_queue lm" for k q
    using assms that by (auto simp: lm_inv_def marks_def)
  from this [OF order_refl refl] show ?thesis
    using assms
    by (auto simp: keeps_def lm_inv_def pool_ok_def marks_def WriteBuffersToLogFile_eq stream_def all_commits_def same_serializer_def
        map_filter_length queue_bytes_def not_full_def)
qed

lemma PersistLogFile_keeps:
  assumes "lm_inv ser base hs lm"
  shows "keeps ser base hs [] lm (snd (PersistLogFile lm))"
proof -
  have "covered ser base hs (invoked lm @ commit_callbacks lm) (length (log_file lm))"
    using assms by (auto simp: lm_inv_def marks_def queue_bytes_def dest: spec [of _ 0])
  then show ?thesis
    using assms by (auto simp: keeps_def lm_inv_def pool_ok_def marks_def PersistLogFile_def stream_def all_commits_def same_serializer_def not_full_def)
qed

lemma flags_frame [simp]:
  "lm_inv ser base hs (lm\<lparr>current_data_written := x, do_persist := y\<rparr>) = lm_inv ser base hs lm"
  "stream (lm\<lparr>current_data_written := x, do_persist := y\<rparr>) = stream lm"
  "all_commits (lm\<lparr>current_data_written := x, do_persist := y\<rparr>) = all_commits lm"
  "same_serializer (lm\<lparr>current_data_written := x, do_persist := y\<rparr>) lm' = same_serializer lm lm'"
  "not_full (lm\<lparr>current_data_written := x, do_persist := y\<rparr>) = not_full lm"
  by (simp_all add: lm_inv_def pool_ok_def marks_def stream_def all_commits_def same_serializer_def not_full_def)

lemma persist_if_due_keeps:
  assumes "lm_inv ser base hs lm"
  shows "keeps ser base hs [] lm (persist_if_due timeout lm)"
proof -
  have "keeps ser base hs [] lm (lm'\<lparr>current_data_written := 0, do_persist := False\<rparr>)" if "keeps ser base hs [] lm lm'" for lm'
    using that by (simp add: keeps_def)
  moreover have "keeps ser base hs [] lm lm" using assms by (simp add: keeps_def same_serializer_def)
  ultimately show ?thesis using PersistLogFile_keeps [OF assms] by (simp add: persist_if_due_def)
qed

lemma consumer_iteration_keeps:
  assumes "lm_inv ser base hs lm"
  shows "keeps ser base hs [] lm (consumer_iteration timeout lm)"
proof -
  note W = WriteBuffersToLogFile_keeps [OF assms]
  then have "lm_inv ser base hs (WriteBuffersToLogFile lm)" by (simp add: keeps_def)
  from keeps_trans [OF W persist_if_due_keeps [OF this]] show ?thesis by (simp add: consumer_iteration_def)
qed

lemma consumer_iteration_frame:
  "filled_buffer (consumer_iteration timeout lm) = filled_buffer lm"
  "commits_in_buffer (consumer_iteration timeout lm) = commits_in_buffer lm"
  "filled_buffer_queue (consumer_iteration timeout lm) = []"
  by (simp_all add: consumer_iteration_def persist_if_due_def PersistLogFile_def WriteBuffersToLogFile_eq)


section \<open>The serializer extends the log\<close>

definition ready :: "(LogRecord \<Rightarrow> bytes list) \<Rightarrow> bytes \<Rightarrow> LogRecord list \<Rightarrow> LogManager \<Rightarrow> bool" where
  "ready ser base hs lm \<longleftrightarrow> lm_inv ser base hs lm \<and> covered ser base hs (all_commits lm) (length (stream lm))"

lemma keeps_ready: "ready ser base hs lm \<Longrightarrow> keeps ser base hs x lm lm' \<Longrightarrow> ready ser base hs lm'"
  using covered_mono [of ser base hs "all_commits lm" "length (stream lm)" _ "[]"] by (auto simp: ready_def keeps_def)

lemma HandFilledBufferToWriter_keeps:
  assumes "ready ser base hs lm"
  shows "keeps ser base hs [] lm (HandFilledBufferToWriter lm)"
proof -
  let ?q = "filled_buffer_queue lm" and ?x = "(filled_buffer lm, commits_in_buffer lm)"
  have "covered ser base hs (invoked lm @ commit_callbacks lm @ concat (map snd (take k (?q @ [?x]))))
      (length (log_file lm) + length (queue_bytes (take k (?q @ [?x]))))" if "k \<le> Suc (length ?q)" for k
  proof (cases "k = Suc (length ?q)")
    case True
    then show ?thesis using assms by (simp add: ready_def all_commits_def stream_def queue_bytes_def add.assoc)
  next
    case False
    then show ?thesis using assms that by (simp add: ready_def lm_inv_def marks_def)
  qed
  then have "marks ser base hs (HandFilledBufferToWriter lm)"
    using assms by (simp only: marks_def ready_def lm_inv_def) (simp add: HandFilledBufferToWriter_def)
  moreover have "pool_ok (HandFilledBufferToWriter lm)"
    using assms by (cases "filled_buffer lm") (simp_all add: ready_def lm_inv_def pool_ok_def HandFilledBufferToWriter_def)
  ultimately show ?thesis
    by (simp add: keeps_def lm_inv_def) (simp add: HandFilledBufferToWriter_def stream_def all_commits_def same_serializer_def not_full_def queue_bytes_def)
qed

lemma GetCurrentWriteBuffer_keeps:
  assumes "ready ser base hs lm"
  shows "\<exists>lm'. GetCurrentWriteBuffer timeout lm = Some lm' \<and> keeps ser base hs [] lm lm' \<and> filled_buffer lm' \<noteq> None"
proof (cases "filled_buffer lm = None")
  case True
  have inv: "lm_inv ser base hs lm" using assms by (simp add: ready_def)
  define lm1 where "lm1 = (if empty_buffer_queue lm = [] then consumer_iteration timeout lm else lm)"
  have k: "keeps ser base hs [] lm lm1"
    using inv consumer_iteration_keeps [OF inv] by (simp add: lm1_def keeps_def same_serializer_def)
  have f: "filled_buffer lm1 = None" using True by (simp add: lm1_def consumer_iteration_frame)
  have "empty_buffer_queue lm1 \<noteq> []"
  proof (cases "empty_buffer_queue lm = []")
    case True
    then have "filled_buffer_queue lm1 = []" by (simp add: lm1_def consumer_iteration_frame)
    then show ?thesis using k f by (auto simp: keeps_def lm_inv_def pool_ok_def)
  qed (simp add: lm1_def)
  then obtain b bs where b: "empty_buffer_queue lm1 = b # bs" by (cases "empty_buffer_queue lm1") auto
  let ?lm2 = "lm1\<lparr>filled_buffer := Some (b, \<lparr>write_buffer = []\<rparr>), empty_buffer_queue := bs\<rparr>"
  have "keeps ser base hs [] lm1 ?lm2"
    using k f b by (simp add: keeps_def lm_inv_def pool_ok_def marks_def stream_def all_commits_def same_serializer_def
        not_full_def LOG_BUFFER_SIZE_def)
  from keeps_trans [OF k this] show ?thesis
    using True b by (simp add: GetCurrentWriteBuffer_def Let_def flip: lm1_def)
qed (use assms in \<open>simp add: GetCurrentWriteBuffer_def keeps_def ready_def same_serializer_def\<close>)

lemma WriteValue_step:
  assumes r: "ready ser base hs lm" and f: "not_full lm" "filled_buffer lm = Some (b, w)" and ne: "val \<noteq> []"
  shows "\<exists>n lm2. 0 < n \<and> n \<le> length val \<and> WriteValue_loop timeout val lm = WriteValue_loop timeout (drop n val) lm2
    \<and> keeps ser base hs (take n val) lm lm2 \<and> not_full lm2 \<and> filled_buffer lm2 \<noteq> None"
proof -
  have sp: "length (write_buffer w) < LOG_BUFFER_SIZE" using f by (simp add: not_full_def)
  define n where "n = fst (BufferWrite w val)"
  define w' where "w' = w\<lparr>write_buffer := write_buffer w @ take n val\<rparr>"
  define lm1 where "lm1 = lm\<lparr>filled_buffer := Some (b, w')\<rparr>"
  have n: "0 < n" "n \<le> length val" "n \<le> LOG_BUFFER_SIZE - length (write_buffer w)"
    using ne sp by (auto simp: n_def BufferWrite_def CanBuffer_def Let_def)
  have bw: "BufferWrite w val = (n, w')" by (simp add: n_def w'_def BufferWrite_def Let_def)
  have p1: "lm_inv ser base hs lm1" "stream lm1 = stream lm @ take n val" "all_commits lm1 = all_commits lm" "same_serializer lm1 lm"
    using r f(2) by (simp_all add: lm1_def w'_def ready_def lm_inv_def pool_ok_def marks_def stream_def all_commits_def same_serializer_def)
  have r1: "ready ser base hs lm1"
    using r p1 covered_mono [of ser base hs "all_commits lm" "length (stream lm)" "length (stream lm1)" "[]"] by (simp add: ready_def)
  have fin: ?thesis if "keeps ser base hs [] lm1 lm2" "not_full lm2" "filled_buffer lm2 \<noteq> None"
      "WriteValue_loop timeout val lm = WriteValue_loop timeout (drop n val) lm2" for lm2
    using that n p1 by (intro exI [of _ n] exI [of _ lm2]) (simp add: keeps_def same_serializer_def)
  show ?thesis
  proof (cases "IsBufferFull w'")
    case True
    note H = HandFilledBufferToWriter_keeps [OF r1]
    obtain lm2 where lm2: "GetCurrentWriteBuffer timeout (HandFilledBufferToWriter lm1) = Some lm2"
        "keeps ser base hs [] (HandFilledBufferToWriter lm1) lm2" "filled_buffer lm2 \<noteq> None"
      using GetCurrentWriteBuffer_keeps [OF keeps_ready [OF r1 H]] by blast
    have "not_full (HandFilledBufferToWriter lm1)" by (simp add: not_full_def HandFilledBufferToWriter_def)
    then have "not_full lm2" using lm2(2) by (simp add: keeps_def)
    moreover have "WriteValue_loop timeout val lm = WriteValue_loop timeout (drop n val) lm2"
      using ne f(2) bw True lm2(1) by (subst WriteValue_loop.simps) (simp flip: lm1_def)
    ultimately show ?thesis using fin keeps_trans [OF H lm2(2)] lm2(3) by simp
  next
    case False
    have "not_full lm1" using False n(3) sp by (auto simp: not_full_def lm1_def w'_def IsBufferFull_def)
    moreover have "keeps ser base hs [] lm1 lm1" using p1(1) by (simp add: keeps_def same_serializer_def)
    moreover have "WriteValue_loop timeout val lm = WriteValue_loop timeout (drop n val) lm1"
      using ne f(2) bw False by (subst WriteValue_loop.simps) (simp flip: lm1_def)
    ultimately show ?thesis using fin by (simp add: lm1_def)
  qed
qed

lemma WriteValue_loop_keeps:
  assumes "ready ser base hs lm" and "not_full lm" and "filled_buffer lm \<noteq> None"
  shows "\<exists>lm'. WriteValue_loop timeout val lm = Some lm' \<and> keeps ser base hs val lm lm'"
  using assms
proof (induction val arbitrary: lm rule: length_induct)
  case (1 val)
  show ?case
  proof (cases "val = []")
    case True
    then show ?thesis using 1(2) by (simp add: WriteValue_loop.simps keeps_def ready_def same_serializer_def)
  next
    case False
    obtain b w where w: "filled_buffer lm = Some (b, w)" using 1(4) by auto
    obtain n lm2 where n: "0 < n" "n \<le> length val" "WriteValue_loop timeout val lm = WriteValue_loop timeout (drop n val) lm2"
      and k: "keeps ser base hs (take n val) lm lm2" "not_full lm2" "filled_buffer lm2 \<noteq> None"
      using WriteValue_step [OF 1(2,3) w False] by blast
    have "length (drop n val) < length val" using n False by simp
    from 1(1) [rule_format, OF this keeps_ready [OF 1(2) k(1)] k(2,3)] obtain lm' where
      "WriteValue_loop timeout (drop n val) lm2 = Some lm'" "keeps ser base hs (drop n val) lm2 lm'" by blast
    then show ?thesis using n(3) keeps_trans [OF k(1)] by fastforce
  qed
qed

lemma WriteValue_keeps:
  assumes "ready ser base hs lm" and "not_full lm"
  shows "\<exists>lm'. WriteValue timeout val lm = Some lm' \<and> keeps ser base hs val lm lm'"
proof -
  obtain lm1 where lm1: "GetCurrentWriteBuffer timeout lm = Some lm1" "keeps ser base hs [] lm lm1" "filled_buffer lm1 \<noteq> None"
    using GetCurrentWriteBuffer_keeps [OF assms(1)] by blast
  have "not_full lm1" using lm1(2) assms(2) by (simp add: keeps_def)
  from WriteValue_loop_keeps [OF keeps_ready [OF assms(1) lm1(2)] this lm1(3)] obtain lm2 where
    "WriteValue_loop timeout val lm1 = Some lm2" "keeps ser base hs val lm1 lm2" by blast
  then show ?thesis using lm1(1) keeps_trans [OF lm1(2)] by (fastforce simp: WriteValue_def)
qed

lemma write_values_keeps:
  assumes "ready ser base hs lm" and "not_full lm"
  shows "\<exists>lm'. write_values timeout vs lm = Some lm' \<and> keeps ser base hs (concat vs) lm lm'"
  using assms
proof (induction vs arbitrary: lm)
  case (Cons v vs)
  obtain lm1 where lm1: "WriteValue timeout v lm = Some lm1" "keeps ser base hs v lm lm1"
    using WriteValue_keeps [OF Cons.prems] by blast
  have "not_full lm1" using lm1(2) Cons.prems(2) by (simp add: keeps_def)
  from Cons.IH [OF keeps_ready [OF Cons.prems(1) lm1(2)] this] obtain lm2 where
    "write_values timeout vs lm1 = Some lm2" "keeps ser base hs (concat vs) lm1 lm2" by blast
  then show ?case using lm1(1) keeps_trans [OF lm1(2)] by fastforce
qed (simp add: keeps_def ready_def same_serializer_def)

section \<open>Records in order\<close>

text \<open>The records \<open>hs\<close> have been serialized, \<open>fs\<close> are their finished transactions.\<close>

definition finished :: "LogRecord list \<Rightarrow> timestamp list" where
  "finished rs = map log_txn_begin (filter (\<lambda>r. is_commit r \<or> log_body r = AbortRecord) rs)"

lemma finished_simps [simp]:
  "finished [] = []" "finished (rs @ rs') = finished rs @ finished rs'"
  by (simp_all add: finished_def)

definition logged :: "(LogRecord \<Rightarrow> bytes list) \<Rightarrow> bytes \<Rightarrow> LogRecord list \<Rightarrow> LogManager \<Rightarrow> bool" where
  "logged ser base hs lm \<longleftrightarrow>
     lm_inv ser base hs lm \<and> not_full lm \<and> stream lm = base @ log_bytes ser hs \<and> all_commits lm = commits hs"

lemma logged_ready: "logged ser base hs lm \<Longrightarrow> ready ser base hs lm"
  using covered_all [of ser base hs] by (simp add: logged_def ready_def)

lemma keeps_logged: "logged ser base hs lm \<Longrightarrow> keeps ser base hs [] lm lm' \<Longrightarrow> logged ser base hs lm'"
  by (simp add: logged_def keeps_def)

lemma write_record_logged:
  assumes "logged ser base hs lm" and "\<not> read_only_commit r"
  shows "\<exists>lm'. write_values timeout (ser r) lm = Some lm' \<and> lm_inv ser base (hs @ [r]) lm' \<and> not_full lm'
    \<and> stream lm' = base @ log_bytes ser (hs @ [r]) \<and> all_commits lm' = commits hs \<and> same_serializer lm' lm"
proof -
  have "not_full lm" using assms(1) by (simp add: logged_def)
  from write_values_keeps [OF logged_ready [OF assms(1)] this, of timeout "ser r"] obtain lm' where
    "write_values timeout (ser r) lm = Some lm'" "keeps ser base hs (concat (ser r)) lm lm'" by blast
  then show ?thesis using assms lm_inv_mono by (auto simp: keeps_def logged_def)
qed

lemma serialize_one_logged:
  assumes "logged ser base hs lm"
  shows "\<exists>lm'. serialize_one ser timeout r lm = Some lm' \<and> logged ser base (hs @ [r]) lm'
    \<and> lm_flush_queue lm' = lm_flush_queue lm \<and> serialized_txns lm' = serialized_txns lm @ finished [r]"
proof (cases "read_only_commit r")
  case True
  then obtain c o' where "log_body r = CommitRecord c o' True"
    by (auto simp: read_only_commit_def split: LogRecordBody.splits)
  then show ?thesis
    using assms lm_inv_mono [of ser base hs lm "[r]"] True
    by (auto simp: serialize_one_def logged_def is_commit_def finished_def lm_inv_def pool_ok_def marks_def stream_def all_commits_def not_full_def)
next
  case False
  obtain lm' where lm': "write_values timeout (ser r) lm = Some lm'" "lm_inv ser base (hs @ [r]) lm'" "not_full lm'"
      "stream lm' = base @ log_bytes ser (hs @ [r])" "all_commits lm' = commits hs" "same_serializer lm' lm"
    using write_record_logged [OF assms False] by blast
  show ?thesis
  proof (cases "log_body r")
    case (CommitRecord c o' ro)
    then have "\<not> ro" using False by (simp add: read_only_commit_def)
    then show ?thesis
      using lm' CommitRecord
      by (auto simp: serialize_one_def logged_def is_commit_def finished_def lm_inv_def pool_ok_def marks_def stream_def all_commits_def not_full_def same_serializer_def)
  qed (use lm' in \<open>auto simp: serialize_one_def logged_def is_commit_def finished_def lm_inv_def pool_ok_def marks_def stream_def all_commits_def
      not_full_def same_serializer_def\<close>)
qed


lemma SerializeBuffer_logged:
  assumes "logged ser base hs lm"
  shows "\<exists>lm'. SerializeBuffer ser timeout rs lm = Some lm' \<and> logged ser base (hs @ rs) lm'
    \<and> lm_flush_queue lm' = lm_flush_queue lm \<and> serialized_txns lm' = serialized_txns lm @ finished rs"
  using assms
proof (induction rs arbitrary: lm hs)
  case (Cons r rs)
  obtain lm1 where lm1: "serialize_one ser timeout r lm = Some lm1" "logged ser base (hs @ [r]) lm1"
      "lm_flush_queue lm1 = lm_flush_queue lm" "serialized_txns lm1 = serialized_txns lm @ finished [r]"
    using serialize_one_logged [OF Cons.prems] by blast
  have "finished (r # rs) = finished [r] @ finished rs" by (simp add: finished_def)
  with Cons.IH [OF lm1(2)] show ?case using lm1 by auto
qed simp

lemma serialize_queue_logged:
  assumes "logged ser base hs lm"
  shows "\<exists>lm'. serialize_queue ser timeout segs lm = Some lm' \<and> logged ser base (hs @ concat segs) lm'
    \<and> lm_flush_queue lm' = lm_flush_queue lm \<and> serialized_txns lm' = serialized_txns lm @ finished (concat segs)"
  using assms
proof (induction segs arbitrary: lm hs)
  case (Cons seg segs)
  obtain lm1 where lm1: "SerializeBuffer ser timeout seg lm = Some lm1" "logged ser base (hs @ seg) lm1"
      "lm_flush_queue lm1 = lm_flush_queue lm" "serialized_txns lm1 = serialized_txns lm @ finished seg"
    using SerializeBuffer_logged [OF Cons.prems] by blast
  from Cons.IH [OF lm1(2)] show ?case using lm1 by auto
qed simp

lemma logged_flush_queue [simp]: "logged ser base hs (lm\<lparr>lm_flush_queue := q\<rparr>) = logged ser base hs lm"
  by (simp add: logged_def lm_inv_def pool_ok_def marks_def stream_def all_commits_def not_full_def)

lemma process_loop_logged:
  assumes "logged ser base hs lm" and "[] \<notin> set arrivals" and "lm_flush_queue lm = [] \<longrightarrow> arrivals = []"
  shows "\<exists>b lm'. process_loop ser timeout arrivals processed lm = Some (b, lm') \<and> (b \<longleftrightarrow> processed \<or> lm_flush_queue lm \<noteq> [])
    \<and> logged ser base (hs @ concat (lm_flush_queue lm @ concat arrivals)) lm' \<and> lm_flush_queue lm' = []
    \<and> serialized_txns lm' = serialized_txns lm @ finished (concat (lm_flush_queue lm @ concat arrivals))"
  using assms
proof (induction arrivals arbitrary: hs lm processed)
  case Nil
  have "logged ser base hs (lm\<lparr>lm_flush_queue := []\<rparr>)" using Nil.prems(1) by simp
  from serialize_queue_logged [OF this, of timeout "lm_flush_queue lm"] show ?case
    using Nil.prems(1) by (auto simp: process_loop.simps)
next
  case (Cons a arrivals)
  have ne: "lm_flush_queue lm \<noteq> []" "a \<noteq> []" using Cons.prems(2,3) by auto
  have "logged ser base hs (lm\<lparr>lm_flush_queue := []\<rparr>)" using Cons.prems(1) by simp
  from serialize_queue_logged [OF this, of timeout "lm_flush_queue lm"] obtain lm1 where
    lm1: "serialize_queue ser timeout (lm_flush_queue lm) (lm\<lparr>lm_flush_queue := []\<rparr>) = Some lm1"
      "logged ser base (hs @ concat (lm_flush_queue lm)) lm1" "serialized_txns lm1 = serialized_txns lm @ finished (concat (lm_flush_queue lm))"
    by auto
  have "logged ser base (hs @ concat (lm_flush_queue lm)) (lm1\<lparr>lm_flush_queue := a\<rparr>)" using lm1(2) by simp
  from Cons.IH [OF this, of True] Cons.prems(2) ne show ?case
    using lm1 by (auto simp: process_loop.simps [of ser timeout "a # arrivals"])
qed

text \<open>Between its runs the serializer holds no buffer.\<close>

definition idle :: "LogManager \<Rightarrow> bool" where
  "idle lm \<longleftrightarrow> filled_buffer lm = None \<and> commits_in_buffer lm = []"

lemma Process_logged:
  assumes "logged ser base hs lm" and "serialized_txns lm = []" and "[] \<notin> set arrivals" and "lm_flush_queue lm = [] \<longrightarrow> arrivals = []"
  defines "rs \<equiv> concat (lm_flush_queue lm @ concat arrivals)"
  shows "\<exists>b lm'. LogSerializerTask_Process ser timeout arrivals (lm, tm) = Some (b, lm', RemoveTransactions (finished rs) tm)
    \<and> logged ser base (hs @ rs) lm' \<and> lm_flush_queue lm' = [] \<and> serialized_txns lm' = []
    \<and> (idle lm \<longrightarrow> idle lm')"
proof -
  obtain b lm1 where L: "process_loop ser timeout arrivals False lm = Some (b, lm1)" "b \<longleftrightarrow> lm_flush_queue lm \<noteq> []"
      "logged ser base (hs @ rs) lm1" "lm_flush_queue lm1 = []" "serialized_txns lm1 = finished rs"
    using process_loop_logged [OF assms(1,3,4), of timeout False] assms(2) by (auto simp: rs_def)
  let ?lm2 = "if b then HandFilledBufferToWriter lm1 else lm1"
  have "logged ser base (hs @ rs) ?lm2"
    using L(3) keeps_logged [OF L(3) HandFilledBufferToWriter_keeps [OF logged_ready [OF L(3)]]] by simp
  then have l: "logged ser base (hs @ rs) (?lm2\<lparr>serialized_txns := []\<rparr>)"
    by (simp add: logged_def lm_inv_def pool_ok_def marks_def stream_def all_commits_def not_full_def)
  have "LogSerializerTask_Process ser timeout arrivals (lm, tm) = Some (b, ?lm2\<lparr>serialized_txns := []\<rparr>, RemoveTransactions (finished rs) tm)"
    using L(1,5) by (simp add: LogSerializerTask_Process_def Let_def HandFilledBufferToWriter_def)
  moreover have "\<not> b \<Longrightarrow> lm1 = lm" using L(1,2) by (simp add: process_loop.simps)
  then have "idle lm \<longrightarrow> idle (?lm2\<lparr>serialized_txns := []\<rparr>)" by (cases b) (simp_all add: idle_def HandFilledBufferToWriter_def)
  ultimately show ?thesis using l L(4) by (auto simp: HandFilledBufferToWriter_def)
qed

section \<open>Runs of the two tasks\<close>

text \<open>
  The state of the system: the log manager, the timestamp manager, whether the consumer task stands
  between writing and persisting, and whether a client waits in \<open>ForceFlush\<close>.
\<close>

record log_system =
  manager :: LogManager
  timestamps :: TimestampManager
  written :: bool
  forcing :: bool

datatype log_event =
    Handed "LogRecord list" | Serialized "LogRecord list list list" | Written | PersistChecked
  | FlushRequested "LogRecord list list list" | FlushReturned

text \<open>
  Transactions hand over segments, also while the serializer runs; the serializer and the two halves
  of the consumer run in any order; \<open>ForceFlush\<close> serializes, asks for a persist and waits for it.
\<close>

inductive log_step :: "(LogRecord \<Rightarrow> bytes list) \<Rightarrow> log_system \<Rightarrow> log_event \<Rightarrow> log_system \<Rightarrow> bool" for ser where
  log_hand: "log_step ser s (Handed seg) (s\<lparr>manager := AddBufferToFlushQueue seg (manager s)\<rparr>)"
| log_serialize: "[] \<notin> set arrivals \<Longrightarrow> (lm_flush_queue (manager s) = [] \<longrightarrow> arrivals = []) \<Longrightarrow>
    LogSerializerTask_Process ser timeout arrivals (manager s, timestamps s) = Some (b, lm, tm) \<Longrightarrow>
    log_step ser s (Serialized arrivals) (s\<lparr>manager := lm, timestamps := tm\<rparr>)"
| log_write: "\<not> written s \<Longrightarrow>
    log_step ser s Written (s\<lparr>manager := WriteBuffersToLogFile (manager s), written := True\<rparr>)"
| log_persist: "written s \<Longrightarrow>
    log_step ser s PersistChecked (s\<lparr>manager := persist_if_due timeout (manager s), written := False\<rparr>)"
| log_force: "\<not> forcing s \<Longrightarrow> [] \<notin> set arrivals \<Longrightarrow> (lm_flush_queue (manager s) = [] \<longrightarrow> arrivals = []) \<Longrightarrow>
    LogSerializerTask_Process ser timeout arrivals (manager s, timestamps s) = Some (b, lm, tm) \<Longrightarrow>
    log_step ser s (FlushRequested arrivals) (s\<lparr>manager := lm\<lparr>do_persist := True\<rparr>, timestamps := tm, forcing := True\<rparr>)"
| log_force_return: "forcing s \<Longrightarrow> \<not> do_persist (manager s) \<Longrightarrow>
    log_step ser s FlushReturned (s\<lparr>forcing := False\<rparr>)"

inductive_cases log_step_cases: "log_step ser s e s'"

definition log_init :: "nat \<Rightarrow> nat \<Rightarrow> bytes \<Rightarrow> TimestampManager \<Rightarrow> log_system" where
  "log_init n threshold base tm =
     \<lparr>manager = LogManager_Start n threshold base, timestamps = tm, written = False, forcing = False\<rparr>"

text \<open>The records that were handed over in a run.\<close>

fun event_records :: "log_event \<Rightarrow> LogRecord list" where
  "event_records (Handed seg) = seg"
| "event_records (Serialized arrivals) = concat (concat arrivals)"
| "event_records (FlushRequested arrivals) = concat (concat arrivals)"
| "event_records _ = []"

definition handed :: "log_event list \<Rightarrow> LogRecord list" where
  "handed es = concat (map event_records es)"

definition system_ok :: "(LogRecord \<Rightarrow> bytes list) \<Rightarrow> bytes \<Rightarrow> LogRecord list \<Rightarrow> log_system \<Rightarrow> bool" where
  "system_ok ser base hs s \<longleftrightarrow>
     (\<exists>done. logged ser base done (manager s) \<and> hs = done @ concat (lm_flush_queue (manager s)) \<and> serialized_txns (manager s) = []
       \<and> idle (manager s))"

lemma log_init_ok:
  assumes "0 < n"
  shows "system_ok ser base [] (log_init n threshold base tm)"
  using assms unfolding system_ok_def
  by (auto simp: log_init_def LogManager_Start_def logged_def lm_inv_def pool_ok_def marks_def covered_def stream_def all_commits_def
      not_full_def queue_bytes_def idle_def)

lemma log_step_ok:
  assumes "log_step ser s e s'" and "system_ok ser base hs s"
  shows "system_ok ser base (hs @ event_records e) s'"
proof -
  obtain d where d: "logged ser base d (manager s)" "hs = d @ concat (lm_flush_queue (manager s))" "serialized_txns (manager s) = []" "idle (manager s)"
    using assms(2) by (auto simp: system_ok_def)
  have inv: "lm_inv ser base d (manager s)" using d(1) by (simp add: logged_def)
  from assms(1) show ?thesis
  proof cases
    case (log_hand seg)
    then show ?thesis using d by (auto simp: system_ok_def AddBufferToFlushQueue_def idle_def)
  next
    case (log_serialize arrivals timeout b lm tm)
    then show ?thesis using Process_logged [OF d(1,3), of arrivals timeout "timestamps s"] d(2,4) by (auto simp: system_ok_def idle_def)
  next
    case log_write
    note K = WriteBuffersToLogFile_keeps [OF inv]
    show ?thesis using log_write keeps_logged [OF d(1) K] K d by (auto simp: system_ok_def keeps_def same_serializer_def idle_def WriteBuffersToLogFile_eq)
  next
    case (log_persist timeout)
    note K = persist_if_due_keeps [OF inv, of timeout]
    show ?thesis using log_persist keeps_logged [OF d(1) K] K d by (auto simp: system_ok_def keeps_def same_serializer_def idle_def persist_if_due_def PersistLogFile_def)
  next
    case (log_force arrivals timeout b lm tm)
    have "logged ser base x (lm\<lparr>do_persist := True\<rparr>) = logged ser base x lm" for x
      by (simp add: logged_def lm_inv_def pool_ok_def marks_def stream_def all_commits_def not_full_def)
    then show ?thesis
      using log_force Process_logged [OF d(1,3), of arrivals timeout "timestamps s"] d(2,4) by (auto simp: system_ok_def idle_def)
  next
    case log_force_return
    then show ?thesis using d by (auto simp: system_ok_def)
  qed
qed

lemma log_run_ok:
  assumes "run (log_step ser) s es s'" and "system_ok ser base hs s"
  shows "system_ok ser base (hs @ handed es) s'"
  using assms
proof (induction arbitrary: hs rule: run.induct)
  case (run_cons s e s' es s'')
  from run_cons.IH [OF log_step_ok [OF run_cons.hyps(1) run_cons.prems]] show ?case by (simp add: handed_def)
qed (simp add: handed_def)


section \<open>A flush\<close>

text \<open>The iteration of the consumer after a flush was requested.\<close>

lemma forced_iteration:
  fixes timeout :: bool
  assumes "logged ser base records lm" and "idle lm"
  defines "c \<equiv> persist_if_due timeout (WriteBuffersToLogFile (lm\<lparr>do_persist := True\<rparr>))"
  shows "log_file c = base @ log_bytes ser records" and "persisted c = length (log_file c)"
    and "invoked c = commits records" and "\<not> do_persist c"
proof -
  have nb: "num_buffers lm \<noteq> 0" using assms(1) by (simp add: logged_def lm_inv_def pool_ok_def)
  have "stream lm = base @ log_bytes ser records" "all_commits lm = commits records" "filled_buffer lm = None" "commits_in_buffer lm = []"
    using assms(1,2) by (simp_all add: logged_def idle_def)
  then show "log_file c = base @ log_bytes ser records" "persisted c = length (log_file c)" "invoked c = commits records" "\<not> do_persist c"
    using nb by (simp_all add: c_def persist_if_due_def PersistLogFile_def WriteBuffersToLogFile_eq stream_def all_commits_def)
qed

lemma flush_run:
  assumes "system_ok ser base hs s" and "\<not> written s" and "\<not> forcing s"
    and "[] \<notin> set arrivals" and "lm_flush_queue (manager s) = [] \<longrightarrow> arrivals = []"
  shows "\<exists>s'. run (log_step ser) s [FlushRequested arrivals, Written, PersistChecked] s'"
    and "run (log_step ser) s [FlushRequested arrivals, Written, PersistChecked] s' \<Longrightarrow>
      log_file (manager s') = base @ log_bytes ser (hs @ concat (concat arrivals))
      \<and> persisted (manager s') = length (log_file (manager s'))
      \<and> invoked (manager s') = commits (hs @ concat (concat arrivals))
      \<and> log_step ser s' FlushReturned (s'\<lparr>forcing := False\<rparr>)"
proof -
  let ?m = "manager s"
  obtain d where d: "logged ser base d ?m" "hs = d @ concat (lm_flush_queue ?m)" "serialized_txns ?m = []" "idle ?m"
    using assms(1) by (auto simp: system_ok_def)
  have rec: "d @ concat (lm_flush_queue ?m @ concat arrivals) = hs @ concat (concat arrivals)" using d(2) by simp
  have P: "\<exists>b lm tm'. LogSerializerTask_Process ser timeout arrivals (?m, timestamps s) = Some (b, lm, tm')
      \<and> logged ser base (hs @ concat (concat arrivals)) lm \<and> idle lm" for timeout
    using Process_logged [OF d(1,3) assms(4,5), of timeout "timestamps s"] d(4) unfolding rec by auto
  obtain b lm tm' where p: "LogSerializerTask_Process ser False arrivals (?m, timestamps s) = Some (b, lm, tm')" using P by blast
  let ?s1 = "s\<lparr>manager := lm\<lparr>do_persist := True\<rparr>, timestamps := tm', forcing := True\<rparr>"
  let ?s2 = "?s1\<lparr>manager := WriteBuffersToLogFile (manager ?s1), written := True\<rparr>"
  have "log_step ser s (FlushRequested arrivals) ?s1" by (rule log_force [OF assms(3-5) p])
  moreover have "log_step ser ?s1 Written ?s2" by (rule log_write) (use assms(2) in simp)
  moreover have "log_step ser ?s2 PersistChecked (?s2\<lparr>manager := persist_if_due False (manager ?s2), written := False\<rparr>)"
    by (rule log_persist) simp
  ultimately show "\<exists>s'. run (log_step ser) s [FlushRequested arrivals, Written, PersistChecked] s'" by (meson run.intros)
  assume "run (log_step ser) s [FlushRequested arrivals, Written, PersistChecked] s'"
  then obtain x1 x2 where x: "log_step ser s (FlushRequested arrivals) x1" "log_step ser x1 Written x2" "log_step ser x2 PersistChecked s'"
    by (auto elim!: run_elims)
  from x(1) obtain timeout b lm tm' where x1: "LogSerializerTask_Process ser timeout arrivals (?m, timestamps s) = Some (b, lm, tm')"
      "x1 = s\<lparr>manager := lm\<lparr>do_persist := True\<rparr>, timestamps := tm', forcing := True\<rparr>"
    by cases auto
  have l: "logged ser base (hs @ concat (concat arrivals)) lm" "idle lm" using P [of timeout] x1(1) by auto
  from x(2) have x2: "x2 = x1\<lparr>manager := WriteBuffersToLogFile (manager x1), written := True\<rparr>" by cases auto
  from x(3) obtain timeout' where x3: "s' = x2\<lparr>manager := persist_if_due timeout' (manager x2), written := False\<rparr>" by cases auto
  note F = forced_iteration [OF l, of timeout']
  have "log_step ser s' FlushReturned (s'\<lparr>forcing := False\<rparr>)"
    by (rule log_force_return) (use F(4) in \<open>simp_all add: x1(2) x2 x3\<close>)
  then show "log_file (manager s') = base @ log_bytes ser (hs @ concat (concat arrivals))
      \<and> persisted (manager s') = length (log_file (manager s'))
      \<and> invoked (manager s') = commits (hs @ concat (concat arrivals))
      \<and> log_step ser s' FlushReturned (s'\<lparr>forcing := False\<rparr>)"
    using F(1-3) by (simp add: x1(2) x2 x3)
qed


section \<open>Properties\<close>

text \<open>
  C6. Commits are acknowledged only when they are durable. In every run of the log manager, with
  segments handed over at any time and the serializer, the consumer and flushes interleaved in any
  order: the log file holds the serialized records in the order in which they were handed over;
  the callbacks that have run are those of the commits of a prefix of these records, in that order;
  and this prefix is completely in the persistent part of the file.
\<close>

theorem callbacks_after_persist:
  assumes "0 < n" and "run (log_step (SerializeRecord vm layout_of)) (log_init n threshold base tm) es s"
  shows "prefix (log_file (manager s)) (base @ log_bytes (SerializeRecord vm layout_of) (handed es))
    \<and> (\<exists>a. prefix a (handed es) \<and> invoked (manager s) = commits a
         \<and> prefix (base @ log_bytes (SerializeRecord vm layout_of) a) (take (persisted (manager s)) (log_file (manager s))))"
proof -
  let ?ser = "SerializeRecord vm layout_of" and ?m = "manager s"
  obtain d where d: "logged ?ser base d ?m" "handed es = d @ concat (lm_flush_queue ?m)"
    using log_run_ok [OF assms(2) log_init_ok [OF assms(1)]] by (auto simp: system_ok_def)
  have st: "base @ log_bytes ?ser d = log_file ?m @ queue_bytes (filled_buffer_queue ?m) @ buf_bytes (filled_buffer ?m)"
    using d(1) by (simp add: logged_def stream_def)
  have "covered ?ser base d (invoked ?m) (persisted ?m)" and le: "persisted ?m \<le> length (log_file ?m)"
    using d(1) by (simp_all add: logged_def lm_inv_def marks_def pool_ok_def)
  then obtain a b where a: "d = a @ b" "invoked ?m = commits a" "length (base @ log_bytes ?ser a) \<le> persisted ?m"
    by (auto simp: covered_def)
  have "prefix (log_file ?m) (base @ log_bytes ?ser d)" unfolding st by simp
  then have f: "prefix (log_file ?m) (base @ log_bytes ?ser (handed es))"
    by (metis append_assoc d(2) log_bytes_simps(2) prefix_prefix)
  have "take (persisted ?m) (log_file ?m) = take (persisted ?m) ((base @ log_bytes ?ser a) @ log_bytes ?ser b)"
    using le st a(1) by (metis append_assoc diff_is_0_eq' log_bytes_simps(2) self_append_conv take0 take_append)
  also have "\<dots> = (base @ log_bytes ?ser a) @ take (persisted ?m - length (base @ log_bytes ?ser a)) (log_bytes ?ser b)"
    using a(3) by (subst take_append) simp
  finally have "prefix (base @ log_bytes ?ser a) (take (persisted ?m) (log_file ?m))" by (simp add: prefix_def)
  moreover have "prefix a (handed es)" using a(1) d(2) by simp
  ultimately show ?thesis using f a(2) by blast
qed

text \<open>
  C17. A flush that starts while the consumer task waits persists everything. From every such reachable
  state \<open>ForceFlush\<close> can run, also when further segments arrive while it serializes. The next iteration
  of the consumer, whether or not its persist interval has passed and however little was written, leaves
  a persistent log file with exactly the records that were handed over, has called the callbacks of all
  of their commits, and lets \<open>ForceFlush\<close> return.
\<close>

theorem flush_persists_everything:
  assumes "0 < n" and "run (log_step (SerializeRecord vm layout_of)) (log_init n threshold base tm) es s"
    and "\<not> written s" and "\<not> forcing s"
    and "[] \<notin> set arrivals" and "lm_flush_queue (manager s) = [] \<longrightarrow> arrivals = []"
  defines "records \<equiv> handed es @ concat (concat arrivals)"
  shows "(\<exists>s'. run (log_step (SerializeRecord vm layout_of)) s [FlushRequested arrivals, Written, PersistChecked] s')
    \<and> (\<forall>s'. run (log_step (SerializeRecord vm layout_of)) s [FlushRequested arrivals, Written, PersistChecked] s' \<longrightarrow>
         log_file (manager s') = base @ log_bytes (SerializeRecord vm layout_of) records
         \<and> persisted (manager s') = length (log_file (manager s'))
         \<and> invoked (manager s') = commits records
         \<and> log_step (SerializeRecord vm layout_of) s' FlushReturned (s'\<lparr>forcing := False\<rparr>))"
proof -
  have ok: "system_ok (SerializeRecord vm layout_of) base (handed es) s"
    using log_run_ok [OF assms(2) log_init_ok [OF assms(1)]] by simp
  note F = flush_run [OF ok assms(3-6), folded records_def]
  show ?thesis using F(1) F(2) by blast
qed

text \<open>Writing values that fit into the current buffer.\<close>

lemma write_values_fit:
  assumes "filled_buffer lm = Some (b, w)" and "length (write_buffer w) + length (concat vs) < LOG_BUFFER_SIZE"
  shows "write_values timeout vs lm = Some (lm\<lparr>filled_buffer := Some (b, w\<lparr>write_buffer := write_buffer w @ concat vs\<rparr>)\<rparr>)"
  using assms
proof (induction vs arbitrary: lm w)
  case (Cons v vs)
  let ?w = "w\<lparr>write_buffer := write_buffer w @ v\<rparr>"
  have "BufferWrite w v = (length v, ?w)" using Cons.prems(2) by (simp add: BufferWrite_def CanBuffer_def)
  moreover have "\<not> IsBufferFull ?w" using Cons.prems(2) by (simp add: IsBufferFull_def)
  ultimately have "WriteValue timeout v lm = Some (lm\<lparr>filled_buffer := Some (b, ?w)\<rparr>)"
    using Cons.prems(1)
    by (cases "v = []") (simp_all add: WriteValue_def GetCurrentWriteBuffer_def WriteValue_loop.simps [of timeout v] WriteValue_loop.simps [of timeout "[]"])
  then show ?case
    using Cons.IH [of "lm\<lparr>filled_buffer := Some (b, ?w)\<rparr>" ?w] Cons.prems(2) by simp
qed simp

text \<open>
  C28. \<open>ForceFlush\<close> may return before its records are persistent. When a client hands over a commit
  record and calls \<open>ForceFlush\<close> while the consumer task stands between writing the filled buffers and
  persisting the file, the persist of that iteration clears \<open>do_persist\<close>, and \<open>ForceFlush\<close> returns
  with nothing in the log file and the callback not called.
\<close>

theorem force_flush_returns_early:
  fixes t c a :: timestamp
  defines "r \<equiv> \<lparr>log_txn_begin = t, log_body = CommitRecord c a False\<rparr>"
  shows "\<exists>s. run (log_step (SerializeRecord vm layout_of)) (log_init (Suc n) threshold [] tm)
      [Handed [r], Written, FlushRequested [], PersistChecked, FlushReturned] s
    \<and> log_file (manager s) = [] \<and> invoked (manager s) = [] \<and> log_bytes (SerializeRecord vm layout_of) [r] \<noteq> []"
proof -
  let ?ser = "SerializeRecord vm layout_of"
  define s0 where "s0 = log_init (Suc n) threshold [] tm"
  define s1 where "s1 = s0\<lparr>manager := AddBufferToFlushQueue [r] (manager s0)\<rparr>"
  define s2 where "s2 = s1\<lparr>manager := WriteBuffersToLogFile (manager s1), written := True\<rparr>"
  have len: "length (concat (?ser r)) < LOG_BUFFER_SIZE" "concat (?ser r) \<noteq> []"
    by (simp_all add: r_def SerializeRecord_def LOG_BUFFER_SIZE_def)
  have m2: "manager s2 = (LogManager_Start (Suc n) threshold [])\<lparr>lm_flush_queue := [[r]]\<rparr>"
    by (simp add: s2_def s1_def s0_def log_init_def AddBufferToFlushQueue_def WriteBuffersToLogFile_eq LogManager_Start_def
        queue_bytes_def map_filter_simps)
  let ?w = "\<lparr>write_buffer = concat (?ser r)\<rparr>"
  define lm where "lm = (LogManager_Start (Suc n) threshold [])\<lparr>empty_buffer_queue := [1..<Suc n], filled_buffer_queue := [(Some (0, ?w), [t])]\<rparr>"
  let ?m = "LogManager_Start (Suc n) threshold []"
  let ?m1 = "?m\<lparr>filled_buffer := Some (0, \<lparr>write_buffer = []\<rparr>), empty_buffer_queue := [1..<Suc n]\<rparr>"
  have g: "GetCurrentWriteBuffer False ?m = Some ?m1"
    by (simp add: GetCurrentWriteBuffer_def LogManager_Start_def upt_conv_Cons)
  have "write_values False (?ser r) ?m = write_values False (?ser r) ?m1"
    using g by (simp add: SerializeRecord_def WriteValue_def) (simp add: GetCurrentWriteBuffer_def)
  also have "\<dots> = Some (?m1\<lparr>filled_buffer := Some (0, ?w)\<rparr>)"
    using write_values_fit [of ?m1 0 "\<lparr>write_buffer = []\<rparr>" "?ser r" False] len(1) by simp
  finally have P: "LogSerializerTask_Process ?ser False [] (manager s2, timestamps s2) = Some (True, lm, RemoveTransactions [t] tm)"
    by (simp add: m2 LogSerializerTask_Process_def process_loop.simps serialize_one_def r_def)
      (simp add: HandFilledBufferToWriter_def lm_def LogManager_Start_def r_def s2_def s1_def s0_def log_init_def)
  define s3 where "s3 = s2\<lparr>manager := lm\<lparr>do_persist := True\<rparr>, timestamps := RemoveTransactions [t] tm, forcing := True\<rparr>"
  define s4 where "s4 = s3\<lparr>manager := persist_if_due False (manager s3), written := False\<rparr>"
  have e4: "log_file (manager s4) = []" "invoked (manager s4) = []" "\<not> do_persist (manager s4)" "forcing s4"
    by (simp_all add: s4_def s3_def persist_if_due_def PersistLogFile_def lm_def LogManager_Start_def)
  have "log_step ?ser s0 (Handed [r]) s1" unfolding s1_def by (rule log_hand)
  moreover have "log_step ?ser s1 Written s2" unfolding s2_def by (rule log_write) (simp add: s1_def s0_def log_init_def)
  moreover have "log_step ?ser s2 (FlushRequested []) s3"
    unfolding s3_def by (rule log_force [OF _ _ _ P]) (simp_all add: s2_def s1_def s0_def log_init_def)
  moreover have "log_step ?ser s3 PersistChecked s4" unfolding s4_def by (rule log_persist) (simp add: s3_def s2_def)
  moreover have "log_step ?ser s4 FlushReturned (s4\<lparr>forcing := False\<rparr>)" by (rule log_force_return) (use e4 in simp_all)
  ultimately have "run (log_step ?ser) s0 [Handed [r], Written, FlushRequested [], PersistChecked, FlushReturned] (s4\<lparr>forcing := False\<rparr>)"
    by (meson run.intros)
  moreover have "log_bytes ?ser [r] \<noteq> []" using len(2) by (simp add: read_only_commit_def r_def)
  ultimately show ?thesis using e4(1,2) unfolding s0_def by (intro exI [of _ "s4\<lparr>forcing := False\<rparr>"]) simp
qed


text \<open>A run in which a segment with a commit record is handed over.\<close>

lemma example_log_run:
  fixes t c a :: timestamp
  defines "r \<equiv> \<lparr>log_txn_begin = t, log_body = CommitRecord c a False\<rparr>"
  shows "run (log_step (SerializeRecord vm layout_of)) (log_init 1 threshold base tm) [Handed [r]]
    ((log_init 1 threshold base tm)\<lparr>manager := AddBufferToFlushQueue [r] (manager (log_init 1 threshold base tm))\<rparr>)"
  by (rule run_cons, rule log_hand, rule run_nil)

theorem callbacks_after_persist_witness:
  "\<exists>s a. run (log_step (SerializeRecord (\<lambda>_. 0) (\<lambda>_. make_BlockLayout [8]))) (log_init 1 0 [] init_TimestampManager)
      [Handed [\<lparr>log_txn_begin = 5, log_body = CommitRecord 6 5 False\<rparr>], FlushRequested [], Written, PersistChecked] s
    \<and> invoked (manager s) = [5] \<and> invoked (manager s) = commits a
    \<and> prefix (log_bytes (SerializeRecord (\<lambda>_. 0) (\<lambda>_. make_BlockLayout [8])) a) (take (persisted (manager s)) (log_file (manager s)))"
proof -
  let ?r = "\<lparr>log_txn_begin = 5, log_body = CommitRecord 6 5 False\<rparr>" and ?ser = "SerializeRecord (\<lambda>_. 0) (\<lambda>_. make_BlockLayout [8])"
  let ?s0 = "log_init 1 0 [] init_TimestampManager"
  let ?s1 = "?s0\<lparr>manager := AddBufferToFlushQueue [?r] (manager ?s0)\<rparr>"
  note R = example_log_run [of "\<lambda>_. 0" "\<lambda>_. make_BlockLayout [8]" 0 "[]" init_TimestampManager 5 6 5]
  have h: "handed [Handed [?r]] = [?r]" by (simp add: handed_def)
  have ok: "system_ok ?ser [] [?r] ?s1" using log_run_ok [OF R log_init_ok [OF zero_less_one]] by (simp add: h)
  have w: "\<not> written ?s1" "\<not> forcing ?s1" "[] \<notin> set ([] :: LogRecord list list list)"
      "lm_flush_queue (manager ?s1) = [] \<longrightarrow> [] = ([] :: LogRecord list list list)"
    by (simp_all add: log_init_def)
  obtain s where s: "run (log_step ?ser) ?s1 [FlushRequested [], Written, PersistChecked] s" using flush_run(1) [OF ok w] by blast
  have "invoked (manager s) = [5]" using flush_run(2) [OF ok w s] by (simp add: is_commit_def commits_def)
  moreover have r: "run (log_step ?ser) ?s0 [Handed [?r], FlushRequested [], Written, PersistChecked] s"
    using run_cons [OF log_hand s] by simp
  ultimately show ?thesis using callbacks_after_persist [OF zero_less_one r] by (metis append_Nil)
qed

theorem flush_persists_everything_witness:
  "\<exists>s s'. run (log_step (SerializeRecord (\<lambda>_. 0) (\<lambda>_. make_BlockLayout [8]))) (log_init 1 1000 [] init_TimestampManager)
      [Handed [\<lparr>log_txn_begin = 5, log_body = CommitRecord 6 5 False\<rparr>]] s
    \<and> run (log_step (SerializeRecord (\<lambda>_. 0) (\<lambda>_. make_BlockLayout [8]))) s [FlushRequested [], Written, PersistChecked] s'
    \<and> invoked (manager s') = [5] \<and> persisted (manager s') = length (log_file (manager s'))"
proof -
  let ?s0 = "log_init 1 1000 [] init_TimestampManager"
  note R = example_log_run [of "\<lambda>_. 0" "\<lambda>_. make_BlockLayout [8]" 1000 "[]" init_TimestampManager 5 6 5]
  have w: "\<not> written (?s0\<lparr>manager := x\<rparr>)" "\<not> forcing (?s0\<lparr>manager := x\<rparr>)" "[] \<notin> set ([] :: LogRecord list list list)"
      "lm_flush_queue (manager (?s0\<lparr>manager := x\<rparr>)) = [] \<longrightarrow> [] = ([] :: LogRecord list list list)" for x
    by (simp_all add: log_init_def)
  have c: "commits (handed [Handed [\<lparr>log_txn_begin = 5, log_body = CommitRecord 6 5 False\<rparr>]] @ concat (concat [])) = [5]"
    by (simp add: handed_def commits_def is_commit_def)
  show ?thesis using flush_persists_everything [OF zero_less_one R w] R unfolding c by blast
qed

end
