(* ===== verification/Recovery.thy ===== *)
theory Recovery
  imports LogSerialization "HOL-Library.AList" "HOL-Library.Multiset"
begin

text \<open>
  \<^verbatim>\<open>storage/recovery/recovery_manager.{h,cpp}\<close>: reading the log, buffering the changes of each
  transaction until its commit record, and replaying transactions in the order they began. What one
  record does to the tables, the indexes and the catalog is a parameter. The results: recovery from a
  log file that the log manager wrote replays exactly the committed transactions, each once and
  with all its changes, ordered by start time; and every record that is read is released once.
\<close>

section \<open>Replaying a transaction\<close>

text \<open>
  The calls into the rest of the system, on a state \<open>'db\<close> that holds the tables, the catalog and
  \<open>tuple_slot_map_\<close>: \<open>BeginTransaction\<close>, \<open>IsSpecialCaseCatalogRecord\<close>,
  \<open>ProcessSpecialCaseCatalogRecord\<close> with the number of extra records it processes, \<open>ReplayRedoRecord\<close>,
  \<open>ReplayDeleteRecord\<close> and \<open>Commit\<close>.
\<close>

record ('t, 'db) replay_calls =
  call_begin :: "'db \<Rightarrow> 't \<times> 'db"
  is_special :: "LogRecord \<Rightarrow> 'db \<Rightarrow> bool"
  call_special :: "'t \<Rightarrow> LogRecord list \<Rightarrow> nat \<Rightarrow> 'db \<Rightarrow> nat \<times> 'db"
  call_redo :: "'t \<Rightarrow> LogRecord \<Rightarrow> 'db \<Rightarrow> 'db"
  call_delete :: "'t \<Rightarrow> LogRecord \<Rightarrow> 'db \<Rightarrow> 'db"
  call_commit :: "'t \<Rightarrow> 'db \<Rightarrow> 'db"

function replay_changes :: "('t, 'db) replay_calls \<Rightarrow> 't \<Rightarrow> LogRecord list \<Rightarrow> nat \<Rightarrow> 'db \<Rightarrow> 'db" where
  "replay_changes calls txn changes idx db =
     (if idx < length changes then
        let buffered_record = changes ! idx
        in if is_special calls buffered_record db then
             let (extra, db1) = call_special calls txn changes idx db
             in replay_changes calls txn changes (idx + extra + 1) db1
           else if RecordType (log_body buffered_record) = 1 then
             replay_changes calls txn changes (idx + 1) (call_redo calls txn buffered_record db)
           else replay_changes calls txn changes (idx + 1) (call_delete calls txn buffered_record db)
      else db)"
  by pat_completeness auto
termination by (relation "measure (\<lambda>(calls, txn, changes, idx, db). length changes - idx)") auto

declare replay_changes.simps [simp del]

text \<open>
  What the changes of a transaction should do, as a recursion over the records that are left: \<open>before\<close>
  are the records that were applied, and a special case takes the records that it processed with it.
\<close>

function apply_changes :: "('t, 'db) replay_calls \<Rightarrow> 't \<Rightarrow> LogRecord list \<Rightarrow> LogRecord list \<Rightarrow> 'db \<Rightarrow> 'db" where
  "apply_changes calls txn before [] db = db"
| "apply_changes calls txn before (r # rs) db =
     (if is_special calls r db then
        (case call_special calls txn (before @ r # rs) (length before) db of
           (extra, db') \<Rightarrow> apply_changes calls txn (before @ r # take extra rs) (drop extra rs) db')
      else apply_changes calls txn (before @ [r]) rs
             (case log_body r of RedoRecord _ _ _ _ \<Rightarrow> call_redo calls txn r db | _ \<Rightarrow> call_delete calls txn r db))"
  by pat_completeness auto
termination by (relation "measure (\<lambda>(calls, txn, before, rest, db). length rest)") auto

definition replay_txn :: "('t, 'db) replay_calls \<Rightarrow> LogRecord list \<Rightarrow> 'db \<Rightarrow> 'db" where
  "replay_txn calls changes db =
     (case call_begin calls db of (txn, db') \<Rightarrow> call_commit calls txn (apply_changes calls txn [] changes db'))"

lemma replay_changes_apply:
  "replay_changes calls txn (before @ rest) (length before) db = apply_changes calls txn before rest db"
proof (induction calls txn before rest db rule: apply_changes.induct)
  case (1 calls txn before db)
  then show ?case by (simp add: replay_changes.simps)
next
  case (2 calls txn before r rs db)
  show ?case
  proof (cases "is_special calls r db")
    case True
    obtain extra db' where e: "call_special calls txn (before @ r # rs) (length before) db = (extra, db')" by fastforce
    have "replay_changes calls txn (before @ r # rs) (length before + extra + 1) db' =
        apply_changes calls txn (before @ r # take extra rs) (drop extra rs) db'"
    proof (cases "extra \<le> length rs")
      case False
      then show ?thesis by (simp add: replay_changes.simps)
    next
      case le: True
      then show ?thesis using 2(1) [OF True e [symmetric]] by (simp add: min.absorb2)
    qed
    then show ?thesis using True e by (simp add: replay_changes.simps [of _ _ _ "length before"])
  next
    case False
    have "RecordType (log_body r) = 1 \<longleftrightarrow> (\<exists>d tb sl row. log_body r = RedoRecord d tb sl row)" by (cases "log_body r") auto
    then show ?thesis using False 2(2) [OF False]
      by (cases "log_body r") (simp_all add: replay_changes.simps [of _ _ _ "length before"])
  qed
qed

section \<open>The recovery manager\<close>

text \<open>
  A buffered change is a record and the varlen buffers that were allocated for it. \<open>deferred_txns\<close> is
  the ordered set, \<open>buffered_changes_map\<close> the hash map in some order, and \<open>deferred_deletes\<close> the deferred
  actions that were registered: the records to delete, and whether their varlens are deleted too.
\<close>

type_synonym change = "LogRecord \<times> u64 list"

record 'db RecoveryManager =
  recovered :: 'db
  deferred_txns :: "timestamp list"
  buffered_changes_map :: "(timestamp \<times> change list) list"
  recovered_txns :: u32
  deferred_deletes :: "(change list \<times> bool) list"

definition new_RecoveryManager :: "'db \<Rightarrow> 'db RecoveryManager" where
  "new_RecoveryManager db =
     \<lparr>recovered = db, deferred_txns = [], buffered_changes_map = [], recovered_txns = 0, deferred_deletes = []\<rparr>"

definition changes_of :: "(timestamp \<times> change list) list \<Rightarrow> timestamp \<Rightarrow> change list" where
  "changes_of m t = (case map_of m t of None \<Rightarrow> [] | Some cs \<Rightarrow> cs)"

text \<open>\<open>DeferRecordDeletes\<close> moves the changes out of the map and leaves an empty entry.\<close>

definition DeferRecordDeletes :: "timestamp \<Rightarrow> bool \<Rightarrow> 'db RecoveryManager \<Rightarrow> 'db RecoveryManager" where
  "DeferRecordDeletes begin_ts delete_varlens rm =
     rm\<lparr>deferred_deletes := deferred_deletes rm @ [(changes_of (buffered_changes_map rm) begin_ts, delete_varlens)],
        buffered_changes_map := AList.update begin_ts [] (buffered_changes_map rm)\<rparr>"

definition erase_changes :: "timestamp \<Rightarrow> 'db RecoveryManager \<Rightarrow> 'db RecoveryManager" where
  "erase_changes begin_ts rm = rm\<lparr>buffered_changes_map := AList.delete begin_ts (buffered_changes_map rm)\<rparr>"

definition delete_log_record :: "LogRecord \<Rightarrow> 'db RecoveryManager \<Rightarrow> 'db RecoveryManager" where
  "delete_log_record r rm = rm\<lparr>deferred_deletes := deferred_deletes rm @ [([(r, [])], False)]\<rparr>"

definition ProcessCommittedTransaction ::
  "('t, 'db) replay_calls \<Rightarrow> timestamp \<Rightarrow> 'db RecoveryManager \<Rightarrow> 'db RecoveryManager" where
  "ProcessCommittedTransaction calls begin_ts rm =
     (let (txn, db1) = call_begin calls (recovered rm);
          db2 = replay_changes calls txn (map fst (changes_of (buffered_changes_map rm) begin_ts)) 0 db1;
          rm1 = erase_changes begin_ts (DeferRecordDeletes begin_ts False (rm\<lparr>recovered := db2\<rparr>))
      in rm1\<lparr>recovered := call_commit calls txn (recovered rm1)\<rparr>)"

definition INT64_MAX :: u64 where
  "INT64_MAX = 2 ^ 63 - 1"

definition ProcessDeferredTransactions ::
  "('t, 'db) replay_calls \<Rightarrow> timestamp \<Rightarrow> 'db RecoveryManager \<Rightarrow> u32 \<times> 'db RecoveryManager" where
  "ProcessDeferredTransactions calls upper_bound_ts rm =
     (let upper_bound_ts = (if upper_bound_ts = INVALID_TXN_TIMESTAMP then INT64_MAX else upper_bound_ts);
          txns = takeWhile (\<lambda>t. t \<le> upper_bound_ts) (deferred_txns rm);
          rm1 = fold (ProcessCommittedTransaction calls) txns rm
      in (of_nat (length txns), rm1\<lparr>deferred_txns := dropWhile (\<lambda>t. t \<le> upper_bound_ts) (deferred_txns rm1)\<rparr>))"

section \<open>RecoverFromLogs\<close>

text \<open>The body of the loop, what follows the loop, and the loop, which ends with an error of the provider.\<close>

definition process_record :: "('t, 'db) replay_calls \<Rightarrow> change \<Rightarrow> 'db RecoveryManager \<Rightarrow> 'db RecoveryManager" where
  "process_record calls pair rm =
     (let r = fst pair in
      case log_body r of
        AbortRecord \<Rightarrow>
          delete_log_record r (erase_changes (log_txn_begin r) (DeferRecordDeletes (log_txn_begin r) True rm))
      | CommitRecord _ oldest_active_txn _ \<Rightarrow>
          (let rm1 = rm\<lparr>deferred_txns := insort_insert (log_txn_begin r) (deferred_txns rm)\<rparr>;
               (n, rm2) = ProcessDeferredTransactions calls oldest_active_txn rm1
           in delete_log_record r (rm2\<lparr>recovered_txns := recovered_txns rm2 + n\<rparr>))
      | _ \<Rightarrow>
          rm\<lparr>buffered_changes_map := AList.update (log_txn_begin r)
               (changes_of (buffered_changes_map rm) (log_txn_begin r) @ [pair]) (buffered_changes_map rm)\<rparr>)"

definition finish_recovery :: "('t, 'db) replay_calls \<Rightarrow> 'db RecoveryManager \<Rightarrow> 'db RecoveryManager" where
  "finish_recovery calls rm =
     (let (n, rm1) = ProcessDeferredTransactions calls INVALID_TXN_TIMESTAMP rm;
          rm2 = fold (\<lambda>t. DeferRecordDeletes t True) (map fst (buffered_changes_map rm1)) rm1
      in rm2\<lparr>buffered_changes_map := []\<rparr>)"

text \<open>
  \<open>next_record\<close> is \<open>GetNextRecord\<close> with the memory that it allocates from. \<open>None\<close> is a loop that does
  not end.
\<close>

partial_function (option) RecoverFromLogs ::
  "('p \<Rightarrow> 'e + (change \<times> 'p) option) \<Rightarrow> ('t, 'db) replay_calls \<Rightarrow> 'p \<Rightarrow> 'db RecoveryManager
     \<Rightarrow> ('e + 'db RecoveryManager) option" where
  "RecoverFromLogs next_record calls p rm =
     (case next_record p of
        Inl e \<Rightarrow> Some (Inl e)
      | Inr None \<Rightarrow> Some (Inr (finish_recovery calls rm))
      | Inr (Some (pair, p')) \<Rightarrow> RecoverFromLogs next_record calls p' (process_record calls pair rm))"

text \<open>A provider that returns records and then the end of the log.\<close>

inductive reads_log :: "('p \<Rightarrow> 'e + (change \<times> 'p) option) \<Rightarrow> 'p \<Rightarrow> change list \<Rightarrow> bool" for next_record where
  reads_end: "next_record p = Inr None \<Longrightarrow> reads_log next_record p []"
| reads_next: "next_record p = Inr (Some (pair, p')) \<Longrightarrow> reads_log next_record p' rs \<Longrightarrow> reads_log next_record p (pair # rs)"

definition recover :: "('t, 'db) replay_calls \<Rightarrow> change list \<Rightarrow> 'db RecoveryManager \<Rightarrow> 'db RecoveryManager" where
  "recover calls rs rm = finish_recovery calls (fold (process_record calls) rs rm)"

lemma RecoverFromLogs_records:
  "reads_log next_record p rs \<Longrightarrow> RecoverFromLogs next_record calls p rm = Some (Inr (recover calls rs rm))"
  by (induction arbitrary: rm rule: reads_log.induct) (simp_all add: RecoverFromLogs.simps recover_def)

section \<open>Every record is released once\<close>

definition all_changes :: "(timestamp \<times> change list) list \<Rightarrow> change multiset" where
  "all_changes m = mset (concat (map snd m))"

lemma changes_of_update [simp]: "changes_of (AList.update k cs m) t = (if t = k then cs else changes_of m t)"
  by (simp add: changes_of_def update_conv')

lemma changes_of_delete [simp]: "changes_of (AList.delete k m) t = (if t = k then [] else changes_of m t)"
  by (simp add: changes_of_def delete_conv')

lemma all_changes_delete:
  "distinct (map fst m) \<Longrightarrow> all_changes m = mset (changes_of m k) + all_changes (AList.delete k m)"
proof (induction m)
  case (Cons x m)
  show ?case
  proof (cases "fst x = k")
    case True
    then have "AList.delete k (x # m) = m" using Cons.prems by (auto simp: AList.delete_eq filter_id_conv rev_image_eqI)
    then show ?thesis using True by (cases x) (simp add: all_changes_def changes_of_def)
  next
    case False
    then show ?thesis using Cons by (cases x) (simp add: all_changes_def changes_of_def AList.delete_eq)
  qed
qed (simp add: all_changes_def changes_of_def)

lemma all_changes_update:
  assumes "distinct (map fst m)"
  shows "all_changes (AList.update k cs m) = mset cs + all_changes (AList.delete k m)"
  using all_changes_delete [OF distinct_update [OF assms], of k cs k] by (simp add: delete_update_same)

text \<open>The records that recovery holds or has released, and the map has one entry for each key.\<close>

definition held :: "'db RecoveryManager \<Rightarrow> change multiset" where
  "held rm = all_changes (buffered_changes_map rm) + mset (concat (map fst (deferred_deletes rm)))"

abbreviation one_entry :: "'db RecoveryManager \<Rightarrow> bool" where
  "one_entry rm \<equiv> distinct (map fst (buffered_changes_map rm))"

lemma DeferRecordDeletes_held:
  assumes "one_entry rm"
  shows "held (DeferRecordDeletes t v rm) = held rm" "one_entry (DeferRecordDeletes t v rm)"
  using assms all_changes_delete [OF assms, of t]
  by (simp_all add: held_def DeferRecordDeletes_def all_changes_update distinct_update)

lemma erase_changes_held:
  assumes "one_entry rm" and "changes_of (buffered_changes_map rm) t = []"
  shows "held (erase_changes t rm) = held rm" "one_entry (erase_changes t rm)"
  using assms all_changes_delete [OF assms(1), of t] by (simp_all add: held_def erase_changes_def distinct_delete)

lemma Defer_erase_held:
  assumes "one_entry rm"
  shows "held (erase_changes t (DeferRecordDeletes t v rm)) = held rm" "one_entry (erase_changes t (DeferRecordDeletes t v rm))"
  using erase_changes_held [OF DeferRecordDeletes_held(2) [OF assms, of t v], of t] DeferRecordDeletes_held(1) [OF assms]
  by (simp_all add: DeferRecordDeletes_def)

lemma held_frame [simp]:
  "held (rm\<lparr>recovered := db\<rparr>) = held rm" "held (rm\<lparr>deferred_txns := ts\<rparr>) = held rm" "held (rm\<lparr>recovered_txns := n\<rparr>) = held rm"
  by (simp_all add: held_def)

lemma Process_held:
  assumes "one_entry rm"
  shows "held (ProcessCommittedTransaction calls t rm) = held rm \<and> one_entry (ProcessCommittedTransaction calls t rm)"
  using Defer_erase_held [of "rm\<lparr>recovered := db\<rparr>" t False for db] assms
  by (simp add: ProcessCommittedTransaction_def Let_def case_prod_unfold)

lemma fold_held:
  "one_entry rm \<Longrightarrow> (\<And>x rm. one_entry rm \<Longrightarrow> held (f x rm) = held rm \<and> one_entry (f x rm)) \<Longrightarrow>
     held (fold f xs rm) = held rm \<and> one_entry (fold f xs rm)"
  by (induction xs arbitrary: rm) simp_all

lemma Deferred_held:
  assumes "one_entry rm"
  shows "held (snd (ProcessDeferredTransactions calls ub rm)) = held rm \<and> one_entry (snd (ProcessDeferredTransactions calls ub rm))"
  using fold_held [OF assms, of "ProcessCommittedTransaction calls"] Process_held [of _ calls]
  by (simp add: ProcessDeferredTransactions_def Let_def)

lemma process_record_held:
  assumes "one_entry rm" and "snd pair = [] \<or> (\<exists>d tb s row. log_body (fst pair) = RedoRecord d tb s row)"
  shows "held (process_record calls pair rm) = held rm + {#pair#} \<and> one_entry (process_record calls pair rm)"
proof (cases "log_body (fst pair)")
  case (CommitRecord c oldest ro)
  let ?rm = "rm\<lparr>deferred_txns := insort_insert (log_txn_begin (fst pair)) (deferred_txns rm)\<rparr>"
  have "held (snd (ProcessDeferredTransactions calls oldest ?rm)) = held rm \<and> one_entry (snd (ProcessDeferredTransactions calls oldest ?rm))"
    using Deferred_held [of ?rm calls oldest] assms(1) by simp
  moreover have "pair = (fst pair, [])" using assms(2) CommitRecord by (simp add: prod_eq_iff)
  ultimately show ?thesis
    by (simp add: process_record_def CommitRecord Let_def case_prod_unfold delete_log_record_def held_def)
next
  case AbortRecord
  have "pair = (fst pair, [])" using assms(2) AbortRecord by (simp add: prod_eq_iff)
  then show ?thesis
    using Defer_erase_held [OF assms(1), of "log_txn_begin (fst pair)" True]
    by (simp add: process_record_def AbortRecord Let_def delete_log_record_def held_def)
qed (use assms(1) all_changes_delete [OF assms(1), of "log_txn_begin (fst pair)"] in
    \<open>simp_all add: process_record_def Let_def held_def all_changes_update distinct_update\<close>)

lemma Defer_fold:
  "set (map fst (buffered_changes_map (fold (\<lambda>t. DeferRecordDeletes t v) ts rm))) = set ts \<union> set (map fst (buffered_changes_map rm))
   \<and> (\<forall>t. changes_of (buffered_changes_map (fold (\<lambda>t. DeferRecordDeletes t v) ts rm)) t =
        (if t \<in> set ts then [] else changes_of (buffered_changes_map rm) t))"
  by (induction ts arbitrary: rm) (auto simp: DeferRecordDeletes_def dom_update)

lemma finish_held:
  assumes "one_entry rm"
  shows "mset (concat (map fst (deferred_deletes (finish_recovery calls rm)))) = held rm"
proof -
  let ?rm = "snd (ProcessDeferredTransactions calls INVALID_TXN_TIMESTAMP rm)"
  let ?keys = "map fst (buffered_changes_map ?rm)"
  let ?last = "fold (\<lambda>t. DeferRecordDeletes t True) ?keys ?rm"
  have P: "held ?rm = held rm" "one_entry ?rm" using Deferred_held [OF assms] by blast+
  have E: "held ?last = held ?rm \<and> one_entry ?last"
    by (rule fold_held [OF P(2)]) (simp add: DeferRecordDeletes_held)
  have empty: "cs = []" if "(t, cs) \<in> set (buffered_changes_map ?last)" for t cs
  proof -
    have "map_of (buffered_changes_map ?last) t = Some cs" using that E by simp
    then have "changes_of (buffered_changes_map ?last) t = cs" by (simp add: changes_of_def)
    moreover have "t \<in> set ?keys" using that Defer_fold [of True ?keys ?rm] by force
    ultimately show ?thesis using Defer_fold [of True ?keys ?rm] by simp
  qed
  have "all_changes (buffered_changes_map ?last) = {#}" using empty by (auto simp: all_changes_def)
  then show ?thesis using E P(1) by (simp add: finish_recovery_def Let_def case_prod_unfold held_def)
qed

lemma recover_held:
  assumes "\<forall>c \<in> set rs. snd c = [] \<or> (\<exists>d tb s row. log_body (fst c) = RedoRecord d tb s row)"
  shows "mset (concat (map fst (deferred_deletes (recover calls rs (new_RecoveryManager db))))) = mset rs"
proof -
  have "held (fold (process_record calls) rs rm) = held rm + mset rs \<and> one_entry (fold (process_record calls) rs rm)" if "one_entry rm" for rm
    using assms that
  proof (induction rs arbitrary: rm)
    case (Cons c rs)
    then have "held (process_record calls c rm) = held rm + {#c#} \<and> one_entry (process_record calls c rm)"
      by (intro process_record_held) simp_all
    then show ?case using Cons by simp
  qed simp
  moreover have "held (new_RecoveryManager db) = {#} \<and> one_entry (new_RecoveryManager db)"
    by (simp add: new_RecoveryManager_def held_def all_changes_def)
  ultimately show ?thesis using finish_held [of "fold (process_record calls) rs (new_RecoveryManager db)" calls] by (simp add: recover_def)
qed

section \<open>Transactions are replayed in the order they began\<close>

fun is_commit :: "LogRecordBody \<Rightarrow> bool" where
  "is_commit (CommitRecord _ _ _) = True"
| "is_commit _ = False"

fun is_change :: "LogRecordBody \<Rightarrow> bool" where
  "is_change (RedoRecord _ _ _ _) = True"
| "is_change (DeleteRecord _ _ _) = True"
| "is_change _ = False"

definition committed_txns :: "change list \<Rightarrow> timestamp list" where
  "committed_txns rs = map (log_txn_begin \<circ> fst) (filter (is_commit \<circ> log_body \<circ> fst) rs)"

definition logged_changes :: "change list \<Rightarrow> timestamp \<Rightarrow> change list" where
  "logged_changes rs t = filter (\<lambda>p. log_txn_begin (fst p) = t \<and> is_change (log_body (fst p))) rs"

text \<open>
  The logs that the engine writes. A transaction logs nothing after its commit or abort record. The
  oldest active transaction in a commit record is not newer than any transaction whose commit record
  comes later, because a transaction counts as active until its commit record is serialized.
\<close>

definition replay_bound :: "timestamp \<Rightarrow> timestamp" where
  "replay_bound oldest = (if oldest = INVALID_TXN_TIMESTAMP then INT64_MAX else oldest)"

fun log_ok :: "LogRecord list \<Rightarrow> bool" where
  "log_ok [] = True"
| "log_ok (r # rs) =
     (log_ok rs \<and>
      (case log_body r of
         CommitRecord _ oldest _ \<Rightarrow>
           log_txn_begin r \<le> INT64_MAX \<and> (\<forall>r' \<in> set rs. log_txn_begin r' \<noteq> log_txn_begin r)
           \<and> (\<forall>r' \<in> set rs. is_commit (log_body r') \<longrightarrow> replay_bound oldest \<le> log_txn_begin r')
       | AbortRecord \<Rightarrow> \<forall>r' \<in> set rs. log_txn_begin r' \<noteq> log_txn_begin r
       | _ \<Rightarrow> True))"

lemma Process_effect:
  "recovered (ProcessCommittedTransaction calls t rm) = replay_txn calls (map fst (changes_of (buffered_changes_map rm) t)) (recovered rm)"
  "changes_of (buffered_changes_map (ProcessCommittedTransaction calls t rm)) u = (if u = t then [] else changes_of (buffered_changes_map rm) u)"
  "deferred_txns (ProcessCommittedTransaction calls t rm) = deferred_txns rm"
  "deferred_deletes (ProcessCommittedTransaction calls t rm) = deferred_deletes rm @ [(changes_of (buffered_changes_map rm) t, False)]"
  by (simp_all add: ProcessCommittedTransaction_def replay_txn_def replay_changes_apply [of _ _ "[]", simplified] erase_changes_def DeferRecordDeletes_def Let_def case_prod_unfold)

lemma Process_fold:
  "distinct ts \<Longrightarrow> recovered (fold (ProcessCommittedTransaction calls) ts rm) =
     fold (\<lambda>t. replay_txn calls (map fst (changes_of (buffered_changes_map rm) t))) ts (recovered rm)
   \<and> (\<forall>u. changes_of (buffered_changes_map (fold (ProcessCommittedTransaction calls) ts rm)) u =
        (if u \<in> set ts then [] else changes_of (buffered_changes_map rm) u))
   \<and> deferred_txns (fold (ProcessCommittedTransaction calls) ts rm) = deferred_txns rm
   \<and> deferred_deletes (fold (ProcessCommittedTransaction calls) ts rm) =
       deferred_deletes rm @ map (\<lambda>t. (changes_of (buffered_changes_map rm) t, False)) ts"
proof (induction ts arbitrary: rm)
  case (Cons t ts)
  have "fold (\<lambda>u. replay_txn calls (map fst (changes_of (buffered_changes_map (ProcessCommittedTransaction calls t rm)) u))) ts db =
      fold (\<lambda>u. replay_txn calls (map fst (changes_of (buffered_changes_map rm) u))) ts db" for db
    using Cons.prems by (intro fold_cong) (auto simp: Process_effect)
  then show ?case using Cons by (auto simp: Process_effect)
qed simp

text \<open>What replaying the deferred transactions does, given that they are ordered.\<close>

lemma Deferred_effect:
  assumes "sorted (deferred_txns rm)" and "distinct (deferred_txns rm)"
  shows "\<exists>ts later. deferred_txns rm = ts @ later \<and> (\<forall>t \<in> set ts. t \<le> replay_bound ub) \<and> (\<forall>t \<in> set later. replay_bound ub < t)
    \<and> fst (ProcessDeferredTransactions calls ub rm) = of_nat (length ts)
    \<and> deferred_txns (snd (ProcessDeferredTransactions calls ub rm)) = later
    \<and> recovered (snd (ProcessDeferredTransactions calls ub rm)) =
        fold (\<lambda>t. replay_txn calls (map fst (changes_of (buffered_changes_map rm) t))) ts (recovered rm)
    \<and> (\<forall>u. changes_of (buffered_changes_map (snd (ProcessDeferredTransactions calls ub rm))) u =
        (if u \<in> set ts then [] else changes_of (buffered_changes_map rm) u))
    \<and> deferred_deletes (snd (ProcessDeferredTransactions calls ub rm)) =
        deferred_deletes rm @ map (\<lambda>t. (changes_of (buffered_changes_map rm) t, False)) ts"
proof -
  let ?ts = "takeWhile (\<lambda>t. t \<le> replay_bound ub) (deferred_txns rm)" and ?later = "dropWhile (\<lambda>t. t \<le> replay_bound ub) (deferred_txns rm)"
  have "distinct ?ts" using assms(2) by simp
  note F = Process_fold [OF this, of calls rm]
  have "replay_bound ub < t" if t: "t \<in> set ?later" for t
  proof -
    have "?later \<noteq> []" using t by (metis empty_iff empty_set)
    then have "\<not> hd ?later \<le> replay_bound ub" by (rule hd_dropWhile)
    moreover have "sorted ?later" using assms(1) by (rule sorted_dropWhile)
    then have "hd ?later \<le> t" using t by (cases ?later) auto
    ultimately show ?thesis by simp
  qed
  moreover have "\<forall>t \<in> set ?ts. t \<le> replay_bound ub" by (auto dest: set_takeWhileD)
  ultimately show ?thesis
    using F by (intro exI [of _ ?ts] exI [of _ ?later]) (simp add: ProcessDeferredTransactions_def Let_def replay_bound_def)
qed

text \<open>
  Recovery from any point on: \<open>rs\<close> are the records that are still to come, none of them of a
  transaction whose commit record was read.
\<close>

lemma committed_txns_simps [simp]:
  "committed_txns [] = []"
  "committed_txns (p # rs) = (if is_commit (log_body (fst p)) then log_txn_begin (fst p) # committed_txns rs else committed_txns rs)"
  by (simp_all add: committed_txns_def)

lemma logged_changes_simps [simp]:
  "logged_changes [] t = []"
  "logged_changes (p # rs) t = (if log_txn_begin (fst p) = t \<and> is_change (log_body (fst p)) then p # logged_changes rs t else logged_changes rs t)"
  by (simp_all add: logged_changes_def)

definition no_more :: "timestamp \<Rightarrow> change list \<Rightarrow> bool" where
  "no_more t rs \<longleftrightarrow> (\<forall>p \<in> set rs. log_txn_begin (fst p) \<noteq> t)"

lemma no_moreD: "no_more t rs \<Longrightarrow> t \<notin> set (committed_txns rs)" "no_more t rs \<Longrightarrow> logged_changes rs t = []"
  by (auto simp: no_more_def committed_txns_def logged_changes_def filter_empty_conv)

definition deferred_ok :: "timestamp list \<Rightarrow> change list \<Rightarrow> bool" where
  "deferred_ok ts rs \<longleftrightarrow> sorted ts \<and> distinct ts \<and> (\<forall>t \<in> set ts. t \<le> INT64_MAX \<and> no_more t rs)"

text \<open>One commit record: the transactions that it releases come before all others.\<close>

lemma commit_step:
  assumes "log_body (fst p) = CommitRecord c oldest ro" and "log_ok (map fst (p # rs))" and "deferred_ok (deferred_txns rm) (p # rs)"
  shows "\<exists>ts later. deferred_txns (process_record calls p rm) = later \<and> deferred_ok later rs \<and> (\<forall>t \<in> set ts. no_more t rs)
    \<and> sort (deferred_txns rm @ committed_txns (p # rs)) = ts @ sort (later @ committed_txns rs)
    \<and> set ts \<union> set later = insert (log_txn_begin (fst p)) (set (deferred_txns rm)) \<and> set ts \<inter> set later = {}
    \<and> recovered (process_record calls p rm) =
        fold (\<lambda>t. replay_txn calls (map fst (changes_of (buffered_changes_map rm) t))) ts (recovered rm)
    \<and> (\<forall>u. changes_of (buffered_changes_map (process_record calls p rm)) u =
         (if u \<in> set ts then [] else changes_of (buffered_changes_map rm) u))
    \<and> deferred_deletes (process_record calls p rm) =
        deferred_deletes rm @ map (\<lambda>t. (changes_of (buffered_changes_map rm) t, False)) ts @ [([(fst p, [])], False)]"
proof -
  let ?u = "log_txn_begin (fst p)"
  let ?rm = "rm\<lparr>deferred_txns := insort_insert ?u (deferred_txns rm)\<rparr>"
  have new: "?u \<notin> set (deferred_txns rm)" using assms(3) by (auto simp: deferred_ok_def no_more_def)
  have s: "sorted (deferred_txns rm)" "distinct (deferred_txns rm)" using assms(3) by (simp_all add: deferred_ok_def)
  have "sorted (deferred_txns ?rm)" "distinct (deferred_txns ?rm)" using s by (simp_all add: sorted_insort_insert distinct_insort_insert)
  from Deferred_effect [OF this, of oldest calls] obtain ts later where D: "insort_insert ?u (deferred_txns rm) = ts @ later"
    "\<forall>t \<in> set ts. t \<le> replay_bound oldest" 
    and E: "deferred_txns (snd (ProcessDeferredTransactions calls oldest ?rm)) = later"
      "recovered (snd (ProcessDeferredTransactions calls oldest ?rm)) =
        fold (\<lambda>t. replay_txn calls (map fst (changes_of (buffered_changes_map rm) t))) ts (recovered rm)"
      "\<forall>u. changes_of (buffered_changes_map (snd (ProcessDeferredTransactions calls oldest ?rm))) u =
        (if u \<in> set ts then [] else changes_of (buffered_changes_map rm) u)"
      "deferred_deletes (snd (ProcessDeferredTransactions calls oldest ?rm)) =
        deferred_deletes rm @ map (\<lambda>t. (changes_of (buffered_changes_map rm) t, False)) ts" by auto
  have sd: "sorted (ts @ later)" "distinct (ts @ later)" "set (ts @ later) = insert ?u (set (deferred_txns rm))"
    unfolding D(1) [symmetric] using s by (simp_all add: sorted_insort_insert distinct_insort_insert set_insort_insert)
  have nm: "t \<le> INT64_MAX \<and> no_more t rs" if "t \<in> set (ts @ later)" for t
    using that assms(1-3) unfolding sd(3) by (auto simp: deferred_ok_def no_more_def)
  have less: "t \<le> u" if t: "t \<in> set ts" and u: "u \<in> set (later @ committed_txns rs)" for t u
  proof (cases "u \<in> set later")
    case True
    then show ?thesis using sd(1) t by (simp add: sorted_append)
  next
    case False
    then obtain q where "q \<in> set rs" "is_commit (log_body (fst q))" "u = log_txn_begin (fst q)" using u by (auto simp: committed_txns_def)
    then have "replay_bound oldest \<le> u" using assms(1,2) by auto
    then show ?thesis using D(2) t by (meson order_trans)
  qed
  have "sort (deferred_txns rm @ committed_txns (p # rs)) = ts @ sort (later @ committed_txns rs)"
  proof (rule properties_for_sort)
    show "mset (ts @ sort (later @ committed_txns rs)) = mset (deferred_txns rm @ committed_txns (p # rs))"
      using arg_cong [OF D(1), of mset] new assms(1) by (simp add: insort_insert_insort)
    show "sorted (ts @ sort (later @ committed_txns rs))" using sd(1) less by (auto simp: sorted_append)
  qed
  moreover have "deferred_ok later rs" using sd(1,2) nm by (simp add: deferred_ok_def sorted_append)
  ultimately show ?thesis
    using E nm sd assms(1)
    by (intro exI [of _ ts] exI [of _ later]) (auto simp: process_record_def Let_def case_prod_unfold delete_log_record_def)
qed

text \<open>A record that is not a commit leaves the deferred transactions and their changes as they are.\<close>

lemma other_step:
  assumes "\<not> is_commit (log_body (fst p))"
  shows "recovered (process_record calls p rm) = recovered rm" "deferred_txns (process_record calls p rm) = deferred_txns rm"
    and "changes_of (buffered_changes_map (process_record calls p rm)) u =
      (if u \<noteq> log_txn_begin (fst p) then changes_of (buffered_changes_map rm) u
       else if is_change (log_body (fst p)) then changes_of (buffered_changes_map rm) u @ [p] else [])"
    and "deferred_deletes (process_record calls p rm) = deferred_deletes rm @
      (if is_change (log_body (fst p)) then [] else [(changes_of (buffered_changes_map rm) (log_txn_begin (fst p)), True), ([(fst p, [])], False)])"
  using assms
  by (cases "log_body (fst p)";
      simp add: process_record_def Let_def delete_log_record_def erase_changes_def DeferRecordDeletes_def)+

lemma Defer_fold_effect:
  "recovered (fold (\<lambda>t. DeferRecordDeletes t v) ts rm) = recovered rm \<and> deferred_txns (fold (\<lambda>t. DeferRecordDeletes t v) ts rm) = deferred_txns rm
   \<and> (\<forall>d \<in> set (deferred_deletes (fold (\<lambda>t. DeferRecordDeletes t v) ts rm)).
        d \<in> set (deferred_deletes rm) \<or> fst d = [] \<or> (\<exists>t. d = (changes_of (buffered_changes_map rm) t, v)))"
proof (induction ts arbitrary: rm)
  case (Cons t ts)
  show ?case using Cons.IH [of "DeferRecordDeletes t v rm"] by (fastforce simp: DeferRecordDeletes_def split: if_splits)
qed simp

lemma finish_effect:
  assumes "deferred_ok (deferred_txns rm) []"
  shows "recovered (finish_recovery calls rm) =
      fold (\<lambda>t. replay_txn calls (map fst (changes_of (buffered_changes_map rm) t))) (deferred_txns rm) (recovered rm)"
    and "\<forall>d \<in> set (deferred_deletes (finish_recovery calls rm)). d \<in> set (deferred_deletes rm)
      \<or> (\<exists>t. fst d = changes_of (buffered_changes_map rm) t \<and> (snd d \<longleftrightarrow> t \<notin> set (deferred_txns rm))) \<or> fst d = []"
    and "deferred_txns (finish_recovery calls rm) = [] \<and> buffered_changes_map (finish_recovery calls rm) = []"
proof -
  let ?P = "ProcessDeferredTransactions calls INVALID_TXN_TIMESTAMP rm"
  have s: "sorted (deferred_txns rm)" "distinct (deferred_txns rm)" "\<forall>t \<in> set (deferred_txns rm). t \<le> replay_bound INVALID_TXN_TIMESTAMP"
    using assms by (simp_all add: deferred_ok_def replay_bound_def)
  from Deferred_effect [OF s(1,2), of INVALID_TXN_TIMESTAMP calls] obtain ts later where
    D: "deferred_txns rm = ts @ later" "\<forall>t \<in> set later. replay_bound INVALID_TXN_TIMESTAMP < t"
    and E: "deferred_txns (snd ?P) = later"
      "recovered (snd ?P) = fold (\<lambda>t. replay_txn calls (map fst (changes_of (buffered_changes_map rm) t))) ts (recovered rm)"
      "\<forall>u. changes_of (buffered_changes_map (snd ?P)) u = (if u \<in> set ts then [] else changes_of (buffered_changes_map rm) u)"
      "deferred_deletes (snd ?P) = deferred_deletes rm @ map (\<lambda>t. (changes_of (buffered_changes_map rm) t, False)) ts" by auto
  have "t \<notin> set later" for t using s(3) D by (metis Un_iff leD set_append)
  then have "later = []" by (metis last_in_set)
  then have later: "later = []" "ts = deferred_txns rm" using D(1) by simp_all
  note F = Defer_fold_effect [of True "map fst (buffered_changes_map (snd ?P))" "snd ?P"]
  show "recovered (finish_recovery calls rm) =
      fold (\<lambda>t. replay_txn calls (map fst (changes_of (buffered_changes_map rm) t))) (deferred_txns rm) (recovered rm)"
    using F E(2) later by (simp add: finish_recovery_def Let_def case_prod_unfold)
  show "deferred_txns (finish_recovery calls rm) = [] \<and> buffered_changes_map (finish_recovery calls rm) = []"
    using F E(1) later by (simp add: finish_recovery_def Let_def case_prod_unfold)
  show "\<forall>d \<in> set (deferred_deletes (finish_recovery calls rm)). d \<in> set (deferred_deletes rm)
      \<or> (\<exists>t. fst d = changes_of (buffered_changes_map rm) t \<and> (snd d \<longleftrightarrow> t \<notin> set (deferred_txns rm))) \<or> fst d = []"
  proof
    fix d assume "d \<in> set (deferred_deletes (finish_recovery calls rm))"
    then have "d \<in> set (deferred_deletes (snd ?P)) \<or> fst d = [] \<or> (\<exists>t. d = (changes_of (buffered_changes_map (snd ?P)) t, True))"
      using F by (simp add: finish_recovery_def Let_def case_prod_unfold)
    then show "d \<in> set (deferred_deletes rm)
      \<or> (\<exists>t. fst d = changes_of (buffered_changes_map rm) t \<and> (snd d \<longleftrightarrow> t \<notin> set (deferred_txns rm))) \<or> fst d = []"
      using E(3,4) later(2) by (auto split: if_splits)
  qed
qed

text \<open>The replay of a transaction with the changes that are buffered and those still to come.\<close>

definition replay_all :: "('t, 'db) replay_calls \<Rightarrow> 'db RecoveryManager \<Rightarrow> change list \<Rightarrow> timestamp \<Rightarrow> 'db \<Rightarrow> 'db" where
  "replay_all calls rm rs t = replay_txn calls (map fst (changes_of (buffered_changes_map rm) t @ logged_changes rs t))"

lemma recover_from:
  assumes "log_ok (map fst rs)" and "deferred_ok (deferred_txns rm) rs"
  shows "recovered (recover calls rs rm) = fold (replay_all calls rm rs) (sort (deferred_txns rm @ committed_txns rs)) (recovered rm)
    \<and> deferred_txns (recover calls rs rm) = [] \<and> buffered_changes_map (recover calls rs rm) = []"
  using assms
proof (induction rs arbitrary: rm)
  case Nil
  then show ?case using finish_effect [of rm calls] by (simp add: recover_def deferred_ok_def sorted_sort_id replay_all_def)
next
  case (Cons p rs)
  let ?rm = "process_record calls p rm"
  have rec: "recover calls (p # rs) rm = recover calls rs ?rm" by (simp add: recover_def)
  show ?case
  proof (cases "is_commit (log_body (fst p))")
    case True
    then obtain c oldest ro where c: "log_body (fst p) = CommitRecord c oldest ro" by (cases "log_body (fst p)") auto
    from commit_step [OF this Cons.prems, of calls] obtain ts later where C: "deferred_txns ?rm = later" "deferred_ok later rs"
      "\<forall>t \<in> set ts. no_more t rs" "sort (deferred_txns rm @ committed_txns (p # rs)) = ts @ sort (later @ committed_txns rs)"
      "set ts \<inter> set later = {}"
      "recovered ?rm = fold (\<lambda>t. replay_txn calls (map fst (changes_of (buffered_changes_map rm) t))) ts (recovered rm)"
      "\<forall>u. changes_of (buffered_changes_map ?rm) u = (if u \<in> set ts then [] else changes_of (buffered_changes_map rm) u)"
      by auto
    have "t \<notin> set ts" if "t \<in> set (later @ committed_txns rs)" for t using that C(3,5) no_moreD(1) by auto
    then have "fold (replay_all calls ?rm rs) (sort (later @ committed_txns rs)) db = fold (replay_all calls rm (p # rs)) (sort (later @ committed_txns rs)) db" for db
      using C(7) c by (intro fold_cong) (auto simp: replay_all_def)
    moreover have "recovered ?rm = fold (replay_all calls rm (p # rs)) ts (recovered rm)"
      unfolding C(6) using no_moreD(2) C(3) c by (intro fold_cong) (auto simp: replay_all_def)
    ultimately show ?thesis unfolding rec C(4) using Cons.IH [of ?rm] Cons.prems(1) C(1,2) by simp
  next
    case False
    note O = other_step(1,2) [OF False]
    have "deferred_ok (deferred_txns ?rm) rs" using Cons.prems(2) by (simp add: O deferred_ok_def no_more_def)
    note IH = Cons.IH [OF _ this]
    have "log_txn_begin (fst p) \<notin> set (deferred_txns rm @ committed_txns rs)" if "\<not> is_change (log_body (fst p))"
      using Cons.prems that False by (cases "log_body (fst p)") (auto simp: deferred_ok_def no_more_def committed_txns_def)
    then have "fold (replay_all calls ?rm rs) (sort (deferred_txns rm @ committed_txns rs)) db =
        fold (replay_all calls rm (p # rs)) (sort (deferred_txns rm @ committed_txns rs)) db" for db
      by (intro fold_cong) (auto simp: replay_all_def other_step(3) [OF False])
    then show ?thesis using IH Cons.prems(1) False by (simp add: rec O)
  qed
qed

section \<open>The count of recovered transactions\<close>

text \<open>
  The bounds of the commit records of a log, and the transactions that began after the bounds of their
  own and of all later commit records.
\<close>

fun commit_bounds :: "change list \<Rightarrow> timestamp list" where
  "commit_bounds [] = []"
| "commit_bounds (p # rs) =
     (case log_body (fst p) of CommitRecord _ oldest _ \<Rightarrow> replay_bound oldest # commit_bounds rs | _ \<Rightarrow> commit_bounds rs)"

definition beyond :: "change list \<Rightarrow> timestamp \<Rightarrow> bool" where
  "beyond rs t \<longleftrightarrow> (\<forall>b \<in> set (commit_bounds rs). b < t)"

fun late_txns :: "change list \<Rightarrow> timestamp list" where
  "late_txns [] = []"
| "late_txns (p # rs) =
     (if is_commit (log_body (fst p)) \<and> (\<forall>b \<in> set (commit_bounds (p # rs)). b < log_txn_begin (fst p))
      then log_txn_begin (fst p) # late_txns rs else late_txns rs)"

lemma Process_counts: "recovered_txns (fold (ProcessCommittedTransaction calls) ts rm) = recovered_txns rm"
  by (induction ts arbitrary: rm)
    (simp_all add: ProcessCommittedTransaction_def erase_changes_def DeferRecordDeletes_def Let_def case_prod_unfold)

lemma Deferred_counts: "recovered_txns (snd (ProcessDeferredTransactions calls ub rm)) = recovered_txns rm"
  by (simp add: ProcessDeferredTransactions_def Let_def Process_counts)

lemma finish_counts: "recovered_txns (finish_recovery calls rm) = recovered_txns rm"
proof -
  have "recovered_txns (fold (\<lambda>t. DeferRecordDeletes t v) ts rm) = recovered_txns rm" for ts v and rm :: "'a RecoveryManager"
    by (induction ts arbitrary: rm) (simp_all add: DeferRecordDeletes_def)
  then show ?thesis by (simp add: finish_recovery_def Let_def case_prod_unfold Deferred_counts)
qed

lemma commit_counts:
  assumes "log_body (fst p) = CommitRecord c oldest ro" and "log_txn_begin (fst p) \<notin> set (deferred_txns rm)"
    and "sorted (deferred_txns rm)" and "distinct (deferred_txns rm)"
  shows "recovered_txns (process_record calls p rm) + of_nat (length (deferred_txns (process_record calls p rm))) =
      recovered_txns rm + of_nat (length (deferred_txns rm)) + 1"
    and "deferred_txns (process_record calls p rm) = filter (\<lambda>t. replay_bound oldest < t) (insort (log_txn_begin (fst p)) (deferred_txns rm))"
proof -
  let ?D = "insort_insert (log_txn_begin (fst p)) (deferred_txns rm)"
  let ?rm = "rm\<lparr>deferred_txns := ?D\<rparr>"
  have D: "?D = insort (log_txn_begin (fst p)) (deferred_txns rm)" using assms(2) by (simp add: insort_insert_insort)
  have "sorted (deferred_txns ?rm)" "distinct (deferred_txns ?rm)" using assms(3,4) by (simp_all add: sorted_insort_insert distinct_insort_insert)
  from Deferred_effect [OF this, of oldest calls] obtain ts later where E: "?D = ts @ later" "\<forall>t \<in> set ts. t \<le> replay_bound oldest"
      "\<forall>t \<in> set later. replay_bound oldest < t" "fst (ProcessDeferredTransactions calls oldest ?rm) = of_nat (length ts)"
      "deferred_txns (snd (ProcessDeferredTransactions calls oldest ?rm)) = later" by auto
  have "filter (\<lambda>t. replay_bound oldest < t) ?D = later"
    using E(2,3) unfolding E(1) by (auto simp: filter_empty_conv filter_id_conv leD)
  moreover have p: "deferred_txns (process_record calls p rm) = later"
      "recovered_txns (process_record calls p rm) = recovered_txns rm + of_nat (length ts)"
    using E(4,5) assms(1) by (simp_all add: process_record_def Let_def case_prod_unfold delete_log_record_def Deferred_counts)
  ultimately show "deferred_txns (process_record calls p rm) = filter (\<lambda>t. replay_bound oldest < t) (insort (log_txn_begin (fst p)) (deferred_txns rm))"
    by (simp add: D)
  have "length ts + length later = Suc (length (deferred_txns rm))" using arg_cong [OF E(1), of length] by (simp add: D)
  then have "(of_nat (length ts) + of_nat (length later) :: u32) = of_nat (length (deferred_txns rm)) + 1"
    by (simp flip: of_nat_add)
  then show "recovered_txns (process_record calls p rm) + of_nat (length (deferred_txns (process_record calls p rm))) =
      recovered_txns rm + of_nat (length (deferred_txns rm)) + 1"
    unfolding p by (simp add: add.assoc)
qed

lemma other_counts: "\<not> is_commit (log_body (fst p)) \<Longrightarrow> recovered_txns (process_record calls p rm) = recovered_txns rm"
  by (cases "log_body (fst p)") (simp_all add: process_record_def Let_def delete_log_record_def erase_changes_def DeferRecordDeletes_def)

lemma length_filter_insort:
  "length (filter P (filter Q (insort x xs))) = length (filter (\<lambda>t. Q t \<and> P t) xs) + (if Q x \<and> P x then 1 else 0)"
  by (induction xs) auto

lemma recover_counts:
  assumes "log_ok (map fst rs)" and "deferred_ok (deferred_txns rm) rs"
  shows "recovered_txns (recover calls rs rm) + of_nat (length (filter (beyond rs) (deferred_txns rm))) + of_nat (length (late_txns rs)) =
    recovered_txns rm + of_nat (length (deferred_txns rm)) + of_nat (length (committed_txns rs))"
  using assms
proof (induction rs arbitrary: rm)
  case Nil
  then show ?case by (simp add: recover_def finish_counts beyond_def)
next
  case (Cons p rs)
  let ?rm = "process_record calls p rm" and ?t = "log_txn_begin (fst p)"
  have rec: "recover calls (p # rs) rm = recover calls rs ?rm" by (simp add: recover_def)
  show ?case
  proof (cases "is_commit (log_body (fst p))")
    case True
    then obtain c oldest ro where c: "log_body (fst p) = CommitRecord c oldest ro" by (cases "log_body (fst p)") auto
    from commit_step [OF this Cons.prems, of calls] have ok: "deferred_ok (deferred_txns ?rm) rs" by auto
    have "?t \<notin> set (deferred_txns rm)" "sorted (deferred_txns rm)" "distinct (deferred_txns rm)"
      using Cons.prems(2) by (auto simp: deferred_ok_def no_more_def)
    note C = commit_counts [OF c this, of calls]
    have b: "beyond (p # rs) = (\<lambda>t. replay_bound oldest < t \<and> beyond rs t)" by (simp add: beyond_def c fun_eq_iff)
    have l: "late_txns (p # rs) = (if beyond (p # rs) ?t then ?t # late_txns rs else late_txns rs)" by (simp add: beyond_def c)
    have "length (filter (beyond rs) (deferred_txns ?rm)) = length (filter (beyond (p # rs)) (deferred_txns rm)) + (if beyond (p # rs) ?t then 1 else 0)"
      unfolding C(2) length_filter_insort by (simp add: b)
    then show ?thesis
      using Cons.IH [OF _ ok] Cons.prems(1) C(1) by (cases "beyond (p # rs) ?t") (simp_all add: rec l c algebra_simps del: late_txns.simps)
  next
    case False
    note O = other_step(2) [OF False]
    have ok: "deferred_ok (deferred_txns ?rm) rs" using Cons.prems(2) by (simp add: O deferred_ok_def no_more_def)
    have "commit_bounds (p # rs) = commit_bounds rs" using False by (cases "log_body (fst p)") auto
    then have "beyond (p # rs) = beyond rs" by (simp add: beyond_def fun_eq_iff)
    then show ?thesis using Cons.IH [OF _ ok] Cons.prems(1) False by (simp add: rec O other_counts [OF False])
  qed
qed

section \<open>Which varlens are released\<close>

text \<open>
  The changes in the map belong to the transactions they are filed under, and of the transactions
  \<open>ts\<close> that have committed only the deferred ones have changes there.
\<close>

definition filed :: "timestamp set \<Rightarrow> 'db RecoveryManager \<Rightarrow> change list \<Rightarrow> bool" where
  "filed ts rm rs \<longleftrightarrow>
     (\<forall>t. \<forall>p \<in> set (changes_of (buffered_changes_map rm) t). log_txn_begin (fst p) = t)
     \<and> set (deferred_txns rm) \<subseteq> ts \<and> (\<forall>t \<in> ts. no_more t rs \<and> (t \<in> set (deferred_txns rm) \<or> changes_of (buffered_changes_map rm) t = []))"

text \<open>A deletion frees varlens exactly when they belong to a transaction that does not commit.\<close>

definition right_varlens :: "timestamp set \<Rightarrow> change list \<times> bool \<Rightarrow> bool" where
  "right_varlens ts d \<longleftrightarrow> (\<forall>p \<in> set (fst d). snd p = [] \<or> (snd d \<longleftrightarrow> log_txn_begin (fst p) \<notin> ts))"

lemma commit_deletes:
  assumes "log_body (fst p) = CommitRecord c oldest ro" and "log_ok (map fst (p # rs))" and "deferred_ok (deferred_txns rm) (p # rs)"
    and "filed ts rm (p # rs)"
  shows "deferred_ok (deferred_txns (process_record calls p rm)) rs"
    and "filed (insert (log_txn_begin (fst p)) ts) (process_record calls p rm) rs"
    and "d \<in> set (deferred_deletes (process_record calls p rm)) \<Longrightarrow>
      d \<in> set (deferred_deletes rm) \<or> right_varlens (insert (log_txn_begin (fst p)) ts \<union> set (committed_txns rs)) d"
proof -
  let ?rm = "process_record calls p rm" and ?u = "log_txn_begin (fst p)"
  from commit_step [OF assms(1-3), of calls] obtain now later where C: "deferred_txns ?rm = later" "deferred_ok later rs"
    "set now \<union> set later = insert ?u (set (deferred_txns rm))"
    "\<forall>v. changes_of (buffered_changes_map ?rm) v = (if v \<in> set now then [] else changes_of (buffered_changes_map rm) v)"
    "deferred_deletes ?rm = deferred_deletes rm @ map (\<lambda>t. (changes_of (buffered_changes_map rm) t, False)) now @ [([(fst p, [])], False)]"
    by auto
  have F: "\<And>t q. q \<in> set (changes_of (buffered_changes_map rm) t) \<Longrightarrow> log_txn_begin (fst q) = t" "set (deferred_txns rm) \<subseteq> ts"
    "\<And>t. t \<in> ts \<Longrightarrow> no_more t rs \<and> (t \<in> set (deferred_txns rm) \<or> changes_of (buffered_changes_map rm) t = [])"
    using assms(4) by (auto simp: filed_def no_more_def)
  show "deferred_ok (deferred_txns ?rm) rs" using C(1,2) by simp
  have "no_more ?u rs" using assms(1,2) by (auto simp: no_more_def)
  moreover have "set later \<subseteq> insert ?u ts" "set now \<subseteq> insert ?u ts" using C(3) F(2) by auto
  moreover have "v \<in> set later \<or> v \<in> set now \<or> changes_of (buffered_changes_map rm) v = []" if "v \<in> insert ?u ts" for v
    using that F(3) C(3) by auto
  ultimately show "filed (insert ?u ts) ?rm rs" using F(1,3) C(1,4) unfolding filed_def by auto
  show "d \<in> set (deferred_deletes rm) \<or> right_varlens (insert ?u ts \<union> set (committed_txns rs)) d" if "d \<in> set (deferred_deletes ?rm)"
    using that F(1) \<open>set now \<subseteq> insert ?u ts\<close> unfolding C(5) by (fastforce simp: right_varlens_def)
qed

lemma other_deletes:
  assumes "\<not> is_commit (log_body (fst p))" and "log_ok (map fst (p # rs))" and "deferred_ok (deferred_txns rm) (p # rs)"
    and "filed ts rm (p # rs)"
  shows "deferred_ok (deferred_txns (process_record calls p rm)) rs" and "filed ts (process_record calls p rm) rs"
    and "d \<in> set (deferred_deletes (process_record calls p rm)) \<Longrightarrow>
      d \<in> set (deferred_deletes rm) \<or> right_varlens (ts \<union> set (committed_txns rs)) d"
proof -
  note O = other_step [OF assms(1)]
  have u: "log_txn_begin (fst p) \<notin> ts" using assms(4) by (auto simp: filed_def no_more_def)
  show "deferred_ok (deferred_txns (process_record calls p rm)) rs" using assms(3) by (simp add: O deferred_ok_def no_more_def)
  show "filed ts (process_record calls p rm) rs" using assms(4) u by (fastforce simp: O filed_def no_more_def split: if_splits)
  have "log_txn_begin (fst p) \<notin> set (committed_txns rs)" if "\<not> is_change (log_body (fst p))"
    using assms(1,2) that by (cases "log_body (fst p)") (auto simp: committed_txns_def)
  then show "d \<in> set (deferred_deletes rm) \<or> right_varlens (ts \<union> set (committed_txns rs)) d"
    if "d \<in> set (deferred_deletes (process_record calls p rm))"
    using that u assms(4) unfolding O(4) by (fastforce simp: right_varlens_def filed_def split: if_splits)
qed

lemma recover_deletes:
  assumes "log_ok (map fst rs)" and "deferred_ok (deferred_txns rm) rs" and "filed ts rm rs" and "d \<in> set (deferred_deletes (recover calls rs rm))"
  shows "d \<in> set (deferred_deletes rm) \<or> right_varlens (ts \<union> set (committed_txns rs)) d"
  using assms
proof (induction rs arbitrary: rm ts)
  case Nil
  then show ?case using finish_effect(2) [of rm calls] by (fastforce simp: recover_def filed_def right_varlens_def)
next
  case (Cons p rs)
  have d: "d \<in> set (deferred_deletes (recover calls rs (process_record calls p rm)))" using Cons.prems(4) by (simp add: recover_def)
  show ?case
  proof (cases "is_commit (log_body (fst p))")
    case True
    then obtain c oldest ro where "log_body (fst p) = CommitRecord c oldest ro" by (cases "log_body (fst p)") auto
    note C = commit_deletes [OF this Cons.prems(1-3), where calls = calls]
    show ?thesis
      using C(3) [of d] Cons.IH [OF _ C(1,2) d] Cons.prems(1) True by auto
  next
    case False
    note O = other_deletes [OF False Cons.prems(1-3), where calls = calls]
    show ?thesis using O(3) [of d] Cons.IH [OF _ O(1,2) d] Cons.prems(1) False by auto
  qed
qed

section \<open>Recovery from a log file\<close>

text \<open>
  \<open>GetNextRecord\<close> as a step on the provider, the memory and the number of records that were read;
  \<open>alloc k\<close> are the addresses that the allocator returns for the \<open>k\<close>-th record.
\<close>

definition next_change ::
  "('p \<Rightarrow> u32 \<Rightarrow> (bool \<times> bytes \<times> 'p) option) \<Rightarrow> ('p \<Rightarrow> bool) \<Rightarrow> (nat \<Rightarrow> nat \<Rightarrow> u64) \<Rightarrow> bytes \<Rightarrow> ProjectedRow
     \<Rightarrow> 'p \<times> memory \<times> nat \<Rightarrow> read_error + (change \<times> 'p \<times> memory \<times> nat) option" where
  "next_change rd has_more alloc junk head = (\<lambda>(p, vm, k).
     and_then (GetNextRecord rd has_more (alloc k) junk head p vm)
       (\<lambda>x. Inr (map_option (\<lambda>(r, p', vm', contents). ((r, contents), p', vm', k + 1)) x)))"

text \<open>A record that was read back: the same transaction and the same contents.\<close>

definition same_record :: "memory \<Rightarrow> (TupleSlot \<Rightarrow> u16 list) \<Rightarrow> LogRecord \<Rightarrow> LogRecord \<Rightarrow> bool" where
  "same_record vm szs r' r \<longleftrightarrow> log_txn_begin r' = log_txn_begin r \<and> (\<exists>vm'. same_body vm' vm szs (log_body r') (log_body r))"

lemma same_record_body:
  assumes "same_record vm szs r' r"
  shows "\<not> is_change (log_body r) \<Longrightarrow> log_body r' = log_body r" "is_change (log_body r') = is_change (log_body r)"
    "is_commit (log_body r') = is_commit (log_body r)"
  using assms by (cases "log_body r"; cases "log_body r'"; auto simp: same_record_def)+

lemma same_log_ok: "list_all2 (same_record vm szs) rs' rs \<Longrightarrow> log_ok rs \<Longrightarrow> log_ok rs'"
proof (induction rule: list_all2_induct)
  case (Cons r' rs' r rs)
  note B = same_record_body [OF Cons.hyps(1)]
  have m: "\<exists>x \<in> set rs. same_record vm szs x' x" if "x' \<in> set rs'" for x'
    using that Cons.hyps(2) by (metis list_all2_conv_all_nth in_set_conv_nth)
  have b: "log_txn_begin r' = log_txn_begin r" using Cons.hyps(1) by (simp add: same_record_def)
  show ?case
  proof (cases "is_change (log_body r)")
    case True
    then have "is_change (log_body r')" using B(2) by simp
    then show ?thesis using Cons.IH Cons.prems by (cases "log_body r'") simp_all
  next
    case False
    then show ?thesis
      using Cons.IH Cons.prems m same_record_body(3) B(1) [OF False] b
      by (cases "log_body r") (fastforce simp: same_record_def)+
  qed
qed simp

lemma ReadNextRecord_contents:
  "ReadNextRecord rd alloc junk head p vm = Inr (r, p', vm', contents) \<Longrightarrow>
     contents = [] \<or> (\<exists>d tb s row. log_body r = RedoRecord d tb s row)"
  by (auto simp: ReadNextRecord_def and_then_def split: sum.splits if_splits prod.splits)

locale complete_log = log_provider rd ok left
  for rd :: "'p \<Rightarrow> u32 \<Rightarrow> (bool \<times> bytes \<times> 'p) option" and ok and left +
  fixes has_more :: "'p \<Rightarrow> bool"
  assumes has_more: "ok p \<Longrightarrow> has_more p \<longleftrightarrow> left p \<noteq> []"
begin

lemma reads_records:
  assumes "\<And>k r. r \<in> set rs \<Longrightarrow> loggable (alloc k) vm szs (log_body r)"
    and "at p (concat (map (\<lambda>r. concat (SerializeRecord vm (\<lambda>slot. make_BlockLayout (szs slot)) r)) rs))"
  shows "\<exists>cs. reads_log (next_change rd has_more alloc junk head) (p, vm0, k) cs \<and> list_all2 (same_record vm szs) (map fst cs) rs
    \<and> (\<forall>c \<in> set cs. snd c = [] \<or> (\<exists>d tb s row. log_body (fst c) = RedoRecord d tb s row))"
  using assms
proof (induction rs arbitrary: p vm0 k)
  case Nil
  then have "next_change rd has_more alloc junk head (p, vm0, k) = Inr None"
    using has_more [of p] by (simp add: next_change_def GetNextRecord_def at_def)
  then show ?case by (intro exI [of _ "[]"]) (simp add: reads_end)
next
  case (Cons r rs)
  let ?ser = "\<lambda>r. concat (SerializeRecord vm (\<lambda>slot. make_BlockLayout (szs slot)) r)"
  have p: "at p (?ser r @ concat (map ?ser rs))" using Cons.prems(2) by simp
  have l: "loggable (alloc k) vm szs (log_body r)" using Cons.prems(1) by simp
  from ReadNextRecord_at [OF l p, of junk head vm0] obtain r' p' vm' contents where
    R: "ReadNextRecord rd (alloc k) junk head p vm0 = Inr (r', p', vm', contents)" "at p' (concat (map ?ser rs))"
      "log_txn_begin r' = log_txn_begin r" "same_body vm' vm szs (log_body r') (log_body r)" by blast
  have "has_more p" using p has_more [of p] by (simp add: at_def SerializeRecord_def)
  then have n: "next_change rd has_more alloc junk head (p, vm0, k) = Inr (Some ((r', contents), p', vm', k + 1))"
    using R(1) by (simp add: next_change_def GetNextRecord_def)
  have s: "same_record vm szs r' r" using R(3,4) by (auto simp: same_record_def)
  obtain cs where "reads_log (next_change rd has_more alloc junk head) (p', vm', k + 1) cs"
      "list_all2 (same_record vm szs) (map fst cs) rs" "\<forall>c \<in> set cs. snd c = [] \<or> (\<exists>d tb s row. log_body (fst c) = RedoRecord d tb s row)"
    using Cons.IH [OF Cons.prems(1) R(2), of vm' "k + 1"] by auto
  then show ?case
    using reads_next [where next_record = "next_change rd has_more alloc junk head", OF n] s ReadNextRecord_contents [OF R(1)]
    by (intro exI [of _ "(r', contents) # cs"]) simp
qed

end

text \<open>A reader of a file whose length is not a multiple of the buffer size notices its end.\<close>

lemma RefillBuffer_aligned: "RefillBuffer r = Some r1 \<Longrightarrow> aligned r1 \<Longrightarrow> aligned r"
proof -
  assume "RefillBuffer r = Some r1" "aligned r1"
  then have "log_open r" "LOG_BUFFER_SIZE \<le> length (log_rest r)" "LOG_BUFFER_SIZE dvd length (log_rest r) - LOG_BUFFER_SIZE"
    by (auto simp: RefillBuffer_def aligned_def Let_def split: if_splits)
  then show "aligned r" by (simp add: aligned_def dvd_minus_self)
qed

lemma ReadFromBuffer_aligned: "ReadFromBuffer r n = Some (bs, r1) \<Longrightarrow> aligned r1 = aligned r"
  by (auto simp: ReadFromBuffer_def aligned_def split: if_splits)

lemma Read_loop_aligned: "Read_loop r n k target = Some (b, bs, r1) \<Longrightarrow> aligned r1 \<Longrightarrow> aligned r"
proof (induction r n k target rule: Read_loop.induct)
  case (1 r n k target)
  show ?case
  proof (cases "k < n \<and> HasMore r")
    case True
    let ?m = "min (n - k) (filled_size r - read_head r)"
    obtain r2 bs2 r3 where R: "(if ?m = 0 then RefillBuffer r else Some r) = Some r2" "ReadFromBuffer r2 ?m = Some (bs2, r3)"
        "Read_loop r3 n (k + ?m) (target @ bs2) = Some (b, bs, r1)"
      using 1(2) True by (subst (asm) Read_loop.simps) (auto simp: Let_def split: option.splits)
    then have "aligned r3" using 1(1) [OF _ _ refl R(1,2) refl R(3) 1(3)] True by simp
    then have "aligned r2" using ReadFromBuffer_aligned [OF R(2)] by simp
    then show ?thesis using R(1) RefillBuffer_aligned by (auto split: if_splits)
  qed (use 1(2,3) in \<open>auto simp: Read_loop.simps [of r] split: if_splits\<close>)
qed

lemma Read_aligned: "Read r n = Some (b, bs, r1) \<Longrightarrow> aligned r1 \<Longrightarrow> aligned r"
  using Read_loop_aligned ReadFromBuffer_aligned by (fastforce simp: Read_def split: if_splits)

interpretation unaligned_log: complete_log Read "\<lambda>r. reader_ok r \<and> \<not> aligned r" remaining HasMore
proof unfold_locales
  show "\<exists>p'. Read p n = Some (True, take (unat n) (remaining p), p') \<and> (reader_ok p' \<and> \<not> aligned p') \<and> remaining p' = drop (unat n) (remaining p)"
    if "reader_ok p \<and> \<not> aligned p" "unat n < 2 ^ 31" "unat n \<le> length (remaining p)" for p n
    using Read_next [of p n] Read_aligned [of p n] that by blast
  show "HasMore p \<longleftrightarrow> remaining p \<noteq> []" if "reader_ok p \<and> \<not> aligned p" for p
    using that HasMore_remaining [of p]
    by (auto simp: HasMore_def aligned_def reader_ok_def remaining_def word_less_nat_alt)
qed

text \<open>
  C7. Recovery restores the committed transactions. From a log file with the records that the engine
  wrote, recovery ends without an error and has replayed exactly the transactions that have a commit
  record, each once, with all its logged changes in the order of the log, one transaction after the
  other in the order in which they began. The hypotheses are that transactions log nothing after their
  commit or abort, that the oldest active transaction in a commit record is a lower bound for the later
  ones, and that the length of the file is not a multiple of the buffer size.
\<close>

theorem recovery_replays_committed:
  assumes "log_ok rs" and "\<And>k r. r \<in> set rs \<Longrightarrow> loggable (alloc k) vm szs (log_body r)"
    and "log = concat (map (\<lambda>r. concat (SerializeRecord vm (\<lambda>slot. make_BlockLayout (szs slot)) r)) rs)"
    and "\<not> LOG_BUFFER_SIZE dvd length log"
  shows "\<exists>cs rm. list_all2 (same_record vm szs) (map fst cs) rs
    \<and> RecoverFromLogs (next_change Read HasMore alloc junk head) calls (open_reader log, vm0, 0) (new_RecoveryManager db) = Some (Inr rm)
    \<and> recovered rm = fold (\<lambda>t. replay_txn calls (map fst (logged_changes cs t))) (sort (committed_txns cs)) db"
proof -
  have "\<not> aligned (open_reader log)" using assms(4) by (simp add: aligned_def open_reader_def)
  then have "unaligned_log.at (open_reader log) log" by (simp add: unaligned_log.at_def)
  from unaligned_log.reads_records [of rs alloc vm szs, OF assms(2) this [unfolded assms(3)], where junk = junk and head = head and ?vm0.0 = vm0 and k = 0] obtain cs where
    C: "reads_log (next_change Read HasMore alloc junk head) (open_reader log, vm0, 0) cs" "list_all2 (same_record vm szs) (map fst cs) rs"
    unfolding assms(3) by blast
  have "deferred_ok (deferred_txns (new_RecoveryManager db)) cs" by (simp add: deferred_ok_def new_RecoveryManager_def)
  moreover have "replay_all calls (new_RecoveryManager db) cs = (\<lambda>t. replay_txn calls (map fst (logged_changes cs t)))"
    by (simp add: fun_eq_iff replay_all_def new_RecoveryManager_def changes_of_def)
  moreover have "deferred_txns (new_RecoveryManager db) = []" "recovered (new_RecoveryManager db) = db" by (simp_all add: new_RecoveryManager_def)
  ultimately  have "recovered (recover calls cs (new_RecoveryManager db)) =
      fold (\<lambda>t. replay_txn calls (map fst (logged_changes cs t))) (sort (committed_txns cs)) db"
    using recover_from [OF same_log_ok [OF C(2) assms(1)], of "new_RecoveryManager db" calls] by simp
  then show ?thesis using RecoverFromLogs_records [OF C(1), of calls "new_RecoveryManager db"] C(2) by blast
qed

text \<open>
  C21. Recovery releases every record that it reads exactly once, and with it the buffers of its
  varlens exactly when the transaction of the record does not commit; the varlens of a replayed
  transaction belong to the tables.
\<close>

theorem recovery_releases_records:
  assumes "reads_log next_record p rs" and "log_ok (map fst rs)"
    and "\<forall>c \<in> set rs. snd c = [] \<or> (\<exists>d tb s row. log_body (fst c) = RedoRecord d tb s row)"
  shows "\<exists>rm. RecoverFromLogs next_record calls p (new_RecoveryManager db) = Some (Inr rm)
    \<and> mset (concat (map fst (deferred_deletes rm))) = mset rs
    \<and> (\<forall>d \<in> set (deferred_deletes rm). \<forall>c \<in> set (fst d). snd c \<noteq> [] \<longrightarrow> (snd d \<longleftrightarrow> log_txn_begin (fst c) \<notin> set (committed_txns rs)))"
proof -
  let ?rm = "new_RecoveryManager db"
  have "deferred_ok (deferred_txns ?rm) rs" "filed {} ?rm rs" "deferred_deletes ?rm = []"
    by (simp_all add: deferred_ok_def filed_def new_RecoveryManager_def changes_of_def)
  then have "right_varlens (set (committed_txns rs)) d" if "d \<in> set (deferred_deletes (recover calls rs ?rm))" for d
    using recover_deletes [OF assms(2) _ _ that] by fastforce
  moreover have "mset (concat (map fst (deferred_deletes (recover calls rs ?rm)))) = mset rs" by (rule recover_held [OF assms(3)])
  ultimately show ?thesis using RecoverFromLogs_records [OF assms(1), of calls ?rm] by (auto simp: right_varlens_def)
qed

text \<open>Two transactions that overlap: the one that began first commits last, a third aborts, and a fourth was still running.\<close>

definition example_log :: "LogRecord list" where
  "example_log =
     [\<lparr>log_txn_begin = 6, log_body = DeleteRecord 1 100 32\<rparr>, \<lparr>log_txn_begin = 5, log_body = DeleteRecord 1 100 64\<rparr>,
      \<lparr>log_txn_begin = 6, log_body = CommitRecord 7 5 False\<rparr>, \<lparr>log_txn_begin = 8, log_body = DeleteRecord 1 100 96\<rparr>,
      \<lparr>log_txn_begin = 8, log_body = AbortRecord\<rparr>, \<lparr>log_txn_begin = 9, log_body = DeleteRecord 1 100 128\<rparr>,
      \<lparr>log_txn_begin = 5, log_body = CommitRecord 10 5 False\<rparr>]"

text \<open>A database that is the list of the slots that were deleted.\<close>

definition example_calls :: "(unit, TupleSlot list) replay_calls" where
  "example_calls =
     \<lparr>call_begin = (\<lambda>db. ((), db)), is_special = (\<lambda>_ _. False), call_special = (\<lambda>_ _ _ db. (0, db)), call_redo = (\<lambda>_ _ db. db),
      call_delete = (\<lambda>_ r db. case log_body r of DeleteRecord _ _ slot \<Rightarrow> db @ [slot] | _ \<Rightarrow> db), call_commit = (\<lambda>_ db. db)\<rparr>"

lemma example_log_ok: "log_ok example_log"
  by (simp add: example_log_def replay_bound_def INVALID_TXN_TIMESTAMP_def INT64_MIN_def INT64_MAX_def)

lemma same_record_plain: "list_all2 (same_record vm szs) rs' rs \<Longrightarrow> (\<And>r d tb s row. r \<in> set rs \<Longrightarrow> log_body r \<noteq> RedoRecord d tb s row) \<Longrightarrow> rs' = rs"
proof (induction rule: list_all2_induct)
  case (Cons r' rs' r rs)
  have "log_body r' = log_body r"
    using Cons.hyps(1) Cons.prems [of r] by (cases "log_body r"; cases "log_body r'") (auto simp: same_record_def)
  then show ?case using Cons by (simp add: same_record_def)
qed simp

theorem recovery_replays_committed_witness:
  "\<exists>rm. RecoverFromLogs (next_change Read HasMore (\<lambda>_ _. 0) [] (scenario_row 0)) example_calls
      (open_reader (concat (map (\<lambda>r. concat (SerializeRecord (\<lambda>_. 0) (\<lambda>_. make_BlockLayout [8]) r)) example_log)), (\<lambda>_. 0), 0)
      (new_RecoveryManager []) = Some (Inr rm) \<and> recovered rm = [64, 32]"
proof -
  let ?log = "concat (map (\<lambda>r. concat (SerializeRecord (\<lambda>_. 0) (\<lambda>_. make_BlockLayout [8]) r)) example_log)"
  have len: "length ?log = 187" by (simp add: example_log_def SerializeRecord_def length_le_bytes)
  have redo: "log_body r \<noteq> RedoRecord d tb s row" if "r \<in> set example_log" for r d tb s row using that by (auto simp: example_log_def)
  then have "loggable (\<lambda>_. 0) (\<lambda>_. 0) (\<lambda>_. [8]) (log_body r)" if "r \<in> set example_log" for r
    using that by (auto simp: example_log_def)
  with recovery_replays_committed [OF example_log_ok, of "\<lambda>_ _. 0" "\<lambda>_. 0" "\<lambda>_. [8]" ?log "[]" "scenario_row 0" example_calls "\<lambda>_. 0" "[]"] len
  obtain cs rm where "list_all2 (same_record (\<lambda>_. 0) (\<lambda>_. [8])) (map fst cs) example_log"
    and R: "RecoverFromLogs (next_change Read HasMore (\<lambda>_ _. 0) [] (scenario_row 0)) example_calls (open_reader ?log, (\<lambda>_. 0), 0) (new_RecoveryManager []) = Some (Inr rm)"
      "recovered rm = fold (\<lambda>t. replay_txn example_calls (map fst (logged_changes cs t))) (sort (committed_txns cs)) []"
    by (auto simp: LOG_BUFFER_SIZE_def)
  then have m: "map fst cs = example_log" using same_record_plain redo by blast
  have "committed_txns cs = [6, 5]" 
    using arg_cong [OF m, of "\<lambda>rs. map log_txn_begin (filter (is_commit \<circ> log_body) rs)"] 
    by (simp add: committed_txns_def example_log_def filter_map comp_def)
  moreover have "map fst (logged_changes cs t) = filter (\<lambda>r. log_txn_begin r = t \<and> is_change (log_body r)) example_log" for t
    by (simp add: logged_changes_def filter_map comp_def flip: m)
  ultimately have "recovered rm = [64, 32]"
    using R(2) by (simp add: example_log_def replay_txn_def example_calls_def)
  then show ?thesis using R(1) by blast
qed

text \<open>A provider that has its records in a list.\<close>

definition list_log :: "change list \<Rightarrow> read_error + (change \<times> change list) option" where
  "list_log rs = (case rs of [] \<Rightarrow> Inr None | r # rs' \<Rightarrow> Inr (Some (r, rs')))"

lemma reads_list_log: "reads_log list_log rs rs"
  by (induction rs) (auto intro: reads_log.intros simp: list_log_def)

theorem recovery_releases_records_witness:
  "\<exists>rm. RecoverFromLogs list_log example_calls (map (\<lambda>r. (r, [])) example_log) (new_RecoveryManager []) = Some (Inr rm)
    \<and> mset (concat (map fst (deferred_deletes rm))) = mset (map (\<lambda>r. (r, [])) example_log)"
  using recovery_releases_records [OF reads_list_log, of "map (\<lambda>r. (r, [])) example_log" example_calls "[]"] example_log_ok
  by (auto simp: comp_def)

text \<open>
  C30. The count of recovered transactions is too small. For every log that the engine may write,
  \<open>RecoverFromLogs\<close> replays all committed transactions, but \<open>recovered_txns_\<close> leaves out exactly those that
  began after the oldest active transaction in their own and in every later commit record: the
  transactions that it replays after it has read the log.
\<close>

theorem recovered_txns_too_small:
  assumes "reads_log next_record p rs" and "log_ok (map fst rs)"
  shows "\<exists>rm. RecoverFromLogs next_record calls p (new_RecoveryManager db) = Some (Inr rm)
    \<and> recovered rm = fold (\<lambda>t. replay_txn calls (map fst (logged_changes rs t))) (sort (committed_txns rs)) db
    \<and> recovered_txns rm + of_nat (length (late_txns rs)) = of_nat (length (committed_txns rs))"
proof -
  let ?rm = "new_RecoveryManager db"
  have ok: "deferred_ok (deferred_txns ?rm) rs" "deferred_txns ?rm = []" "recovered_txns ?rm = 0" "recovered ?rm = db"
    by (simp_all add: deferred_ok_def new_RecoveryManager_def)
  have "replay_all calls ?rm rs = (\<lambda>t. replay_txn calls (map fst (logged_changes rs t)))"
    by (simp add: fun_eq_iff replay_all_def new_RecoveryManager_def changes_of_def)
  then show ?thesis
    using recover_from [OF assms(2) ok(1), of calls] recover_counts [OF assms(2) ok(1), of calls] ok(2-4)
      RecoverFromLogs_records [OF assms(1), of calls ?rm] by simp
qed

theorem recovered_txns_too_small_witness:
  "\<exists>rm. RecoverFromLogs list_log example_calls (map (\<lambda>r. (r, [])) example_log) (new_RecoveryManager []) = Some (Inr rm)
    \<and> recovered rm = [64, 32] \<and> recovered_txns rm = 1"
proof -
  let ?rs = "map (\<lambda>r. (r, [])) example_log"
  have ok: "log_ok (map fst ?rs)" using example_log_ok by (simp add: comp_def)
  have l: "committed_txns ?rs = [6, 5]" "late_txns ?rs = [6]"
    by (simp_all add: example_log_def replay_bound_def INVALID_TXN_TIMESTAMP_def INT64_MIN_def)
  have "fold (\<lambda>t. replay_txn example_calls (map fst (logged_changes ?rs t))) (sort (committed_txns ?rs)) [] = [64, 32]"
    unfolding l by (simp add: example_log_def replay_txn_def example_calls_def)
  then show ?thesis using recovered_txns_too_small [OF reads_list_log ok, of example_calls "[]"] l by auto
qed

end
