(* ===== verification/Spec2Isabelle.thy ===== *)
theory Spec2Isabelle
  imports Bitmap CommitGate LogManager Recovery
begin

text \<open>
  A verification development for the transactional storage engine of the terrier DBMS: the code under
  \<^verbatim>\<open>src/storage\<close>, \<^verbatim>\<open>src/transaction\<close> and \<^verbatim>\<open>src/common\<close> that stores tuples, runs
  transactions on them, collects old versions, writes the log and recovers from it.

  \<^bold>\<open>The program.\<close> Tuples live in blocks of one megabyte, column by column, with bitmaps for allocation
  and nulls. The newest version of a tuple is in its block; a hidden column points to a chain of undo
  records that lead back to older versions. A transaction takes a start time from a global clock, reads
  what was committed before it, writes in place, and on commit stores its commit time into all its undo
  records. The garbage collector unlinks undo records that no running transaction can need, and frees
  them one epoch later. Log records of a transaction go through its redo buffer to the log manager,
  whose tasks serialize them into buffers and write them to a file; recovery reads the file and replays
  the transactions.

  \<^bold>\<open>Foundations.\<close> \<open>Prelude\<close> has the machine types and shared facts. \<open>Bitmap\<close> models
  \<^verbatim>\<open>common/container/{bitmap,concurrent_bitmap}.h\<close> on raw bytes, with the compare-and-swap loop of
  \<open>Flip\<close> as a step relation for racing threads; the search \<open>FirstUnsetPos\<close> is sound, complete from
  byte-aligned positions only, and of racing flips exactly one wins. \<open>ObjectPool\<close> models
  \<^verbatim>\<open>common/object_pool.h\<close>. \<open>StorageDefs\<close> models tuple slots and varlen entries of
  \<^verbatim>\<open>storage/storage_defs.h\<close> and their array format in \<^verbatim>\<open>storage/storage_util.h\<close>.

  \<^bold>\<open>Blocks and rows.\<close> \<open>Layout\<close> models \<^verbatim>\<open>storage/block_layout.cpp\<close> and the offsets of
  \<^verbatim>\<open>storage/storage_util.cpp\<close> at their machine widths: every layout fits in a block, and values do not
  overlap. \<open>TupleAccess\<close> models \<^verbatim>\<open>storage/tuple_access_strategy.{h,cpp}\<close> and the block access
  controller, \<open>ProjectedRow\<close> the rows that clients pass, and \<open>Initializers\<close> how
  \<^verbatim>\<open>storage/projected_row.cpp\<close> and \<^verbatim>\<open>storage/projected_columns.cpp\<close> lay them out. \<open>ColumnMap\<close> models
  the constructor of \<^verbatim>\<open>storage/sql_table.cpp\<close>, which gives schema columns their storage columns.

  \<^bold>\<open>Transactions.\<close> \<open>Timestamps\<close> models \<^verbatim>\<open>transaction/timestamp_manager.{h,cpp}\<close>, \<open>VersionChain\<close> the undo
  records, \<open>TransactionContext\<close> the context with its redo buffer, \<open>DeferredActions\<close>
  \<^verbatim>\<open>transaction/deferred_action_manager.h\<close>, \<open>DataTable\<close> and \<open>SqlTable\<close> the tables, \<open>TransactionManager\<close>
  begin, commit and abort, and \<open>GarbageCollector\<close> the collector. The state of a call is the record
  \<open>database\<close>, which has the members of all of them; undo records are in a heap of pointers.
  \<open>CommitGate\<close> models \<^verbatim>\<open>common/gate.h\<close> and the interleaving of begins, commits and aborts.

  \<^bold>\<open>The engine.\<close> \<open>SnapshotIsolation\<close> is the abstract contract: a machine with the committed tuples and one
  view for each running transaction, and the locale \<open>si_refinement\<close>, in which the guarantees for clients
  are proved once. \<open>Database\<close>, \<open>DatabaseFinish\<close>, \<open>DatabaseGC\<close> and \<open>DatabaseInsert\<close> have the invariant of
  the engine and show for each call that it keeps the invariant and refines the machine. \<open>Engine\<close> makes
  the calls a step relation, in any order and for any number of transactions, and interprets the
  locale; \<open>Quiescence\<close> adds what holds when no transaction runs, and \<open>Scenario\<close> is a concrete run.

  \<^bold>\<open>Log and recovery.\<close> \<open>LogIo\<close> models \<^verbatim>\<open>storage/write_ahead_log/log_io.{h,cpp}\<close>, \<open>LogSerialization\<close> the
  format of records in \<open>SerializeRecord\<close> and its reader in
  \<^verbatim>\<open>storage/recovery/abstract_log_provider.cpp\<close>, \<open>LogManager\<close> the two tasks of the log manager and
  \<open>ForceFlush\<close> as interleaved steps, and \<open>Recovery\<close> the recovery manager. What recovery needs of a
  provider of log bytes is the locale \<open>log_provider\<close> and its extension \<open>complete_log\<close>, interpreted on
  the buffered reader.

  \<^bold>\<open>What the theorems show.\<close> Every run of the engine is a run of the snapshot isolation machine; from this
  follow repeatable reads, the absence of lost updates and of dirty reads, and the visibility of own and
  of committed writes. The collector and every write return from every reachable state; the
  collector changes no read, leaves no dangling version pointer and drains a system at rest. Commit
  callbacks only run for persistent records. A log file is read back as it was written, and recovery
  replays exactly the committed transactions in the order they began. Some theorems show behaviour that
  the comments of the code exclude: \<open>FirstUnsetPos_misses_unset\<close>, \<open>abort_after_unused_stage_fails\<close>,
  \<open>force_flush_returns_early\<close>, \<open>end_of_log_missed\<close> and \<open>recovered_txns_too_small\<close>.

  \<^bold>\<open>Bounds.\<close> Sizes, offsets, slots and timestamps are words of their width. Counters that the code keeps
  in 32 bits are natural numbers where they count objects in memory. Steps that take a timestamp require
  that the clock has not reached \<open>2 ^ 63\<close>, where start times would meet the ids of uncommitted
  transactions. Loops over version chains, over the queues of the collector and over the log are partial
  functions whose result \<open>None\<close> is a loop that does not end or a null pointer that is dereferenced; that
  they return is proved. No definition has fuel. Projections are not empty, as the code asserts.

  \<^bold>\<open>Failures.\<close> The block store can fail at its limit or in its allocator, and an insert reports it. The pool
  of buffer segments for undo and redo records is taken to have a segment whenever one is needed, and
  calls that read, write and sync files to succeed. An assertion of the code that fails is an error value
  or the result \<open>None\<close> where the code would go on with a null pointer or read out of bounds; the assertion
  that the oldest transaction in a commit record is valid is left out when the record is read.

  \<^bold>\<open>Granularity.\<close> In the engine each call of a table, of the transaction manager or of the collector is
  one step, so the latches and compare-and-swap loops inside a call appear as atomic. Finer
  interleavings are modelled for \<open>Flip\<close>, for the commit gate and for the tasks of the log manager.
  Allocators and system calls are arguments: what they return is given by functions or lists,
  with hypotheses where the code relies on them, such as \<open>allocator_ok\<close>.

  \<^bold>\<open>Not modelled.\<close> The block compactor and Arrow export, which move cold tuples with the calls modelled
  here; indexes, which wrap third-party trees; the catalog and what replaying a record does to it; the
  execution engine, optimizer, planner, parser, binder, network layer, traffic cop and settings, which
  are clients of the storage engine; metrics, loggers and the management of threads.
\<close>

section \<open>Snapshot isolation\<close>

text \<open>
  C1. Snapshot isolation. Every run of the engine (begin, staging, insert, update, delete, commit,
  abort, garbage collection and log steps in any order) has the events of a run of the abstract
  machine, and in the state it reaches every read returns what the machine gives its transaction.
\<close>

theorem engine_implements_snapshot_isolation:
  assumes "engine_run asserts exec es s"
  shows "\<exists>a. run si_step si_init es a
    \<and> (\<forall>t. active (snd s) t \<longleftrightarrow> si_view a t \<noteq> None)
    \<and> (\<forall>t slot cols r. engine_reads s t slot cols r \<longrightarrow>
          (\<exists>f. si_view a t = Some f \<and> r = map_option (\<lambda>row. map row cols) (f slot)))"
proof -
  obtain a where "run si_step si_init es a" "engine_refines s a" using engine_runD(1) [OF assms] by blast
  then show ?thesis using engine_reads_view refines_active by blast
qed

theorem engine_implements_snapshot_isolation_witness:
  "\<exists>slot s a. engine_run False (\<lambda>_ _. []) [Internal, Begin 0, Inserted 0 slot (scenario_row 7), Committed_txn 0, Internal] s
     \<and> run si_step si_init [Internal, Begin 0, Inserted 0 slot (scenario_row 7), Committed_txn 0, Internal] a"
proof -
  obtain slot s where "engine_run False (\<lambda>_ _. []) [Internal, Begin 0, Inserted 0 slot (scenario_row 7), Committed_txn 0, Internal] s"
    using scenario_idle by blast
  with engine_implements_snapshot_isolation [OF this] show ?thesis by blast
qed

text \<open>
  C2. Repeatable read. Whatever other transactions, the garbage collector and the log do in the
  meantime, a running transaction that reads the same columns of the same slot again gets the same
  answer; in particular no version that it needs is collected.
\<close>

theorem engine_repeatable_read:
  assumes "engine_run asserts exec es s" and "engine_reads s t slot cols r"
    and "run (engine_step asserts exec) s es' s'" and "Some t \<notin> event_txn ` set es'"
  shows "engine_reads s' t slot cols r"
proof -
  obtain a where "engine_refines s a" using engine_runD(1) [OF assms(1)] by blast
  from run_reads [OF assms(3) this engine_runD(2) [OF assms(1)] assms(4,2)] show ?thesis .
qed

theorem engine_repeatable_read_witness:
  "\<exists>slot s s'. run scenario_step s [Begin 3, Updated 3 slot (scenario_row 9), Committed_txn 3] s'
     \<and> engine_reads s 2 slot [1] (Some [Some [7]]) \<and> engine_reads s' 2 slot [1] (Some [Some [7]])"
proof -
  obtain slot s1 s2 s3 s4 s5 s6 s5' s6' where S: "scenario slot s1 s2 s3 s4 s5 s6 s5' s6'" using scenario_exists by blast
  have run: "run scenario_step s2 [Begin 3, Updated 3 slot (scenario_row 9), Committed_txn 3] s5"
    using S by (auto simp: scenario_def intro: run.intros)
  have "engine_reads s5 2 slot [1] (Some [Some [7]])"
    by (rule engine_repeatable_read [OF scenario_run [OF scenario_runs(1) [OF S]] scenario_reads [OF S] run]) simp
  then show ?thesis using run scenario_reads [OF S] by blast
qed

text \<open>
  C9. Committed writes are visible. When a transaction updates, inserts or deletes a tuple, then does
  anything except writing that tuple again, and commits, a transaction that begins before the next
  commit reads what it wrote, and reads nothing when it deleted the tuple.
\<close>

theorem engine_committed_write_visible:
  assumes "engine_run asserts exec (es0 @ e # es @ Committed_txn u # es' @ [Begin t]) s"
    and "write_of e = Some (u, slot, x)" and "Committed_txn u \<notin> set es" and "Aborted_txn u \<notin> set es"
    and "\<And>e' y. e' \<in> set es \<Longrightarrow> write_of e' \<noteq> Some (u, slot, y)" and "\<And>v. Committed_txn v \<notin> set es'"
    and "valid_slot (snd s) slot" and "good_row out"
  shows "\<exists>r. engine_reads s t slot (col_ids out) r \<and> shows_read x (col_ids out) r"
proof -
  obtain s0 where s0: "engine_run asserts exec es0 s0"
      "run (engine_step asserts exec) s0 (e # es @ Committed_txn u # es' @ [Begin t]) s"
    using assms(1) unfolding engine_run_append by blast
  obtain a0 where a0: "engine_refines s0 a0" using engine_runD(1) [OF s0(1)] by blast
  obtain a where a: "run si_step si_init (es0 @ e # es @ Committed_txn u # es' @ [Begin t]) a" "engine_refines s a"
    using engine_runD(1) [OF assms(1)] by blast
  have "si_view a t \<noteq> None"
    using a(1) by (auto simp: run_append elim!: run_elims si_step_cases(1))
  then obtain r where "engine_reads s t slot (col_ids out) r"
    using engine_reads_total [OF a(2) _ assms(7,8)] refines_active [OF a(2)] by blast
  then show ?thesis using engine.committed_write_visible [OF s0(2) a0 assms(2-6)] by blast
qed

theorem engine_committed_write_visible_witness:
  "\<exists>slot slot' s. slot' \<noteq> slot
     \<and> engine_run False (\<lambda>_ _. []) [Internal, Begin 0, Begin 1, Inserted 1 slot (scenario_row 7), Inserted 1 slot' (scenario_row 8),
         Committed_txn 1, Begin 3] s
     \<and> engine_reads s 3 slot [1] (Some [Some [7]])"
proof -
  obtain slot slot' s1 s2 s3 where S: "two_writes slot slot' s1 s2 s3" using two_writes_exists by blast
  note run = two_writes_runs(3) [OF S]
  have "\<exists>r. engine_reads s3 3 slot (col_ids (scenario_row 7)) r \<and> shows_read (Some (scenario_row 7)) (col_ids (scenario_row 7)) r"
    by (rule engine_committed_write_visible [OF run]) (use S in \<open>auto simp: two_writes_def\<close>)
  then have "engine_reads s3 3 slot [1] (Some [Some [7]])" by auto
  moreover have "slot' \<noteq> slot" using S by (simp add: two_writes_def)
  ultimately show ?thesis using run by (simp only: append.simps) blast
qed

text \<open>
  C3. No lost update. When some other transaction wrote a slot, among any other writes of its own, and
  committed after a transaction began, every update and every delete of that slot by the transaction
  returns false.
\<close>

theorem engine_no_lost_update:
  assumes "engine_run asserts exec (es1 @ Begin t # es0 @ e # es @ Committed_txn u # es') (gc, db)"
    and "write_of e = Some (u, slot, x)" and "Committed_txn u \<notin> set es" and "Aborted_txn u \<notin> set es" and "u \<noteq> t"
    and "\<And>e. e \<in> set (es0 @ es @ es') \<Longrightarrow> e \<noteq> Committed_txn t \<and> e \<noteq> Aborted_txn t"
    and "may_write db t c" and "valid_slot db slot" and "good_row delta"
  shows "(\<exists>db'. SqlTable_Update i t slot delta db = Some (False, db')) \<and> (\<exists>db'. SqlTable_Delete i t slot db = Some (False, db'))"
proof -
  obtain s0 where s0: "engine_run asserts exec es1 s0"
      "run (engine_step asserts exec) s0 (Begin t # es0 @ e # es @ Committed_txn u # es') (gc, db)"
    using assms(1) unfolding engine_run_append by blast
  obtain a0 where "engine_refines s0 a0" "si_exclusive a0" using engine_runD(1) [OF s0(1)] by blast
  from engine_overtaken [OF s0(2) this assms(2-9)] show ?thesis .
qed

theorem engine_no_lost_update_witness:
  "\<exists>slot slot' gc db db'. slot' \<noteq> slot
     \<and> engine_run False (\<lambda>_ _. []) [Internal, Begin 0, Begin 1, Inserted 1 slot (scenario_row 7), Inserted 1 slot' (scenario_row 8),
         Committed_txn 1] (gc, db)
     \<and> SqlTable_Update 0 0 slot (scenario_row 9) db = Some (False, db')"
proof -
  obtain slot slot' s1 s2 s3 where S: "two_writes slot slot' s1 s2 s3" using two_writes_exists by blast
  obtain gc db where s2: "s2 = (gc, db)" by fastforce
  note run = two_writes_runs(2) [OF S, unfolded s2]
  obtain c where c: "may_write db 0 c" "valid_slot db slot" using S s2 by (auto simp: two_writes_def)
  have "(\<exists>db'. SqlTable_Update 0 0 slot (scenario_row 9) db = Some (False, db')) \<and> (\<exists>db'. SqlTable_Delete 0 0 slot db = Some (False, db'))"
    by (rule engine_no_lost_update [OF run, where c = c]) (use c in auto)
  moreover have "slot' \<noteq> slot" using S by (simp add: two_writes_def)
  ultimately show ?thesis using run by (simp only: append.simps) blast
qed

text \<open>
  C4. First updater wins. While a transaction that wrote a slot is running, every update and every delete
  of the slot by another transaction returns false.
\<close>

theorem engine_first_updater_wins:
  assumes "engine_run asserts exec (es0 @ e # es) (gc, db)"
    and "write_of e = Some (u, slot, x)" and "Committed_txn u \<notin> set es" and "Aborted_txn u \<notin> set es"
    and "may_write db t c" and "t \<noteq> u" and "valid_slot db slot" and "good_row delta"
  shows "(\<exists>db'. SqlTable_Update i t slot delta db = Some (False, db')) \<and> (\<exists>db'. SqlTable_Delete i t slot db = Some (False, db'))"
proof -
  obtain s0 where s0: "engine_run asserts exec es0 s0" "run (engine_step asserts exec) s0 (e # es) (gc, db)"
    using assms(1) unfolding engine_run_append by blast
  obtain a0 where "engine_refines s0 a0" using engine_runD(1) [OF s0(1)] by blast
  from engine_locked [OF s0(2) this assms(2-8)] show ?thesis .
qed

theorem engine_first_updater_wins_witness:
  "\<exists>slot gc db db'. engine_run False (\<lambda>_ _. []) [Internal, Begin 0, Inserted 0 slot (scenario_row 7), Committed_txn 0, Begin 2, Begin 3,
       Updated 3 slot (scenario_row 9)] (gc, db)
     \<and> SqlTable_Delete 0 2 slot db = Some (False, db')"
proof -
  obtain slot s1 s2 s3 s4 s5 s6 s5' s6' where S: "scenario slot s1 s2 s3 s4 s5 s6 s5' s6'" using scenario_exists by blast
  obtain gc db where s4: "s4 = (gc, db)" by fastforce
  note run = scenario_run [OF scenario_runs(2) [OF S], unfolded s4]
  obtain c where c: "may_write db 2 c" "valid_slot db slot" using S s4 by (auto simp: scenario_def)
  have "(\<exists>db'. SqlTable_Update 0 2 slot (scenario_row 8) db = Some (False, db')) \<and> (\<exists>db'. SqlTable_Delete 0 2 slot db = Some (False, db'))"
  proof (rule engine_first_updater_wins [where c = c])
    show "engine_run False (\<lambda>_ _. []) ([Internal, Begin 0, Inserted 0 slot (scenario_row 7), Committed_txn 0, Begin 2, Begin 3]
      @ Updated 3 slot (scenario_row 9) # []) (gc, db)" using run by simp
  qed (use c in auto)
  then show ?thesis using run by blast
qed

text \<open>
  C10. Aborted and running writes are invisible. Two transactions of which one began while the other was
  running read the same when nothing was committed in between, whatever other transactions wrote,
  aborted, or still have pending.
\<close>

theorem engine_uncommitted_invisible:
  assumes "engine_run asserts exec (es0 @ Begin t # es @ [Begin u]) s"
    and "\<And>v. Committed_txn v \<notin> set es" and "Some t \<notin> event_txn ` set es" and "u \<noteq> t"
    and "engine_reads s t slot cols r"
  shows "engine_reads s u slot cols r"
proof -
  obtain s0 where s0: "engine_run asserts exec es0 s0" "run (engine_step asserts exec) s0 (Begin t # es @ [Begin u]) s"
    using assms(1) unfolding engine_run_append by blast
  obtain a0 where a0: "engine_refines s0 a0" using engine_runD(1) [OF s0(1)] by blast
  obtain a where a: "run si_step si_init (es0 @ Begin t # es @ [Begin u]) a" "engine_refines s a"
    using engine_runD(1) [OF assms(1)] by blast
  have u: "si_view a u \<noteq> None" using a(1) by (auto simp: run_append elim!: run_elims si_step_cases(1))
  obtain out where "good_row out" "col_ids out = cols" "valid_slot (snd s) slot"
    using assms(5) by (auto simp: engine_reads_def)
  then obtain r' where "engine_reads s u slot cols r'"
    using engine_reads_total [OF a(2)] refines_active [OF a(2)] u by blast
  then show ?thesis using engine.uncommitted_invisible [OF s0(2) a0 assms(2-5)] by blast
qed

theorem engine_uncommitted_invisible_witness:
  "\<exists>slot s. engine_run False (\<lambda>_ _. []) [Internal, Begin 0, Inserted 0 slot (scenario_row 7), Committed_txn 0, Begin 2, Begin 3,
       Updated 3 slot (scenario_row 9), Aborted_txn 3, Begin 5] s
     \<and> engine_reads s 5 slot [1] (Some [Some [7]])"
proof -
  obtain slot s1 s2 s3 s4 s5 s6 s5' s6' where S: "scenario slot s1 s2 s3 s4 s5 s6 s5' s6'" using scenario_exists by blast
  note run = scenario_run [OF scenario_runs(5) [OF S]]
  have "engine_reads s6' 5 slot [1] (Some [Some [7]])"
  proof (rule engine_uncommitted_invisible)
    show "engine_run False (\<lambda>_ _. []) ([Internal, Begin 0, Inserted 0 slot (scenario_row 7), Committed_txn 0]
      @ Begin 2 # [Begin 3, Updated 3 slot (scenario_row 9), Aborted_txn 3] @ [Begin 5]) s6'" using run by simp
    show "engine_reads s6' 2 slot [1] (Some [Some [7]])" by (rule scenario_reads_aborted [OF S])
  qed auto
  then show ?thesis using run by blast
qed

text \<open>
  C12. Read your own writes. A running transaction that wrote a slot reads what it wrote there until it
  writes the slot again, whatever else it writes and whatever others do.
\<close>

theorem engine_read_own_write:
  assumes "engine_run asserts exec (es0 @ e # es) s" and "write_of e = Some (t, slot, x)"
    and "Committed_txn t \<notin> set es" and "Aborted_txn t \<notin> set es"
    and "\<And>e' y. e' \<in> set es \<Longrightarrow> write_of e' \<noteq> Some (t, slot, y)" and "valid_slot (snd s) slot" and "good_row out"
  shows "\<exists>r. engine_reads s t slot (col_ids out) r \<and> shows_read x (col_ids out) r"
proof -
  obtain s0 where s0: "engine_run asserts exec es0 s0" "run (engine_step asserts exec) s0 (e # es) s"
    using assms(1) unfolding engine_run_append by blast
  obtain a0 where a0: "engine_refines s0 a0" using engine_runD(1) [OF s0(1)] by blast
  obtain b a where b: "si_step a0 e b" "run si_step b es a" "engine_refines s a"
    using engine.run_refines [OF s0(2) a0] by (auto elim: run_elims)
  have "si_view a t \<noteq> None"
    using si_write_event(1) [OF b(1) assms(2)] si_run_kept [OF b(2) _ assms(3,4)] by auto
  then obtain r where "engine_reads s t slot (col_ids out) r"
    using engine_reads_total [OF b(3) _ assms(6,7)] refines_active [OF b(3)] by blast
  then show ?thesis using engine.read_own_write [OF s0(2) a0 assms(2-5)] by blast
qed

theorem engine_read_own_write_witness:
  "\<exists>slot slot' s. slot' \<noteq> slot
     \<and> engine_run False (\<lambda>_ _. []) [Internal, Begin 0, Begin 1, Inserted 1 slot (scenario_row 7), Inserted 1 slot' (scenario_row 8)] s
     \<and> engine_reads s 1 slot [1] (Some [Some [7]])"
proof -
  obtain slot slot' s1 s2 s3 where S: "two_writes slot slot' s1 s2 s3" using two_writes_exists by blast
  note run = two_writes_runs(1) [OF S]
  have "\<exists>r. engine_reads s1 1 slot (col_ids (scenario_row 7)) r \<and> shows_read (Some (scenario_row 7)) (col_ids (scenario_row 7)) r"
    by (rule engine_read_own_write [OF run]) (use S in \<open>auto simp: two_writes_def\<close>)
  then have "engine_reads s1 1 slot [1] (Some [Some [7]])" by auto
  moreover have "slot' \<noteq> slot" using S by (simp add: two_writes_def)
  ultimately show ?thesis using run by (simp only: append.simps) blast
qed

text \<open>
  C8. The garbage collector terminates and is invisible to readers. In every reachable state a call of
  \<open>PerformGarbageCollection\<close> returns, and every read of a running transaction gives the same before and
  after it.
\<close>

theorem gc_terminates_and_keeps_reads:
  assumes "engine_run asserts exec es s" and "clock_left 2 (snd s)"
  shows "\<exists>n s'. PerformGarbageCollection exec s = Some (n, s')
    \<and> (\<forall>t slot cols r. engine_reads s' t slot cols r \<longleftrightarrow> engine_reads s t slot cols r)"
proof -
  obtain gc db where s: "s = (gc, db)" by fastforce
  obtain a where a: "engine_refines s a" using engine_runD(1) [OF assms(1)] by blast
  then obtain C where C: "db_inv gc db C" by (auto simp: engine_refines_def s)
  obtain n gc' db' where run: "PerformGarbageCollection exec (gc, db) = Some (n, gc', db')"
    using PerformGarbageCollection_step [OF C, of exec] clock_left_committed(2) [of db] assms(2) by (auto simp: s)
  have step: "engine_step asserts exec s Internal (gc', db')" using engine_collect [OF _ run] assms(2) by (simp add: s)
  then have r: "run (engine_step asserts exec) s [Internal] (gc', db')" by (auto intro: run.intros)
  have fwd: "engine_reads (gc', db') t slot cols x" if "engine_reads s t slot cols x" for t slot cols x
    by (rule run_reads [OF r a engine_runD(2) [OF assms(1)] _ that]) simp
  have bwd: "engine_reads s t slot cols x" if rd: "engine_reads (gc', db') t slot cols x" for t slot cols x
  proof -
    obtain out where o: "good_row out" "col_ids out = cols" "active db' t" "valid_slot db' slot"
      using rd by (auto simp: engine_reads_def)
    have "active (snd s) t" using run_active [OF r a, of t] o(3) by simp
    moreover have "valid_slot (snd s) slot"
      using PerformGarbageCollection_frame [OF C _ run] assms(2) o(4) by (simp add: s collection_def valid_slot_def)
    ultimately obtain x' where x': "engine_reads s t slot cols x'" using engine_reads_total [OF a] o by blast
    have "x = x'" by (rule engine.repeatable_read [OF r a _ x' rd]) simp
    then show ?thesis using x' by simp
  qed
  show ?thesis using run fwd bwd by (auto simp: s)
qed

theorem gc_terminates_and_keeps_reads_witness:
  "\<exists>slot s n s'. engine_run False (\<lambda>_ _. []) [Internal, Begin 0, Inserted 0 slot (scenario_row 7), Committed_txn 0, Internal] s
     \<and> PerformGarbageCollection (\<lambda>_ _. []) s = Some (n, s')"
proof -
  obtain slot s where "engine_run False (\<lambda>_ _. []) [Internal, Begin 0, Inserted 0 slot (scenario_row 7), Committed_txn 0, Internal] s"
      "clock_left 6 (snd s)" using scenario_idle by blast
  moreover then have "clock_left 2 (snd s)" by (simp add: clock_left_def)
  ultimately show ?thesis using gc_terminates_and_keeps_reads by blast
qed

text \<open>
  C11. \<open>FullyPerformGC\<close> frees everything. In a reachable state in which no transaction runs, three runs of
  the collector return, empty all its queues, delete every transaction context, and leave no slot of a
  table with a version chain.
\<close>

theorem full_gc_drains:
  assumes "engine_run asserts exec es s" and "curr_running_txns (ts_manager (snd s)) = []"
    and "clock_left 6 (snd s)" and "gc_enabled (snd s)"
  shows "\<exists>gc' db'. FullyPerformGC exec (\<lambda>db. db) s = Some (gc', db') \<and> set (queued gc' db') = {}
    \<and> (\<forall>t. contexts db' t = None)
    \<and> (\<forall>slot. valid_slot (snd s) slot \<longrightarrow> AtomicallyReadVersionPtr (memory (store db')) slot = None)"
proof -
  obtain gc db where s: "s = (gc, db)" by fastforce
  obtain a where a: "engine_refines (gc, db) a" using engine_runD(1) [OF assms(1)] s by blast
  have "tracked (gc, db)" using engine_runD(2) [OF assms(1)] s by simp
  from drain [OF a this, of exec] assms(2-4) show ?thesis by (simp add: s)
qed

theorem full_gc_drains_witness:
  "\<exists>slot s gc' db'. engine_run False (\<lambda>_ _. []) [Internal, Begin 0, Inserted 0 slot (scenario_row 7), Committed_txn 0, Internal] s
     \<and> FullyPerformGC (\<lambda>_ _. []) (\<lambda>db. db) s = Some (gc', db') \<and> contexts db' 0 = None
     \<and> AtomicallyReadVersionPtr (memory (store db')) slot = None"
proof -
  obtain slot s where s: "engine_run False (\<lambda>_ _. []) [Internal, Begin 0, Inserted 0 slot (scenario_row 7), Committed_txn 0, Internal] s"
      "valid_slot (snd s) slot" "curr_running_txns (ts_manager (snd s)) = []" "clock_left 6 (snd s)" "gc_enabled (snd s)"
    using scenario_idle by blast
  from full_gc_drains [OF s(1,3-5)] show ?thesis using s(1,2) by blast
qed

text \<open>
  C14. Updates and deletes return. In every reachable state the calls of a running transaction on a slot
  of a table return, and they return true exactly when the version on top of the chain is not one that
  the transaction conflicts with and the transaction reads a tuple in the slot. As everywhere in the
  model, the pool of buffer segments does not run out.
\<close>

theorem writes_return:
  assumes "engine_run asserts exec es (gc, db)" and "may_write db t c" and "valid_slot db slot" and "good_row out"
  shows "\<exists>db1 db2 b. SqlTable_Update i t slot delta db = Some (b, db1) \<and> SqlTable_Delete i t slot db = Some (b, db2)
    \<and> b = (\<not> HasConflict_slot c slot (store db) \<and> \<not> engine_reads (gc, db) t slot (col_ids out) None)"
proof -
  obtain a where a: "engine_refines (gc, db) a" using engine_runD(1) [OF assms(1)] by blast
  then obtain C where C: "db_inv gc db C" by (auto simp: engine_refines_def)
  have a0: "engine_refines (gc, db) (si_abs db C)" using C by (auto simp: engine_refines_def)
  have M: "contexts db t = Some c" "active db t" using assms(2) by (auto simp: may_write_def active_def)
  have rd: "engine_reads (gc, db) t slot (col_ids out) None \<longleftrightarrow> seen db C t slot = None"
  proof
    assume "engine_reads (gc, db) t slot (col_ids out) None"
    from engine_reads_view [OF a0 this] show "seen db C t slot = None" using M(2) by (auto simp: si_abs_def)
  next
    assume "seen db C t slot = None"
    then show "engine_reads (gc, db) t slot (col_ids out) None"
      using Select_seen [OF C M(2) assms(3,4)] M(2) assms(3,4) unfolding engine_reads_def snd_conv by (intro conjI exI [of _ out]) simp_all
  qed
  have "(\<not> HasConflict_slot c slot (store db) \<and> Visible (memory (store db)) slot)
      \<longleftrightarrow> (\<not> HasConflict_slot c slot (store db) \<and> \<not> engine_reads (gc, db) t slot (col_ids out) None)"
    using no_conflict_sees [OF C assms(2,3)] rd by (cases "HasConflict_slot c slot (store db)") simp_all
  then show ?thesis using Update_returns [OF C M(1) assms(3), of i delta] Delete_returns [OF C M(1) assms(3), of i] by auto
qed

theorem writes_return_witness:
  "\<exists>slot gc db c. engine_run False (\<lambda>_ _. []) [Internal, Begin 0, Inserted 0 slot (scenario_row 7), Committed_txn 0, Begin 2] (gc, db)
     \<and> may_write db 2 c
     \<and> (\<exists>db'. SqlTable_Delete 0 2 slot db = Some
          (\<not> HasConflict_slot c slot (store db) \<and> \<not> engine_reads (gc, db) 2 slot [1] None, db'))"
proof -
  obtain slot s1 s2 s3 s4 s5 s6 s5' s6' where S: "scenario slot s1 s2 s3 s4 s5 s6 s5' s6'" using scenario_exists by blast
  obtain gc db where s2: "s2 = (gc, db)" by fastforce
  note run = scenario_run [OF scenario_runs(1) [OF S], unfolded s2]
  obtain c where c: "may_write db 2 c" "valid_slot db slot" using S s2 by (auto simp: scenario_def)
  have "\<exists>db1 db2 b. SqlTable_Update 0 2 slot (scenario_row 8) db = Some (b, db1) \<and> SqlTable_Delete 0 2 slot db = Some (b, db2)
    \<and> b = (\<not> HasConflict_slot c slot (store db) \<and> \<not> engine_reads (gc, db) 2 slot (col_ids (scenario_row 7)) None)"
    by (rule writes_return [OF run c scenario_row(1)])
  then have "\<exists>db'. SqlTable_Delete 0 2 slot db = Some (\<not> HasConflict_slot c slot (store db) \<and> \<not> engine_reads (gc, db) 2 slot [1] None, db')"
    by auto
  with run c(1) show ?thesis by blast
qed

text \<open>
  C18. Inserts take the first free slot. In every reachable state an insert into a table returns. If a
  block from the insertion head on has a slot left, it takes the next slot of the first such block and
  no new block is taken. Otherwise it takes the first slot of a new block from the block store, or fails
  with the error of the block store. Segments for undo records are taken to be available.
\<close>

theorem insert_returns:
  assumes "engine_run asserts exec es (gc, db)" and "may_write db t c" and "blocks (tables db i) \<noteq> []"
  shows "case free_blocks (tables db i) (memory (store db)) of
      b # _ \<Rightarrow> \<exists>db'. SqlTable_Insert asserts i t delta db = Some (Inr (make_TupleSlot b (insert_head (memory (store db) b)), db'))
        \<and> blocks (tables db' i) = blocks (tables db i) \<and> block_store db' = block_store db
    | [] \<Rightarrow> (case BlockStore_Get (block_store db) of
        Inl e \<Rightarrow> SqlTable_Insert asserts i t delta db = Some (Inl e)
      | Inr (b, bs) \<Rightarrow> \<exists>db'. SqlTable_Insert asserts i t delta db = Some (Inr (make_TupleSlot b 0, db'))
          \<and> blocks (tables db' i) = blocks (tables db i) @ [b] \<and> block_store db' = bs)"
proof -
  obtain C where "db_inv gc db C" using engine_runD(1) [OF assms(1)] by (auto simp: engine_refines_def)
  from Insert_total [OF this assms(2,3)] show ?thesis .
qed

theorem insert_returns_witness:
  "\<exists>gc db db' b. engine_run False (\<lambda>_ _. []) [Internal, Begin 0] (gc, db) \<and> b \<in> set (blocks (tables db 0))
     \<and> SqlTable_Insert False 0 0 (scenario_row 8) db = Some (Inr (make_TupleSlot b (insert_head (memory (store db) b)), db'))"
proof -
  let ?gc = init_GarbageCollector
  obtain db1 where s1: "scenario_step scenario_init Internal (?gc, db1)" "blocks (tables db1 0) \<noteq> []"
      "free_blocks (tables db1 0) (memory (store db1)) \<noteq> []" "time (ts_manager db1) = 0"
    using scenario_created by blast
  obtain db where s2: "scenario_step (?gc, db1) (Begin 0) (?gc, db)" "same_world db1 0 db" "store db = store db1"
      "may_write db 0 (new_TransactionContext 0 (txn_id 0))"
    using begin_progress [of db1 0 False "\<lambda>_ _. []" ?gc] s1(4) by (auto simp: clock_left_def)
  have run: "engine_run False (\<lambda>_ _. []) [Internal, Begin 0] (?gc, db)"
    by (rule scenario_run) (use s1(1) s2(1) in \<open>auto intro: run.intros\<close>)
  have T: "tables db = tables db1" using s2(2) by (simp add: same_world_def)
  then obtain b bs where b: "free_blocks (tables db 0) (memory (store db)) = b # bs"
    using s1(3) s2(3) by (cases "free_blocks (tables db 0) (memory (store db))") auto
  then have "b \<in> set (free_blocks (tables db 0) (memory (store db)))" by simp
  then have "b \<in> set (blocks (tables db 0))" by (auto simp: free_blocks_def dest: in_set_dropD)
  moreover have "\<exists>db'. SqlTable_Insert False 0 0 (scenario_row 8) db = Some (Inr (make_TupleSlot b (insert_head (memory (store db) b)), db'))"
    using insert_returns [OF run s2(4), of 0 "scenario_row 8"] b s1(2) T by auto
  ultimately show ?thesis using run by blast
qed

text \<open>
  C15. Aborts return. In every reachable state the abort of a running transaction rolls back all of its
  writes and returns, provided that its last staged write, if any, was passed to the table.
\<close>

theorem abort_returns:
  assumes "engine_run asserts exec es (gc, db)" and "contexts db t = Some c" and "finish_time c = txn_id t"
    and "abort_ready c (store db)"
  shows "\<exists>db'. Abort t db = Some (time (ts_manager db), db')"
proof -
  obtain C where "db_inv gc db C" using engine_runD(1) [OF assms(1)] by (auto simp: engine_refines_def)
  from Abort_returns [OF this assms(2-4)] show ?thesis .
qed

theorem abort_returns_witness:
  "\<exists>slot gc db db'. engine_run False (\<lambda>_ _. []) [Internal, Begin 0, Inserted 0 slot (scenario_row 7), Committed_txn 0, Begin 2] (gc, db)
     \<and> Abort 2 db = Some (time (ts_manager db), db')"
proof -
  obtain slot s1 s2 s3 s4 s5 s6 s5' s6' where S: "scenario slot s1 s2 s3 s4 s5 s6 s5' s6'" using scenario_exists by blast
  obtain gc db where s2: "s2 = (gc, db)" by fastforce
  note run = scenario_run [OF scenario_runs(1) [OF S], unfolded s2]
  let ?c = "new_TransactionContext 2 (txn_id 2)"
  have c: "contexts db 2 = Some ?c" by (rule scenario_context [OF S, unfolded s2, simplified])
  have "abort_ready ?c (store db)" by (simp add: abort_ready_def new_TransactionContext_def RedoBuffer_LastRecord_def)
  with abort_returns [OF run c] show ?thesis using run by (auto simp: new_TransactionContext_def)
qed

text \<open>
  C13. No dangling versions. In every reachable state the version chain of a slot of a table is finite and
  acyclic, and each of its records is in the undo buffer of a transaction context that was not deleted.
\<close>

theorem no_dangling_versions:
  assumes "engine_run asserts exec es s" and "valid_slot (snd s) slot"
  shows "\<exists>qs. slot_chain (store (snd s)) slot qs \<and> distinct qs
    \<and> (\<forall>q \<in> set qs. rec_slot (undo_recs (store (snd s)) q) = slot
        \<and> (\<exists>t c. contexts (snd s) t = Some c \<and> q \<in> set (undo_buffer c)))"
proof -
  obtain C where C: "db_inv (fst s) (snd s) C" using engine_runD(1) [OF assms(1)] by (auto simp: engine_refines_def)
  have I: "slot_inv (store (snd s)) slot (C slot)" by (rule inv_slot(1) [OF C assms(2)])
  have "\<forall>q \<in> set (C slot). \<exists>t c. contexts (snd s) t = Some c \<and> q \<in> set (undo_buffer c)"
    using inv_parts(2) [OF C] assms(2) by (simp add: chains_inv_def)
  moreover have "distinct (C slot)" using I by (auto simp: slot_inv_def slot_chain_def dest: chain_distinct)
  ultimately show ?thesis using I unfolding slot_inv_def by blast
qed

theorem no_dangling_versions_witness:
  "\<exists>slot s qs. engine_run False (\<lambda>_ _. []) [Internal, Begin 0, Inserted 0 slot (scenario_row 7), Committed_txn 0, Internal] s
     \<and> slot_chain (store (snd s)) slot qs \<and> distinct qs"
proof -
  obtain slot s where "engine_run False (\<lambda>_ _. []) [Internal, Begin 0, Inserted 0 slot (scenario_row 7), Committed_txn 0, Internal] s"
      "valid_slot (snd s) slot" using scenario_idle by blast
  with no_dangling_versions [OF this] show ?thesis by blast
qed

text \<open>
  C27. An abort right after staging does not return. When the last staged record of a running transaction
  is a write and the transaction has no undo record, because the write was never passed to a table,
  \<open>Abort\<close> reads the table of a null undo record.
\<close>

theorem abort_after_unused_stage_fails:
  assumes "engine_run asserts exec es (gc, db)" and "contexts db t = Some c" and "finish_time c = txn_id t"
    and "RedoBuffer_LastRecord (redo_buffer c) = Some r" and "log_body r = RedoRecord d tb slot delta" and "undo_buffer c = []"
  shows "Abort t db = None"
  using assms(2,4-6)
  by (simp add: Abort_def Let_def run_end_actions_def CheckOutTimestamp_def GCLastUpdateOnAbort_def set_timestamps_def)

theorem abort_after_unused_stage_fails_witness:
  "\<exists>es gc db. engine_run False (\<lambda>_ _. []) es (gc, db) \<and> active db 2 \<and> Abort 2 db = None"
proof -
  obtain slot s1 s2 s3 s4 s5 s6 s5' s6' where S: "scenario slot s1 s2 s3 s4 s5 s6 s5' s6'" using scenario_exists by blast
  obtain gc db where s2: "s2 = (gc, db)" by fastforce
  note run = scenario_run [OF scenario_runs(1) [OF S], unfolded s2]
  let ?c = "new_TransactionContext 2 (txn_id 2)"
  have c: "contexts db 2 = Some ?c" by (rule scenario_context [OF S, unfolded s2, simplified])
  then have a: "active db 2" by (simp add: active_def new_TransactionContext_def)
  let ?f = "StageWrite (log_enabled db) 0 0 slot (scenario_row 7)"
  let ?db = "stage ?f 2 db" and ?c' = "fst (?f ?c (log_queue db))"
  have st: "engine_step False (\<lambda>_ _. []) (gc, db) Internal (gc, ?db)" by (rule engine_stage_write [OF a])
  have "engine_run False (\<lambda>_ _. []) ([Internal, Begin 0, Inserted 0 slot (scenario_row 7), Committed_txn 0, Begin 2] @ [Internal]) (gc, ?db)"
    unfolding engine_run_append using run st by (blast intro: run.intros)
  note run' = this
  have c': "contexts ?db 2 = Some ?c'" using c by (simp add: stage_def split: prod.splits)
  have "same_ctx ?c ?c'" by (rule stage_calls(1))
  then have k: "finish_time ?c' = txn_id 2" "undo_buffer ?c' = []" by (simp_all add: same_ctx_def new_TransactionContext_def)
  obtain r where "RedoBuffer_LastRecord (redo_buffer ?c') = Some r" "log_body r = RedoRecord 0 0 slot (scenario_row 7)"
    using StageWrite_last by blast
  from abort_after_unused_stage_fails [OF run' c' k(1) this k(2)] show ?thesis using run' c' k(1) by (auto simp: active_def)
qed

end
